(* ===== verification/Go_Prelude.thy ===== *)
theory Go_Prelude
  imports Main "HOL-Library.Word" "HOL-Library.AList"
begin

text \<open>
  What every component of the development shares.

  Go strings and byte slices are HOL strings: a \<open>char\<close> is one byte, so \<open>length\<close> is Go's
  \<open>len\<close>. The functions of the packages \<open>strings\<close>, \<open>bytes\<close>, \<open>strconv\<close> and \<open>fmt\<close> that the source
  calls are defined here (prefix test, split, decimal and hexadecimal rendering), with
  the conversions between Go's integer widths.
\<close>

named_theorems str_simps \<open>simplification rules for byte strings\<close>
named_theorems result_simps \<open>simplification rules for results and early returns\<close>

section \<open>Byte strings\<close>

text \<open>\<open>strings.HasPrefix\<close> and \<open>bytes.HasPrefix\<close>.\<close>

definition has_prefix :: "string \<Rightarrow> string \<Rightarrow> bool" where
  "has_prefix p s \<longleftrightarrow> take (length p) s = p"

lemma has_prefix_conv: "has_prefix p s \<longleftrightarrow> (\<exists>t. s = p @ t)"
  unfolding has_prefix_def by (metis append_eq_conv_conj append_take_drop_id)

lemma has_prefix_append [simp, str_simps]: "has_prefix p (p @ t)"
  by (simp add: has_prefix_def)

lemma has_prefix_split: "has_prefix p s \<Longrightarrow> p @ drop (length p) s = s"
  unfolding has_prefix_def by (metis append_take_drop_id)

text \<open>\<open>strings.Split\<close> (and \<open>SplitSeq\<close>) on a one-byte separator: never the empty list.\<close>

fun split_on :: "char \<Rightarrow> string \<Rightarrow> string list" where
  "split_on sep [] = [[]]"
| "split_on sep (c # cs) =
     (if c = sep then [] # split_on sep cs
      else (case split_on sep cs of [] \<Rightarrow> [[c]] | w # ws \<Rightarrow> (c # w) # ws))"

fun join_with :: "char \<Rightarrow> string list \<Rightarrow> string" where
  "join_with sep [] = []"
| "join_with sep [w] = w"
| "join_with sep (w # v # ws) = w @ sep # join_with sep (v # ws)"

lemma split_on_not_Nil [simp, str_simps]: "split_on sep s \<noteq> []"
  by (cases s) (auto split: list.split)

lemma split_on_Cons: "\<exists>w ws. split_on sep s = w # ws"
  by (meson neq_Nil_conv split_on_not_Nil)

lemma join_split [simp, str_simps]: "join_with sep (split_on sep s) = s"
proof (induction s)
  case Nil
  then show ?case by simp
next
  case (Cons c cs)
  obtain w ws where "split_on sep cs = w # ws" using split_on_Cons by blast
  with Cons show ?case by (cases ws) auto
qed

lemma split_on_no_sep: "w \<in> set (split_on sep s) \<Longrightarrow> sep \<notin> set w"
proof (induction s arbitrary: w)
  case Nil
  then show ?case by simp
next
  case (Cons c cs)
  obtain v vs where "split_on sep cs = v # vs" using split_on_Cons by blast
  with Cons show ?case by (auto split: if_splits)
qed

lemma split_on_single: "sep \<notin> set w \<Longrightarrow> split_on sep w = [w]"
  by (induction w) auto

lemma split_on_append: "sep \<notin> set w \<Longrightarrow> split_on sep (w @ sep # s) = w # split_on sep s"
  by (induction w) auto

lemma split_join:
  "ws \<noteq> [] \<Longrightarrow> \<forall>w\<in>set ws. sep \<notin> set w \<Longrightarrow> split_on sep (join_with sep ws) = ws"
  by (induction sep ws rule: join_with.induct) (auto simp: split_on_single split_on_append)

text \<open>Text before the first separator: the first result of \<open>strings.Cut\<close>.\<close>

definition cut_before :: "char \<Rightarrow> string \<Rightarrow> string" where
  "cut_before sep s = takeWhile (\<lambda>c. c \<noteq> sep) s"

lemma cut_before_no_sep: "sep \<notin> set (cut_before sep s)"
  by (auto simp: cut_before_def dest: set_takeWhileD)

lemma cut_before_append: "sep \<notin> set w \<Longrightarrow> cut_before sep (w @ sep # s) = w"
  by (induction w) (auto simp: cut_before_def)

lemma cut_before_id: "sep \<notin> set w \<Longrightarrow> cut_before sep w = w"
  by (induction w) (auto simp: cut_before_def)

lemma cut_before_rest:
  "drop (length (cut_before sep s)) s = dropWhile (\<lambda>c. c \<noteq> sep) s"
  by (simp add: cut_before_def dropWhile_eq_drop)

text \<open>
  \<open>filepath.Clean\<close> on Unix: empty and \<open>.\<close> elements go, an inner \<open>..\<close> takes the element before it
  along, and one at the root goes.
\<close>

definition clean_step :: "bool \<Rightarrow> string list \<Rightarrow> string \<Rightarrow> string list" where
  "clean_step rooted out w =
     (if w = '''' \<or> w = ''.'' then out
      else if w = ''..'' then
        (if out \<noteq> [] \<and> last out \<noteq> ''..'' then butlast out
         else if rooted then out
         else out @ [''..''])
      else out @ [w])"

definition Clean :: "string \<Rightarrow> string" where
  "Clean p =
     (let rooted = has_prefix ''/'' p;
          body = join_with (CHR ''/'') (foldl (clean_step rooted) [] (split_on (CHR ''/'') p))
      in if rooted then CHR ''/'' # body else if body = '''' then ''.'' else body)"

text \<open>A regular expression \<open>^[class]+$\<close>: not empty, every byte in the class.\<close>

definition matches_class :: "(char \<Rightarrow> bool) \<Rightarrow> string \<Rightarrow> bool" where
  "matches_class cls s \<longleftrightarrow> s \<noteq> [] \<and> list_all cls s"

lemma matches_class_nonempty: "matches_class cls s \<Longrightarrow> s \<noteq> []"
  by (simp add: matches_class_def)

lemma matches_class_excludes: "matches_class cls s \<Longrightarrow> \<not> cls c \<Longrightarrow> c \<notin> set s"
  by (auto simp: matches_class_def list_all_iff)

definition byte_in :: "char \<Rightarrow> char \<Rightarrow> char \<Rightarrow> bool" where
  "byte_in lo hi c \<longleftrightarrow> of_char lo \<le> (of_char c :: nat) \<and> of_char c \<le> (of_char hi :: nat)"

definition is_lower :: "char \<Rightarrow> bool" where
  "is_lower c \<longleftrightarrow> byte_in (CHR ''a'') (CHR ''z'') c"

definition is_upper :: "char \<Rightarrow> bool" where
  "is_upper c \<longleftrightarrow> byte_in (CHR ''A'') (CHR ''Z'') c"

definition is_digit :: "char \<Rightarrow> bool" where
  "is_digit c \<longleftrightarrow> byte_in (CHR ''0'') (CHR ''9'') c"

lemmas byte_class_defs = is_lower_def is_upper_def is_digit_def byte_in_def

section \<open>Decimal and hexadecimal numerals\<close>

text \<open>The digits of a numeral in base \<open>b\<close>, as \<open>strconv.Itoa\<close> and \<open>big.Int.Text\<close> write them.\<close>

definition digit_char :: "nat \<Rightarrow> char" where
  "digit_char d = (if d < 10 then char_of (48 + d) else char_of (87 + d))"

definition digit_value :: "char \<Rightarrow> nat option" where
  "digit_value c = (if is_digit c then Some (of_char c - 48) else None)"

function show_base :: "nat \<Rightarrow> nat \<Rightarrow> string" where
  "show_base b n =
     (if b < 2 \<or> n < b then [digit_char n]
      else show_base b (n div b) @ [digit_char (n mod b)])"
  by pat_completeness auto
termination
  by (relation "measure snd") (auto intro!: div_less_dividend)

declare show_base.simps [simp del]

lemma digit_char_values [str_simps]:
  "digit_char 0 = CHR ''0''" "digit_char (Suc 0) = CHR ''1''" "digit_char 2 = CHR ''2''"
  "digit_char 3 = CHR ''3''" "digit_char 4 = CHR ''4''" "digit_char 5 = CHR ''5''"
  "digit_char 6 = CHR ''6''" "digit_char 7 = CHR ''7''" "digit_char 8 = CHR ''8''"
  "digit_char 9 = CHR ''9''"
  by (simp_all add: digit_char_def char_of_eq_iff)

definition show_int_base :: "nat \<Rightarrow> int \<Rightarrow> string" where
  "show_int_base b i = (if i < 0 then CHR ''-'' # show_base b (nat (- i)) else show_base b (nat i))"

abbreviation show_int :: "int \<Rightarrow> string" where
  "show_int \<equiv> show_int_base 10"

abbreviation show_nat :: "nat \<Rightarrow> string" where
  "show_nat \<equiv> show_base 10"

fun digits_value :: "nat \<Rightarrow> string \<Rightarrow> nat option" where
  "digits_value acc [] = Some acc"
| "digits_value acc (c # cs) =
     (case digit_value c of None \<Rightarrow> None | Some d \<Rightarrow> digits_value (10 * acc + d) cs)"

lemma of_char_digit_char: "d < 10 \<Longrightarrow> of_char (digit_char d) = 48 + d"
  by (simp add: digit_char_def)

lemma digit_value_char [simp]: "d < 10 \<Longrightarrow> digit_value (digit_char d) = Some d"
  by (simp add: digit_value_def byte_class_defs of_char_digit_char)

lemma digits_value_append:
  "digits_value acc (s @ t) =
     (case digits_value acc s of None \<Rightarrow> None | Some a \<Rightarrow> digits_value a t)"
  by (induction s arbitrary: acc) (auto split: option.split)

lemma digits_value_show: "digits_value 0 (show_nat n) = Some n"
proof (induction n rule: less_induct)
  case (less n)
  show ?case
  proof (cases "n < 10")
    case True
    then show ?thesis by (simp add: show_base.simps)
  next
    case False
    then have "digits_value 0 (show_nat (n div 10)) = Some (n div 10)"
      by (intro less.IH) simp
    with False show ?thesis
      by (subst show_base.simps) (simp add: digits_value_append)
  qed
qed

lemma show_nat_nonempty [simp]: "show_nat n \<noteq> []"
  by (subst show_base.simps) simp

lemma show_nat_digits: "c \<in> set (show_nat n) \<Longrightarrow> is_digit c"
proof (induction n rule: less_induct)
  case (less n)
  have d: "is_digit (digit_char k)" if "k < 10" for k
    using that by (simp add: byte_class_defs of_char_digit_char)
  show ?case
  proof (cases "n < 10")
    case True
    with less.prems d show ?thesis by (simp add: show_base.simps)
  next
    case False
    with less.prems have "c \<in> set (show_nat (n div 10)) \<or> c = digit_char (n mod 10)"
      by (subst (asm) show_base.simps) auto
    then show ?thesis using less.IH [of "n div 10"] False d by auto
  qed
qed

lemma show_nat_inj: "show_nat m = show_nat n \<longleftrightarrow> m = n"
  by (metis digits_value_show option.inject)

lemma show_nat_no_slash: "CHR ''/'' \<notin> set (show_nat n)"
  using show_nat_digits by (fastforce simp: byte_class_defs)

lemma show_nat_no_minus: "CHR ''-'' \<notin> set (show_nat n)"
  using show_nat_digits by (fastforce simp: byte_class_defs)

lemma show_int_inj: "show_int i = show_int j \<longleftrightarrow> i = j"
proof
  assume eq: "show_int i = show_int j"
  have m: "show_nat k \<noteq> CHR ''-'' # s" for k s
    using show_nat_no_minus [of k] by (metis list.set_intros(1))
  show "i = j"
    using eq by (auto simp: show_int_base_def show_nat_inj m m [symmetric] split: if_splits)
qed simp

lemma show_int_no_slash: "CHR ''/'' \<notin> set (show_int i)"
  by (simp add: show_int_base_def show_nat_no_slash)

text \<open>Two strings joined by a separator the second part does not contain determine both parts.\<close>

lemma append_sep_inj:
  assumes "sep \<notin> set d" and "sep \<notin> set d'" and "a @ sep # d = a' @ sep # d'"
  shows "a = a' \<and> d = d'"
proof -
  have r: "rev d @ sep # rev a = rev d' @ sep # rev a'"
    using arg_cong [OF assms(3), of rev] by simp
  have "takeWhile (\<lambda>c. c \<noteq> sep) (rev d @ sep # rev a) = rev d"
    using assms(1) by (subst takeWhile_append2) auto
  moreover have "takeWhile (\<lambda>c. c \<noteq> sep) (rev d' @ sep # rev a') = rev d'"
    using assms(2) by (subst takeWhile_append2) auto
  ultimately have "rev d = rev d'" using r by simp
  with r show ?thesis by auto
qed

text \<open>
  \<open>time.Duration.String\<close>: the largest units that apply, the fraction without trailing zeros.
\<close>

definition fraction_text :: "nat \<Rightarrow> nat \<Rightarrow> string" where
  "fraction_text u prec =
     (let f = u mod 10 ^ prec; digits = show_nat f
      in if f = 0 then []
         else CHR ''.'' # rev (dropWhile (\<lambda>c. c = CHR ''0'')
                (rev (replicate (prec - length digits) (CHR ''0'') @ digits))))"

definition show_duration :: "int \<Rightarrow> string" where
  "show_duration d =
     (let u = nat \<bar>d\<bar>; s = u div 1000000000; m = s div 60; h = m div 60;
          sec = show_nat (s mod 60) @ fraction_text u 9 @ ''s'';
          body =
            (if u = 0 then ''0s''
             else if u < 1000 then show_nat u @ ''ns''
             else if u < 1000000 then show_nat (u div 1000) @ fraction_text u 3 @ [CHR 0xC2, CHR 0xB5, CHR ''s'']
             else if u < 1000000000 then show_nat (u div 1000000) @ fraction_text u 6 @ ''ms''
             else if h > 0 then show_nat h @ ''h'' @ show_nat (m mod 60) @ ''m'' @ sec
             else if m > 0 then show_nat m @ ''m'' @ sec
             else sec)
      in if d < 0 then CHR ''-'' # body else body)"

section \<open>Machine integers\<close>

definition min_int64 :: int where "min_int64 = - (2 ^ 63)"
definition max_int64 :: int where "max_int64 = 2 ^ 63 - 1"
definition min_int32 :: int where "min_int32 = - (2 ^ 31)"
definition max_int32 :: int where "max_int32 = 2 ^ 31 - 1"

lemmas int_bounds = min_int64_def max_int64_def min_int32_def max_int32_def

text \<open>The conversion \<open>int32(x)\<close> keeps the low 32 bits; \<open>int(x)\<close> of an \<open>int32\<close> sign-extends.\<close>

definition to_int32 :: "int \<Rightarrow> 32 word" where
  "to_int32 i = word_of_int i"

definition of_int32 :: "32 word \<Rightarrow> int" where
  "of_int32 w = sint w"

lemma of_to_int32: "min_int32 \<le> i \<Longrightarrow> i \<le> max_int32 \<Longrightarrow> of_int32 (to_int32 i) = i"
  unfolding of_int32_def to_int32_def int_bounds
  by (simp add: sint_sbintrunc' signed_take_bit_int_eq_self)

lemma of_int32_bounds: "min_int32 \<le> of_int32 w \<and> of_int32 w \<le> max_int32"
  unfolding of_int32_def int_bounds
  using sint_greater_eq [of w] sint_less [of w] by auto

end
