(* ===== verification/Go_Errors.thy ===== *)
theory Go_Errors
  imports Go_Prelude
begin

text \<open>
  The error values of the program. Each package's sentinels are one datatype, in the order of its
  \<open>errors.go\<close>, and \<open>sentinel\<close> is their sum together with the sentinels of the standard library
  and of gRPC that the code compares against. An \<open>error\<close> is a tree: \<open>fmt.Errorf\<close> with one
  \<open>%w\<close> is \<open>Wrap1\<close>, with two \<open>Wrap2\<close>; \<open>errors_is\<close> is \<open>errors.Is\<close>, which walks the tree. A
  fallible function returns \<open>go_error + 'a\<close>.
\<close>

section \<open>Sentinels\<close>

datatype spiffeid_sentinel =
    ErrNotSPIFFE | ErrIDTooLong | ErrTrustDomainTooLong | ErrInvalidTrustDomain
  | ErrInvalidPathComponent

datatype x509svid_sentinel =
    ErrNoCertificate | ErrNoTrustBundle | ErrLeafCertIsCA | ErrLeafCertHasKeyCertSign
  | ErrLeafCertHasCRLSign | ErrLeafCertMissingDigitalSignature | ErrLeafSPIFFEMissingPath
  | ErrCertHasNoURI | ErrCertHasMultipleURIs | ErrSigningCertIsNotCA
  | ErrSigningCertMissingKeyCertSign | ErrSigningSPIFFEHasPath
  | ErrSigningSPIFFEInDifferentTrustDomainThanLeaf | ErrNegativeSkew

datatype authn_sentinel =
    ErrEmptyTrustBundle | ErrBundleNotCertificate | ErrBundleBlockHasHeaders
  | ErrBundleUnexpectedData | ErrBundleBlockDropped | ErrBundleDuplicateCertificate
  | ErrWrongTrustDomain | ErrUnexpectedIdentity | ErrInvalidAgentID | ErrMissingServerAuth
  | ErrMissingClientAuth | ErrKeyNotECDSA | ErrKeyNotP256

datatype authz_sentinel = ErrUnknownRole | ErrActionUnauthorized | ErrEmptyRoles

datatype worker_sentinel = ErrInvalidCount | ErrInvalidMeanInterval | ErrJobPanic

datatype registry_sentinel = ErrNotAcceptingJobs

datatype server_sentinel = ErrEmptyAddress | ErrShutdownGraceElapsed

datatype client_sentinel =
    ErrInvalidArgument | ErrNotFound | ErrPermissionDenied | ErrUnauthenticated | ErrUnavailable
  | ErrCanceled | ErrDeadlineExceeded | ErrRPC | ErrConfig | ErrUnknownStatus

datatype fizzle_sentinel = FizzleErrUsage

datatype fizzled_sentinel = FizzledErrUsage | FizzledErrConfig

text \<open>Values of the standard library and gRPC that the source tests for with \<open>errors.Is\<close>.\<close>

datatype std_sentinel =
  CtxCanceled | CtxDeadlineExceeded | FlagErrHelp | IoEOF | NetErrClosed | GrpcErrServerStopped

datatype sentinel =
    SSpiffeID spiffeid_sentinel
  | SX509 x509svid_sentinel
  | SAuthn authn_sentinel
  | SAuthz authz_sentinel
  | SWorker worker_sentinel
  | SRegistry registry_sentinel
  | SServer server_sentinel
  | SClient client_sentinel
  | SFizzle fizzle_sentinel
  | SFizzled fizzled_sentinel
  | SStd std_sentinel

text \<open>The message each package gives its sentinels with \<open>errors.New\<close>.\<close>

primrec spiffeid_text :: "spiffeid_sentinel \<Rightarrow> string" where
  "spiffeid_text ErrNotSPIFFE = ''not spiffe scheme''"
| "spiffeid_text ErrIDTooLong = ''spiffe id too long''"
| "spiffeid_text ErrTrustDomainTooLong = ''trust domain too long''"
| "spiffeid_text ErrInvalidTrustDomain = ''invalid trust domain''"
| "spiffeid_text ErrInvalidPathComponent = ''invalid path component''"

primrec x509svid_text :: "x509svid_sentinel \<Rightarrow> string" where
  "x509svid_text ErrNoCertificate = ''no certificate''"
| "x509svid_text ErrNoTrustBundle = ''no trust bundle''"
| "x509svid_text ErrLeafCertIsCA = ''leaf certificate is CA''"
| "x509svid_text ErrLeafCertHasKeyCertSign = ''leaf certificate has keyCertSign''"
| "x509svid_text ErrLeafCertHasCRLSign = ''leaf certificate has cRLSign''"
| "x509svid_text ErrLeafCertMissingDigitalSignature =
     ''leaf certificate is missing digitalSignature''"
| "x509svid_text ErrLeafSPIFFEMissingPath = ''leaf spiffe-ID is missing path components''"
| "x509svid_text ErrCertHasNoURI = ''certificate has no URI''"
| "x509svid_text ErrCertHasMultipleURIs = ''certificate has multiple URIs''"
| "x509svid_text ErrSigningCertIsNotCA = ''signing certificate is not CA''"
| "x509svid_text ErrSigningCertMissingKeyCertSign = ''signing certificate is missing keyCertSign''"
| "x509svid_text ErrSigningSPIFFEHasPath = ''signing certificate has path''"
| "x509svid_text ErrSigningSPIFFEInDifferentTrustDomainThanLeaf =
     ''signing spiffe-ID is in a different trust-domain than the leaf spiffe-ID''"
| "x509svid_text ErrNegativeSkew = ''negative clock-skew tolerance''"

primrec authn_text :: "authn_sentinel \<Rightarrow> string" where
  "authn_text ErrEmptyTrustBundle = ''empty trust bundle''"
| "authn_text ErrBundleNotCertificate = ''trust bundle block is not a certificate''"
| "authn_text ErrBundleBlockHasHeaders = ''trust bundle block has PEM headers''"
| "authn_text ErrBundleUnexpectedData = ''trust bundle carries data outside a PEM block''"
| "authn_text ErrBundleBlockDropped = ''trust bundle block could not be read''"
| "authn_text ErrBundleDuplicateCertificate = ''trust bundle carries a duplicate certificate''"
| "authn_text ErrWrongTrustDomain = ''wrong trust domain''"
| "authn_text ErrUnexpectedIdentity = ''unexpected identity''"
| "authn_text ErrInvalidAgentID = ''invalid agent id''"
| "authn_text ErrMissingServerAuth = ''certificate is missing server-auth EKU''"
| "authn_text ErrMissingClientAuth = ''certificate is missing client-auth EKU''"
| "authn_text ErrKeyNotECDSA = ''public key is not ECDSA''"
| "authn_text ErrKeyNotP256 = ''public key is not on the P-256 curve''"

primrec authz_text :: "authz_sentinel \<Rightarrow> string" where
  "authz_text ErrUnknownRole = ''unknown role''"
| "authz_text ErrActionUnauthorized = ''action unauthorized''"
| "authz_text ErrEmptyRoles = ''empty roles''"

primrec worker_text :: "worker_sentinel \<Rightarrow> string" where
  "worker_text ErrInvalidCount = ''invalid count; expected positive count below the maximum''"
| "worker_text ErrInvalidMeanInterval = ''invalid mean interval; expected positive duration''"
| "worker_text ErrJobPanic = ''job panic''"

primrec registry_text :: "registry_sentinel \<Rightarrow> string" where
  "registry_text ErrNotAcceptingJobs = ''not accepting jobs''"

primrec server_text :: "server_sentinel \<Rightarrow> string" where
  "server_text ErrEmptyAddress = ''empty address''"
| "server_text ErrShutdownGraceElapsed = ''shutdown grace elapsed''"

primrec client_text :: "client_sentinel \<Rightarrow> string" where
  "client_text ErrInvalidArgument = ''invalid argument''"
| "client_text ErrNotFound = ''not found''"
| "client_text ErrPermissionDenied = ''permission denied''"
| "client_text ErrUnauthenticated = ''unauthenticated''"
| "client_text ErrUnavailable = ''unavailable''"
| "client_text ErrCanceled = ''canceled''"
| "client_text ErrDeadlineExceeded = ''deadline exceeded''"
| "client_text ErrRPC = ''rpc failed''"
| "client_text ErrConfig = ''invalid configuration''"
| "client_text ErrUnknownStatus = ''unknown status''"

primrec fizzle_text :: "fizzle_sentinel \<Rightarrow> string" where
  "fizzle_text FizzleErrUsage = ''invalid usage''"

primrec fizzled_text :: "fizzled_sentinel \<Rightarrow> string" where
  "fizzled_text FizzledErrUsage = ''invalid usage''"
| "fizzled_text FizzledErrConfig = ''invalid configuration''"

primrec std_text :: "std_sentinel \<Rightarrow> string" where
  "std_text CtxCanceled = ''context canceled''"
| "std_text CtxDeadlineExceeded = ''context deadline exceeded''"
| "std_text FlagErrHelp = ''flag: help requested''"
| "std_text IoEOF = ''EOF''"
| "std_text NetErrClosed = ''use of closed network connection''"
| "std_text GrpcErrServerStopped = ''grpc: the server has been stopped''"

primrec sentinel_text :: "sentinel \<Rightarrow> string" where
  "sentinel_text (SSpiffeID e) = spiffeid_text e"
| "sentinel_text (SX509 e) = x509svid_text e"
| "sentinel_text (SAuthn e) = authn_text e"
| "sentinel_text (SAuthz e) = authz_text e"
| "sentinel_text (SWorker e) = worker_text e"
| "sentinel_text (SRegistry e) = registry_text e"
| "sentinel_text (SServer e) = server_text e"
| "sentinel_text (SClient e) = client_text e"
| "sentinel_text (SFizzle e) = fizzle_text e"
| "sentinel_text (SFizzled e) = fizzled_text e"
| "sentinel_text (SStd e) = std_text e"

section \<open>Errors\<close>

text \<open>The codes of \<open>google.golang.org/grpc/codes\<close> that the source names.\<close>

datatype grpc_code =
    CodeOK | CodeCanceled | CodeUnknown | CodeInvalidArgument | CodeDeadlineExceeded
  | CodeNotFound | CodeAlreadyExists | CodePermissionDenied | CodeResourceExhausted
  | CodeFailedPrecondition | CodeAborted | CodeOutOfRange | CodeUnimplemented | CodeInternal
  | CodeUnavailable | CodeDataLoss | CodeUnauthenticated

text \<open>
  \<open>Foreign t\<close> is an error value made by code that is not under \<open>src/\<close>, with message \<open>t\<close>;
  \<open>StatusErr c m\<close> is \<open>status.Error(c, m)\<close>. \<open>Wrap1 p e\<close> is \<open>Errorf("<p>%w", e)\<close> and
  \<open>Wrap2 p e f\<close> is \<open>Errorf("<p>%w: %w", e, f)\<close>, where \<open>p\<close> is the formatted prefix.
\<close>

datatype go_error =
    Sentinel sentinel
  | Foreign string
  | StatusErr grpc_code string
  | Wrap1 string go_error
  | Wrap2 string go_error go_error

type_synonym 'a result = "go_error + 'a"

text \<open>\<open>errors.Is\<close> against a sentinel.\<close>

primrec errors_is :: "go_error \<Rightarrow> sentinel \<Rightarrow> bool" where
  "errors_is (Sentinel s) t \<longleftrightarrow> s = t"
| "errors_is (Foreign m) t \<longleftrightarrow> False"
| "errors_is (StatusErr c m) t \<longleftrightarrow> False"
| "errors_is (Wrap1 p e) t \<longleftrightarrow> errors_is e t"
| "errors_is (Wrap2 p e f) t \<longleftrightarrow> errors_is e t \<or> errors_is f t"

text \<open>
  \<open>Error()\<close>: the message. How gRPC renders a status error is a parameter, since that code is not
  under \<open>src/\<close>.
\<close>

primrec error_text :: "(grpc_code \<Rightarrow> string \<Rightarrow> string) \<Rightarrow> go_error \<Rightarrow> string" where
  "error_text st (Sentinel s) = sentinel_text s"
| "error_text st (Foreign m) = m"
| "error_text st (StatusErr c m) = st c m"
| "error_text st (Wrap1 p e) = p @ error_text st e"
| "error_text st (Wrap2 p e f) = p @ error_text st e @ '': '' @ error_text st f"

text \<open>
  The pattern \<open>if err != nil { return ..., fmt.Errorf("<p>: %w", err) }\<close>: run \<open>m\<close>, wrap its
  error, go on with its value.
\<close>

definition wrapping :: "string \<Rightarrow> 'a result \<Rightarrow> ('a \<Rightarrow> 'b result) \<Rightarrow> 'b result" where
  "wrapping p m f = (case m of Inl e \<Rightarrow> Inl (Wrap1 p e) | Inr a \<Rightarrow> f a)"

text \<open>A guard: the error when the condition holds, else the rest.\<close>

definition fail_if :: "bool \<Rightarrow> go_error \<Rightarrow> 'b result \<Rightarrow> 'b result" where
  "fail_if b e k = (if b then Inl e else k)"

definition is_ok :: "'a result \<Rightarrow> bool" where
  "is_ok r \<longleftrightarrow> (case r of Inl e \<Rightarrow> False | Inr a \<Rightarrow> True)"

definition fails_with :: "'a result \<Rightarrow> sentinel \<Rightarrow> bool" where
  "fails_with r s \<longleftrightarrow> (case r of Inl e \<Rightarrow> errors_is e s | Inr a \<Rightarrow> False)"

lemma wrapping_Inr [simp, result_simps]:
  "wrapping p m f = Inr b \<longleftrightarrow> (\<exists>a. m = Inr a \<and> f a = Inr b)"
  by (auto simp: wrapping_def split: sum.split)

lemma Inr_wrapping [simp, result_simps]:
  "Inr b = wrapping p m f \<longleftrightarrow> (\<exists>a. m = Inr a \<and> f a = Inr b)"
  by (auto simp: wrapping_def split: sum.split)

lemma wrapping_of_Inr [simp, result_simps]: "wrapping p (Inr a) f = f a"
  by (simp add: wrapping_def)

lemma wrapping_of_Inl [simp, result_simps]: "wrapping p (Inl e) f = Inl (Wrap1 p e)"
  by (simp add: wrapping_def)

text \<open>A \<open>return err\<close> without a wrap.\<close>

lemma propagate_Inr [result_simps]:
  "(case m of Inl e \<Rightarrow> Inl e | Inr a \<Rightarrow> f a) = Inr b \<longleftrightarrow> (\<exists>a. m = Inr a \<and> f a = Inr b)"
  by (cases m) auto

lemma fail_if_Inr [simp, result_simps]: "fail_if b e k = Inr a \<longleftrightarrow> \<not> b \<and> k = Inr a"
  by (simp add: fail_if_def)

lemma fail_if_True [simp, result_simps]: "fail_if True e k = Inl e"
  by (simp add: fail_if_def)

lemma fail_if_False [simp, result_simps]: "fail_if False e k = k"
  by (simp add: fail_if_def)

lemma fails_with_Inl [simp, result_simps]: "fails_with (Inl e) s \<longleftrightarrow> errors_is e s"
  by (simp add: fails_with_def)

lemma fails_with_Inr [simp, result_simps]: "\<not> fails_with (Inr a) s"
  by (simp add: fails_with_def)

lemma fails_with_fail_if [result_simps]:
  "fails_with (fail_if b e k) s \<longleftrightarrow> (if b then errors_is e s else fails_with k s)"
  by (simp add: fail_if_def)

lemma fails_with_wrapping [result_simps]:
  "fails_with (wrapping p m f) s \<longleftrightarrow> fails_with m s \<or> (\<exists>a. m = Inr a \<and> fails_with (f a) s)"
  by (auto simp: wrapping_def split: sum.split)

lemma is_ok_Inl [simp, result_simps]: "\<not> is_ok (Inl e)"
  by (simp add: is_ok_def)

lemma is_ok_Inr [simp, result_simps]: "is_ok (Inr a)"
  by (simp add: is_ok_def)

lemma is_ok_conv: "is_ok r \<longleftrightarrow> (\<exists>a. r = Inr a)"
  by (cases r) simp_all

lemma fails_with_not_ok: "fails_with r s \<Longrightarrow> \<not> is_ok r"
  by (cases r) simp_all

section \<open>The structured log\<close>

text \<open>
  The records \<open>log/slog\<close> is handed: a call of \<open>LogAttrs\<close> is the list of records it emits. An
  attribute \<open>slog.String(k, err.Error())\<close> carries the error itself (\<open>AErr\<close>).
\<close>

datatype log_level = LevelInfo | LevelWarn | LevelError

datatype attr_value =
    AStr string
  | AInt int
  | ATime int
  | ADur int
  | AAny string
  | AErr go_error

type_synonym attrs = "(string \<times> attr_value) list"

record log_record =
  log_level :: log_level
  log_msg :: string
  log_attributes :: attrs

text \<open>A \<open>slog.Logger\<close>: the attributes \<open>With\<close> has bound to it, and whether its handler discards.\<close>

record logger =
  bound_attrs :: attrs
  discards :: bool

definition log_attrs :: "logger \<Rightarrow> log_level \<Rightarrow> string \<Rightarrow> attrs \<Rightarrow> log_record list" where
  "log_attrs lg lvl msg as =
     (if discards lg then []
      else [\<lparr>log_level = lvl, log_msg = msg, log_attributes = bound_attrs lg @ as\<rparr>])"

definition with_attrs :: "logger \<Rightarrow> attrs \<Rightarrow> logger" where
  "with_attrs lg as = lg\<lparr>bound_attrs := bound_attrs lg @ as\<rparr>"

definition discard_logger :: logger where
  "discard_logger = \<lparr>bound_attrs = [], discards = True\<rparr>"

text \<open>\<open>logging.OrDiscard\<close>.\<close>

definition OrDiscard :: "logger option \<Rightarrow> logger" where
  "OrDiscard lg = (case lg of None \<Rightarrow> discard_logger | Some l \<Rightarrow> l)"

lemma log_attrs_discard [simp]: "discards lg \<Longrightarrow> log_attrs lg lvl msg as = []"
  by (simp add: log_attrs_def)

lemma length_log_attrs: "length (log_attrs lg lvl msg as) \<le> 1"
  by (simp add: log_attrs_def)

end
