(* ===== verification/Transition.thy ===== *)
theory Transition
  imports Go_Prelude
begin

text \<open>
  Machines that move by events: a step function that may refuse an event, its runs over a list of
  events and the states it reaches whatever the events. A component that keeps an invariant is an
  interpretation of \<open>invariant_steps\<close>, and gets the invariant of every reachable state; one whose
  steps also relate the state before to the state after interprets \<open>evolving_steps\<close>, and one that
  implements an abstract machine \<open>refining_steps\<close>. What a machine comes to by the events of a kind, such as
  those of the goroutines it already has, is \<open>comes_to\<close>; one that is part of another is an interpretation
  of \<open>embedded_steps\<close>, and the whole comes to what the part comes to.
\<close>

fun run_events :: "('e \<Rightarrow> 's \<Rightarrow> 's option) \<Rightarrow> 'e list \<Rightarrow> 's \<Rightarrow> 's option" where
  "run_events step [] s = Some s"
| "run_events step (e # es) s = (case step e s of None \<Rightarrow> None | Some s' \<Rightarrow> run_events step es s')"

inductive reaches :: "('e \<Rightarrow> 's \<Rightarrow> 's option) \<Rightarrow> 's \<Rightarrow> 's \<Rightarrow> bool" for step s0 where
  reaches_start: "reaches step s0 s0"
| reaches_step: "reaches step s0 s \<Longrightarrow> step e s = Some s' \<Longrightarrow> reaches step s0 s'"

lemma run_events_append:
  "run_events step (es @ fs) s =
     (case run_events step es s of None \<Rightarrow> None | Some s' \<Rightarrow> run_events step fs s')"
  by (induction es arbitrary: s) (auto split: option.split)

lemma reaches_run: "reaches step s0 s \<Longrightarrow> run_events step es s = Some s' \<Longrightarrow> reaches step s0 s'"
  by (induction es arbitrary: s) (auto split: option.splits intro: reaches_step)

lemma reaches_iff_run: "reaches step s0 s \<longleftrightarrow> (\<exists>es. run_events step es s0 = Some s)"
proof
  assume "reaches step s0 s"
  then show "\<exists>es. run_events step es s0 = Some s"
  proof (induction rule: reaches.induct)
    case reaches_start
    show ?case by (rule exI [of _ "[]"]) simp
  next
    case (reaches_step s e s')
    then obtain es where "run_events step es s0 = Some s" by blast
    with reaches_step.hyps(2) have "run_events step (es @ [e]) s0 = Some s'"
      by (simp add: run_events_append)
    then show ?case by blast
  qed
qed (auto intro: reaches_run [OF reaches_start])

lemma reaches_trans: "reaches step s s' \<Longrightarrow> reaches step s0 s \<Longrightarrow> reaches step s0 s'"
  by (induction rule: reaches.induct) (auto intro: reaches_step)

locale invariant_steps =
  fixes step :: "'e \<Rightarrow> 's \<Rightarrow> 's option" and inv :: "'s \<Rightarrow> bool"
  assumes step_keeps: "inv s \<Longrightarrow> step e s = Some s' \<Longrightarrow> inv s'"
begin

lemma reaches_keeps: "reaches step s0 s \<Longrightarrow> inv s0 \<Longrightarrow> inv s"
  by (induction rule: reaches.induct) (auto dest: step_keeps)

lemma run_keeps: "run_events step es s0 = Some s \<Longrightarrow> inv s0 \<Longrightarrow> inv s"
  using reaches_keeps reaches_iff_run by metis

end

locale evolving_steps = invariant_steps step inv
  for step :: "'e \<Rightarrow> 's \<Rightarrow> 's option" and inv :: "'s \<Rightarrow> bool" +
  fixes rel :: "'s \<Rightarrow> 's \<Rightarrow> bool"
  assumes rel_refl: "rel s s"
    and rel_trans: "rel s t \<Longrightarrow> rel t u \<Longrightarrow> rel s u"
    and step_rel: "inv s \<Longrightarrow> step e s = Some s' \<Longrightarrow> rel s s'"
begin

lemma reaches_rel:
  assumes "reaches step s0 s" and "inv s0"
  shows "rel s0 s"
  using assms(1)
proof (induction rule: reaches.induct)
  case reaches_start
  show ?case by (rule rel_refl)
next
  case (reaches_step s e s')
  then show ?case using rel_trans step_rel reaches_keeps [OF _ assms(2)] by blast
qed

end

text \<open>
  A machine that implements an abstract one: seen through \<open>abs\<close>, a step either changes nothing or is a
  step of \<open>spec\<close>. Then every run of the machine is a run of the specification.
\<close>

locale refining_steps = invariant_steps step inv
  for step :: "'e \<Rightarrow> 's \<Rightarrow> 's option" and inv :: "'s \<Rightarrow> bool" +
  fixes abs :: "'s \<Rightarrow> 'a" and spec :: "'a \<Rightarrow> 'a \<Rightarrow> bool"
  assumes step_refines: "inv s \<Longrightarrow> step e s = Some s' \<Longrightarrow> spec\<^sup>=\<^sup>= (abs s) (abs s')"
begin

lemma reaches_refines:
  assumes "reaches step s0 s" and "inv s0"
  shows "spec\<^sup>*\<^sup>* (abs s0) (abs s)"
  using assms(1)
proof (induction rule: reaches.induct)
  case (reaches_step s e s')
  with step_refines [OF reaches_keeps [OF reaches_step.hyps(1) assms(2)] reaches_step.hyps(2)]
  show ?case by (auto intro: rtranclp.rtrancl_into_rtrancl)
qed simp

end

text \<open>The states a machine can come to by events of its own.\<close>

definition comes_to :: "('e \<Rightarrow> 's \<Rightarrow> 's option) \<Rightarrow> ('e \<Rightarrow> bool) \<Rightarrow> 's \<Rightarrow> 's \<Rightarrow> bool" where
  "comes_to step own s t \<longleftrightarrow> (\<exists>es. run_events step es s = Some t \<and> list_all own es)"

lemma comes_refl [simp]: "comes_to step own s s"
  unfolding comes_to_def by (rule exI [of _ "[]"]) simp

lemma comes_step: "step e s = Some t \<Longrightarrow> own e \<Longrightarrow> comes_to step own s t"
  unfolding comes_to_def by (rule exI [of _ "[e]"]) simp

lemma comes_trans:
  assumes "comes_to step own s t" and "comes_to step own t u"
  shows "comes_to step own s u"
proof -
  obtain es fs where "run_events step es s = Some t" "list_all own es"
    "run_events step fs t = Some u" "list_all own fs"
    using assms unfolding comes_to_def by blast
  then show ?thesis unfolding comes_to_def by (intro exI [of _ "es @ fs"]) (simp add: run_events_append)
qed

lemma comes_reaches: "comes_to step own s t \<Longrightarrow> reaches step s t"
  unfolding comes_to_def using reaches_iff_run by metis

text \<open>
  A machine that is part of another: \<open>get\<close> is the part and \<open>put\<close> replaces it, a state that can move is
  \<open>ok\<close>, and each of its own steps to a state that is \<open>ok\<close> is a step of the whole of the whole's own.
\<close>

locale embedded_steps =
  fixes step :: "'e \<Rightarrow> 's \<Rightarrow> 's option" and own :: "'e \<Rightarrow> bool"
    and step' :: "'f \<Rightarrow> 't \<Rightarrow> 't option" and own' :: "'f \<Rightarrow> bool"
    and ok :: "'s \<Rightarrow> bool" and fits :: "'t \<Rightarrow> bool"
    and get :: "'t \<Rightarrow> 's" and put :: "'s \<Rightarrow> 't \<Rightarrow> 't"
  assumes get_put: "fits w \<Longrightarrow> get (put s w) = s"
    and put_put: "put t (put s w) = put t w"
    and put_get: "put (get w) w = w"
    and step_ok: "step e s = Some t \<Longrightarrow> ok s"
    and step_lifts: "fits w \<Longrightarrow> step e (get w) = Some t \<Longrightarrow> own e \<Longrightarrow> ok t
      \<Longrightarrow> fits (put t w) \<and> (\<exists>f. own' f \<and> step' f w = Some (put t w))"
begin

lemma run_lifts:
  "run_events step es (get w) = Some t \<Longrightarrow> list_all own es \<Longrightarrow> fits w \<Longrightarrow> ok t
    \<Longrightarrow> comes_to step' own' w (put t w) \<and> fits (put t w)"
proof (induction es arbitrary: w)
  case Nil
  then show ?case using put_get [of w] by simp
next
  case (Cons e es)
  then obtain s where s: "step e (get w) = Some s" "run_events step es s = Some t"
    by (auto split: option.splits)
  have "ok s" using s(2) Cons.prems(4) step_ok by (cases es) (auto split: option.splits)
  with step_lifts [OF Cons.prems(3) s(1)] Cons.prems(2) obtain f where
    f: "fits (put s w)" "own' f" "step' f w = Some (put s w)" by auto
  have "comes_to step' own' (put s w) (put t w) \<and> fits (put t w)"
    using Cons.IH [of "put s w"] s(2) f(1) Cons.prems by (simp add: get_put put_put)
  with f(2,3) show ?case by (blast intro: comes_step comes_trans)
qed

lemma comes_lifts:
  assumes "comes_to step own (get w) t" and "fits w" and "ok t"
  shows "comes_to step' own' w (put t w)" and "fits (put t w)"
  using assms run_lifts unfolding comes_to_def by blast+

end

end
