(* ===== verification/Worker_Job.thy ===== *)
theory Worker_Job
  imports Complex_Main Go_Errors Transition
begin

text \<open>
  The package \<open>internal/worker\<close>, one job at a time: ticks, statuses, the operations on a \<open>Job\<close> that
  run under its mutex, the countdown goroutine, the iterator \<open>Ticks\<close> and \<open>Stop\<close>.

  A critical section is one function on the job. A channel is a number; \<open>job_closed\<close> lists the
  \<open>changed\<close> channels closed so far, and closing one twice panics. The countdown, every reader and
  every \<open>Stop\<close> call is a small machine whose program counter names the place in the source; an
  event says what happens next (the timer fires, the context is done, code outside \<open>src/\<close> panics),
  so that the interleavings are the sequences of events. Instants and durations are integers of
  nanoseconds, a \<open>float64\<close> is the rational it stands for and its arithmetic is exact.
\<close>

section \<open>Statuses and ticks\<close>

type_synonym job_id = string

datatype job_status = StatusRunning | StatusCompleted | StatusStopped | StatusFailed

primrec status_text :: "job_status \<Rightarrow> string" where
  "status_text StatusRunning = ''RUNNING''"
| "status_text StatusCompleted = ''COMPLETED''"
| "status_text StatusStopped = ''STOPPED''"
| "status_text StatusFailed = ''FAILED''"

text \<open>The three implementations of the sealed interface \<open>Tick\<close>.\<close>

datatype tick =
    Progress (tick_elapsed: int) (tick_remaining: int)
  | Stopped (tick_cause: go_error)
  | PanicError (tick_err: "go_error option")

primrec IsTerminal :: "tick \<Rightarrow> bool" where
  "IsTerminal (Progress e r) \<longleftrightarrow> r = 0"
| "IsTerminal (Stopped c) \<longleftrightarrow> True"
| "IsTerminal (PanicError e) \<longleftrightarrow> True"

text \<open>\<open>PanicError.Error\<close>.\<close>

definition panic_text :: "(grpc_code \<Rightarrow> string \<Rightarrow> string) \<Rightarrow> go_error option \<Rightarrow> string" where
  "panic_text st e =
     (case e of None \<Rightarrow> ''job failure without an error''
      | Some err \<Rightarrow> ''job failure: '' @ error_text st err)"

text \<open>A \<open>PanicError\<close> as an error: its text, and what it unwraps to.\<close>

definition panic_error :: "go_error option \<Rightarrow> go_error" where [simp]:
  "panic_error e =
     (case e of None \<Rightarrow> Foreign ''job failure without an error'' | Some err \<Rightarrow> Wrap1 ''job failure: '' err)"

lemma panic_error_text: "error_text st (panic_error e) = panic_text st e"
  by (simp add: panic_text_def split: option.split)

section \<open>The job\<close>

text \<open>
  \<open>job_ctx\<close> is \<open>ctx.Err()\<close> of the job's own context, \<open>job_finished\<close> whether the channel \<open>finished\<close>
  is closed.
\<close>

record job =
  job_ID :: job_id
  job_status :: job_status
  job_ticks :: "tick list"
  job_meanTickInterval :: int
  job_ctx :: "std_sentinel option"
  job_changed :: nat
  job_closed :: "nat list"
  job_finished :: bool
  job_logger :: logger

definition MaxCount :: int where "MaxCount = 100"
definition MeanTickInterval :: int where "MeanTickInterval = 1000000000"

text \<open>The value of a panic: an error, or any other value by its rendering with \<open>%v\<close>.\<close>

datatype panic_value = PanicErr go_error | PanicVal string

datatype 'a outcome = Returned 'a | Panicked panic_value

definition close_of_closed :: panic_value where
  "close_of_closed = PanicErr (Foreign ''close of closed channel'')"

text \<open>\<open>close(j.changed)\<close>.\<close>

definition close_changed :: "job \<Rightarrow> job \<times> unit outcome" where
  "close_changed j =
     (if job_changed j \<in> set (job_closed j) then (j, Panicked close_of_closed)
      else (j\<lparr>job_closed := job_changed j # job_closed j\<rparr>, Returned ()))"

definition reportProgress :: "tick \<Rightarrow> job \<Rightarrow> job \<times> unit outcome" where
  "reportProgress t j =
     (if job_status j = StatusRunning then
        (let j1 = j\<lparr>job_ticks := job_ticks j @ [t]\<rparr>
         in case close_changed j1 of
              (j2, Panicked v) \<Rightarrow> (j2, Panicked v)
            | (j2, Returned _) \<Rightarrow> (j2\<lparr>job_changed := Suc (job_changed j2)\<rparr>, Returned ()))
      else (j, Returned ()))"

definition setTerminal :: "job_status \<Rightarrow> tick \<Rightarrow> job \<Rightarrow> job \<times> bool outcome" where
  "setTerminal terminalStatus lastTick j =
     (if job_status j \<noteq> StatusRunning then (j, Returned False)
      else
        (let j1 = j\<lparr>job_status := terminalStatus, job_ticks := job_ticks j @ [lastTick]\<rparr>
         in case close_changed j1 of
              (j2, Panicked v) \<Rightarrow> (j2, Panicked v)
            | (j2, Returned _) \<Rightarrow> (j2, Returned True)))"

definition auditTransition :: "job \<Rightarrow> job_status \<Rightarrow> tick \<Rightarrow> log_record list" where
  "auditTransition j terminalStatus lastTick =
     log_attrs (job_logger j)
       (if terminalStatus = StatusFailed then LevelError else LevelInfo)
       ''job finished''
       ([(''job_id'', AStr (job_ID j)), (''status'', AStr (status_text terminalStatus))]
        @ (case lastTick of
             PanicError e \<Rightarrow> [(''error'', AErr (panic_error e))]
           | _ \<Rightarrow> []))"

text \<open>The job's cancel function: the first cancellation fixes \<open>ctx.Err()\<close>.\<close>

definition cancel_with :: "std_sentinel \<Rightarrow> job \<Rightarrow> job" where
  "cancel_with why j = (case job_ctx j of None \<Rightarrow> j\<lparr>job_ctx := Some why\<rparr> | Some _ \<Rightarrow> j)"

definition Status :: "job \<Rightarrow> job_status" where "Status j = job_status j"

definition Job_ID :: "job \<Rightarrow> job_id" where [simp]: "Job_ID j = job_ID j"

text \<open>The panic the deferred function of \<open>countdown\<close> turns into the last tick.\<close>

primrec recovered_tick :: "panic_value \<Rightarrow> tick" where
  "recovered_tick (PanicErr e) = PanicError (Some (Wrap2 '''' e (Sentinel (SWorker ErrJobPanic))))"
| "recovered_tick (PanicVal s) = PanicError (Some (Wrap1 (s @ '': '') (Sentinel (SWorker ErrJobPanic))))"

section \<open>The countdown goroutine\<close>

text \<open>
  Where the goroutine is: before its first report; at the head of the loop with \<open>currentCount\<close>; in
  the select, until the instant the timer fires; about to report or to finish; about to audit; with a
  recovered panic; in its deferred calls; done. \<open>True\<close> in \<open>CFinish\<close> and \<open>CAudit\<close> means that the
  deferred recovery is finishing the job: a panic there ends the process (\<open>CCrashed\<close>).
\<close>

datatype cpc =
    CStart
  | CLoop int
  | CSelect int int
  | CReport tick int
  | CFinish job_status tick bool
  | CAudit job_status tick bool
  | CRecover panic_value
  | CCloseFinished
  | CCancel
  | CDone
  | CCrashed

record countdown =
  cd_job :: job
  cd_count :: int
  cd_pc :: cpc
  cd_startedAt :: int
  cd_now :: int
  cd_log :: "log_record list"

text \<open>
  The interval of a tick: an exponential sample clipped at its 99.99th percentile, times the mean,
  truncated to a duration.
\<close>

definition clippedAt :: rat where "clippedAt = 921034 / 100000"

definition tickInterval :: "int \<Rightarrow> rat \<Rightarrow> int" where
  "tickInterval mean sample = \<lfloor>min sample clippedAt * of_int mean\<rfloor>"

datatype cevent =
    EvTime int               \<comment> \<open>the clock reads a later instant\<close>
  | EvParentDone std_sentinel \<comment> \<open>the context the job was created under ends\<close>
  | EvReport
  | EvDraw rat               \<comment> \<open>\<open>rand.ExpFloat64\<close> returns the sample\<close>
  | EvTimer
  | EvCancelled
  | EvFinish
  | EvAudit
  | EvPanic panic_value      \<comment> \<open>a call outside \<open>src/\<close> panics\<close>
  | EvRecover
  | EvCloseFinished
  | EvDeferCancel

text \<open>A panic unwinds to the deferred recovery, or past it.\<close>

definition unwind :: "bool \<Rightarrow> panic_value \<Rightarrow> cpc" where
  "unwind recovering v = (if recovering then CCrashed else CRecover v)"

text \<open>\<open>finish\<close>: the transition, and for the call that has made it the audit, as the next step.\<close>

definition finish :: "bool \<Rightarrow> job_status \<Rightarrow> tick \<Rightarrow> job \<Rightarrow> job \<times> cpc" where [simp]:
  "finish recovering terminalStatus lastTick j =
     (case setTerminal terminalStatus lastTick j of
        (j', Returned True) \<Rightarrow> (j', CAudit terminalStatus lastTick recovering)
      | (j', Returned False) \<Rightarrow> (j', CCloseFinished)
      | (j', Panicked v) \<Rightarrow> (j', unwind recovering v))"

fun countdown_step :: "cevent \<Rightarrow> countdown \<Rightarrow> countdown option" where
  "countdown_step (EvTime t) s = (if cd_now s \<le> t then Some (s\<lparr>cd_now := t\<rparr>) else None)"
| "countdown_step (EvParentDone why) s = Some (s\<lparr>cd_job := cancel_with why (cd_job s)\<rparr>)"
| "countdown_step EvReport s =
     (case cd_pc s of
        CStart \<Rightarrow>
          (case reportProgress (Progress 0 (cd_count s)) (cd_job s) of
             (j, Returned _) \<Rightarrow>
               Some (s\<lparr>cd_job := j, cd_startedAt := cd_now s, cd_pc := CLoop (cd_count s - 1)\<rparr>)
           | (j, Panicked v) \<Rightarrow> Some (s\<lparr>cd_job := j, cd_pc := CRecover v\<rparr>))
      | CReport t n \<Rightarrow>
          (case reportProgress t (cd_job s) of
             (j, Returned _) \<Rightarrow> Some (s\<lparr>cd_job := j, cd_pc := CLoop (n - 1)\<rparr>)
           | (j, Panicked v) \<Rightarrow> Some (s\<lparr>cd_job := j, cd_pc := CRecover v\<rparr>))
      | _ \<Rightarrow> None)"
| "countdown_step (EvDraw sample) s =
     (case cd_pc s of
        CLoop n \<Rightarrow>
          if n \<ge> 0 then
            (if sample \<ge> 0
             then Some (s\<lparr>cd_pc := CSelect n (cd_now s
                     + tickInterval (job_meanTickInterval (cd_job s)) sample)\<rparr>)
             else None)
          else Some (s\<lparr>cd_pc := CCloseFinished\<rparr>)
      | _ \<Rightarrow> None)"
| "countdown_step EvTimer s =
     (case cd_pc s of
        CSelect n deadline \<Rightarrow>
          if deadline \<le> cd_now s then
            (let t = Progress (cd_now s - cd_startedAt s) n
             in Some (s\<lparr>cd_pc := (if IsTerminal t then CFinish StatusCompleted t False else CReport t n)\<rparr>))
          else None
      | _ \<Rightarrow> None)"
| "countdown_step EvCancelled s =
     (case cd_pc s of
        CSelect n deadline \<Rightarrow>
          (case job_ctx (cd_job s) of
             None \<Rightarrow> None
           | Some why \<Rightarrow> Some (s\<lparr>cd_pc := CFinish StatusStopped (Stopped (Sentinel (SStd why))) False\<rparr>))
      | _ \<Rightarrow> None)"
| "countdown_step EvFinish s =
     (case cd_pc s of
        CFinish st t recovering \<Rightarrow>
          (case finish recovering st t (cd_job s) of
             (j, pc) \<Rightarrow> Some (s\<lparr>cd_job := j, cd_pc := pc\<rparr>))
      | _ \<Rightarrow> None)"
| "countdown_step EvAudit s =
     (case cd_pc s of
        CAudit st t recovering \<Rightarrow>
          Some (s\<lparr>cd_log := cd_log s @ auditTransition (cd_job s) st t, cd_pc := CCloseFinished\<rparr>)
      | _ \<Rightarrow> None)"
| "countdown_step (EvPanic v) s =
     (case cd_pc s of
        CLoop n \<Rightarrow> Some (s\<lparr>cd_pc := CRecover v\<rparr>)
      | CSelect n deadline \<Rightarrow> Some (s\<lparr>cd_pc := CRecover v\<rparr>)
      | CAudit st t recovering \<Rightarrow> Some (s\<lparr>cd_pc := unwind recovering v\<rparr>)
      | _ \<Rightarrow> None)"
| "countdown_step EvRecover s =
     (case cd_pc s of
        CRecover v \<Rightarrow> Some (s\<lparr>cd_pc := CFinish StatusFailed (recovered_tick v) True\<rparr>)
      | _ \<Rightarrow> None)"
| "countdown_step EvCloseFinished s =
     (case cd_pc s of
        CCloseFinished \<Rightarrow> Some (s\<lparr>cd_job := (cd_job s)\<lparr>job_finished := True\<rparr>, cd_pc := CCancel\<rparr>)
      | _ \<Rightarrow> None)"
| "countdown_step EvDeferCancel s =
     (case cd_pc s of
        CCancel \<Rightarrow> Some (s\<lparr>cd_job := cancel_with CtxCanceled (cd_job s), cd_pc := CDone\<rparr>)
      | _ \<Rightarrow> None)"

section \<open>The iterator\<close>

text \<open>Why an iteration ended: the caller left the range, a terminal tick was yielded, its context.\<close>

datatype done_reason = ByCaller | ByTerminal | ByContext

text \<open>
  A reader holds its cursor. \<open>RBatch lo i hi wait\<close> ranges over the snapshot \<open>j.ticks[lo:hi]\<close>, at
  index \<open>i\<close>: a slice shares its array with the job, so the element is read from the job then.
\<close>

datatype rpc = RLock | RBatch nat nat nat nat | RSelect nat | RDone done_reason

record reader =
  rd_pc :: rpc
  rd_cursor :: nat
  rd_delivered :: "tick list"
  rd_ctxDone :: bool

definition new_reader :: reader where
  "new_reader = \<lparr>rd_pc = RLock, rd_cursor = 0, rd_delivered = [], rd_ctxDone = False\<rparr>"

datatype revent =
    RdSnapshot
  | RdYield bool             \<comment> \<open>yield the next tick; the range asks for more, or not\<close>
  | RdBatchEnd
  | RdWake
  | RdCtxDone
  | RdCancelled              \<comment> \<open>the reader's own context ends\<close>

fun reader_step :: "revent \<Rightarrow> job \<Rightarrow> reader \<Rightarrow> reader option" where
  "reader_step RdSnapshot j r =
     (case rd_pc r of
        RLock \<Rightarrow>
          Some (r\<lparr>rd_pc := RBatch (rd_cursor r) (rd_cursor r) (length (job_ticks j)) (job_changed j),
                  rd_cursor := length (job_ticks j)\<rparr>)
      | _ \<Rightarrow> None)"
| "reader_step (RdYield wantsMore) j r =
     (case rd_pc r of
        RBatch lo i hi wait \<Rightarrow>
          if i < hi then
            (let t = job_ticks j ! i
             in Some (r\<lparr>rd_delivered := rd_delivered r @ [t],
                        rd_pc := (if \<not> wantsMore then RDone ByCaller
                                  else if IsTerminal t then RDone ByTerminal
                                  else RBatch lo (Suc i) hi wait)\<rparr>))
          else None
      | _ \<Rightarrow> None)"
| "reader_step RdBatchEnd j r =
     (case rd_pc r of
        RBatch lo i hi wait \<Rightarrow>
          if i < hi then None
          else Some (r\<lparr>rd_pc := (if lo < hi then RLock else RSelect wait)\<rparr>)
      | _ \<Rightarrow> None)"
| "reader_step RdWake j r =
     (case rd_pc r of
        RSelect wait \<Rightarrow> if wait \<in> set (job_closed j) then Some (r\<lparr>rd_pc := RLock\<rparr>) else None
      | _ \<Rightarrow> None)"
| "reader_step RdCtxDone j r =
     (case rd_pc r of
        RSelect wait \<Rightarrow> if rd_ctxDone r then Some (r\<lparr>rd_pc := RDone ByContext\<rparr>) else None
      | _ \<Rightarrow> None)"
| "reader_step RdCancelled j r = Some (r\<lparr>rd_ctxDone := True\<rparr>)"

section \<open>Stop\<close>

datatype stop_pc = StopWaiting | StopReading | StopReturned job_status

text \<open>\<open>j.cancel()\<close> is the first step of a call; the other two wait for \<open>finished\<close> and read the status.\<close>

definition stop_step :: "job \<Rightarrow> stop_pc \<Rightarrow> stop_pc option" where
  "stop_step j pc =
     (case pc of
        StopWaiting \<Rightarrow> if job_finished j then Some StopReading else None
      | StopReading \<Rightarrow> Some (StopReturned (Status j))
      | StopReturned st \<Rightarrow> None)"

section \<open>A job with its readers and callers\<close>

record job_sys =
  js_countdown :: countdown
  js_readers :: "nat \<Rightarrow> reader option"
  js_stops :: "nat \<Rightarrow> stop_pc option"

abbreviation js_job :: "job_sys \<Rightarrow> job" where
  "js_job s \<equiv> cd_job (js_countdown s)"

datatype job_event =
    Worker cevent
  | OpenReader nat
  | Reader nat revent
  | CallStop nat
  | StepStop nat

text \<open>Nothing runs in a process that has crashed.\<close>

fun live_step :: "job_event \<Rightarrow> job_sys \<Rightarrow> job_sys option" where
  "live_step (Worker e) s =
     map_option (\<lambda>c. s\<lparr>js_countdown := c\<rparr>) (countdown_step e (js_countdown s))"
| "live_step (OpenReader i) s =
     (case js_readers s i of
        None \<Rightarrow> Some (s\<lparr>js_readers := (js_readers s)(i \<mapsto> new_reader)\<rparr>)
      | Some r \<Rightarrow> None)"
| "live_step (Reader i e) s =
     (case js_readers s i of
        None \<Rightarrow> None
      | Some r \<Rightarrow>
          map_option (\<lambda>r'. s\<lparr>js_readers := (js_readers s)(i \<mapsto> r')\<rparr>) (reader_step e (js_job s) r))"
| "live_step (CallStop i) s =
     (case js_stops s i of
        None \<Rightarrow>
          Some (s\<lparr>js_countdown := (js_countdown s)\<lparr>cd_job := cancel_with CtxCanceled (js_job s)\<rparr>,
                  js_stops := (js_stops s)(i \<mapsto> StopWaiting)\<rparr>)
      | Some pc \<Rightarrow> None)"
| "live_step (StepStop i) s =
     (case js_stops s i of
        None \<Rightarrow> None
      | Some pc \<Rightarrow>
          map_option (\<lambda>pc'. s\<lparr>js_stops := (js_stops s)(i \<mapsto> pc')\<rparr>) (stop_step (js_job s) pc))"

definition job_step :: "job_event \<Rightarrow> job_sys \<Rightarrow> job_sys option" where
  "job_step e s = (if cd_pc (js_countdown s) = CCrashed then None else live_step e s)"

text \<open>The states a job can be in, whatever the scheduler and its environment do.\<close>

abbreviation job_reaches :: "job_sys \<Rightarrow> job_sys \<Rightarrow> bool" where
  "job_reaches \<equiv> reaches job_step"

abbreviation job_run :: "job_event list \<Rightarrow> job_sys \<Rightarrow> job_sys option" where
  "job_run \<equiv> run_events job_step"

section \<open>Starting a job\<close>

text \<open>
  \<open>NewJob\<close> under a parent context whose \<open>Err()\<close> is given, at the instant \<open>now\<close>: the job, and its
  countdown goroutine about to run.
\<close>

definition NewJob :: "std_sentinel option \<Rightarrow> int \<Rightarrow> job_id \<Rightarrow> int \<Rightarrow> int \<Rightarrow> logger option
    \<Rightarrow> job_sys result" where
  "NewJob ctxErr now jobID count mean lg =
     fail_if (count \<le> 0 \<or> count > MaxCount)
       (Wrap1 (''new-job [count '' @ show_int count @ '']: '') (Sentinel (SWorker ErrInvalidCount)))
     (fail_if (mean \<le> 0)
       (Wrap1 (''new-job [mean interval '' @ show_duration mean @ '']: '')
          (Sentinel (SWorker ErrInvalidMeanInterval)))
     (Inr \<lparr>js_countdown =
            \<lparr>cd_job =
               \<lparr>job_ID = jobID,
                job_status = StatusRunning,
                job_ticks = [],
                job_meanTickInterval = mean,
                job_ctx = ctxErr,
                job_changed = 0,
                job_closed = [],
                job_finished = False,
                job_logger = OrDiscard lg\<rparr>,
             cd_count = count,
             cd_pc = CStart,
             cd_startedAt = 0,
             cd_now = now,
             cd_log = []\<rparr>,
           js_readers = Map.empty,
           js_stops = Map.empty\<rparr>))"

end
