(* ===== verification/Worker_Inv.thy ===== *)
theory Worker_Inv
  imports Worker_Job
begin

text \<open>
  The invariant of a job and its proof: what the countdown keeps at every program counter, what a
  reader and a \<open>Stop\<close> call keep of a job that moves on under them, and that every reachable state of
  a job started by \<open>NewJob\<close> satisfies all of it.
\<close>

section \<open>The shape of the tick buffer\<close>

text \<open>The first ticks of a countdown from \<open>n\<close>: one progress per count, elapsed times in order.\<close>

definition progress_run :: "int \<Rightarrow> tick list \<Rightarrow> bool" where
  "progress_run n ts \<longleftrightarrow>
     (\<forall>i<length ts. \<exists>e. ts ! i = Progress e (n - int i))
     \<and> sorted (map tick_elapsed ts) \<and> (ts \<noteq> [] \<longrightarrow> tick_elapsed (hd ts) = 0)"

text \<open>The last tick matches the status.\<close>

fun ends_with :: "job_status \<Rightarrow> tick \<Rightarrow> bool" where
  "ends_with StatusCompleted (Progress e r) \<longleftrightarrow> r = 0"
| "ends_with StatusStopped (Stopped c) \<longleftrightarrow> (\<exists>why. c = Sentinel (SStd why))"
| "ends_with StatusFailed (PanicError (Some e)) \<longleftrightarrow> errors_is e (SWorker ErrJobPanic)"
| "ends_with st t \<longleftrightarrow> False"

definition job_inv :: "int \<Rightarrow> job \<Rightarrow> bool" where
  "job_inv n j \<longleftrightarrow>
     (if job_status j = StatusRunning
      then progress_run n (job_ticks j) \<and> int (length (job_ticks j)) \<le> n
         \<and> set (job_closed j) = {..<job_changed j}
      else (\<exists>ts t. job_ticks j = ts @ [t] \<and> progress_run n ts \<and> int (length ts) \<le> n
         \<and> ends_with (job_status j) t
         \<and> (job_status j = StatusCompleted \<longrightarrow> int (length ts) = n \<and> progress_run n (job_ticks j))
         \<and> (job_status j = StatusStopped \<longrightarrow> (\<exists>why. job_ctx j = Some why \<and> t = Stopped (Sentinel (SStd why))))
         \<and> set (job_closed j) = {..job_changed j}))"

lemma progress_run_Nil [simp]: "progress_run n []"
  by (simp add: progress_run_def)

lemma progress_run_snoc:
  assumes "progress_run n ts" and "ts \<noteq> [] \<Longrightarrow> tick_elapsed (last ts) \<le> e"
    and "ts = [] \<Longrightarrow> e = 0" and "r = n - int (length ts)"
  shows "progress_run n (ts @ [Progress e r])"
proof -
  have "\<forall>t\<in>set ts. tick_elapsed t \<le> e"
  proof
    fix t assume t: "t \<in> set ts"
    then have "ts \<noteq> []" by auto
    then have "ts = butlast ts @ [last ts]" by simp
    moreover from assms(1) have "sorted (map tick_elapsed ts)" by (simp add: progress_run_def)
    ultimately have "\<forall>u\<in>set (butlast ts). tick_elapsed u \<le> tick_elapsed (last ts)"
      by (metis (no_types, lifting) list.set_intros(1) map_append list.simps(9) sorted_append
          imageI image_set)
    with t \<open>ts = butlast ts @ [last ts]\<close> have "tick_elapsed t \<le> tick_elapsed (last ts)"
      by (metis Un_iff empty_iff empty_set list.simps(15) insert_iff order_refl set_append)
    with assms(2) \<open>ts \<noteq> []\<close> show "tick_elapsed t \<le> e" by fastforce
  qed
  moreover have "tick_elapsed (hd (ts @ [Progress e r])) = 0"
    using assms by (cases ts) (auto simp: progress_run_def)
  moreover have "\<exists>e'. (ts @ [Progress e r]) ! i = Progress e' (n - int i)" if "i < Suc (length ts)" for i
    using that assms(1,4) by (cases "i = length ts") (auto simp: progress_run_def nth_append)
  ultimately show ?thesis
    using assms(1) by (simp add: progress_run_def sorted_append)
qed

lemma progress_run_not_terminal:
  assumes "progress_run n ts" and "int (length ts) \<le> n" and "t \<in> set ts"
  shows "\<not> IsTerminal t"
proof -
  obtain i where i: "i < length ts" "t = ts ! i" using assms(3) by (metis in_set_conv_nth)
  with assms(1) obtain e where "t = Progress e (n - int i)" unfolding progress_run_def by metis
  moreover have "n - int i \<noteq> 0" using i(1) assms(2) by linarith
  ultimately show ?thesis by simp
qed

lemma ends_with_terminal: "ends_with st t \<Longrightarrow> IsTerminal t \<and> st \<noteq> StatusRunning"
  by (cases "(st, t)" rule: ends_with.cases) auto

text \<open>A terminal tick is the last one, and only there once the status is terminal.\<close>

lemma job_inv_terminal_index:
  assumes "job_inv n j" and "i < length (job_ticks j)" and "IsTerminal (job_ticks j ! i)"
  shows "job_status j \<noteq> StatusRunning \<and> Suc i = length (job_ticks j)"
proof (cases "job_status j = StatusRunning")
  case True
  with assms show ?thesis
    using progress_run_not_terminal nth_mem unfolding job_inv_def by fastforce
next
  case False
  with assms(1) obtain ts t where t: "job_ticks j = ts @ [t]" "progress_run n ts" "int (length ts) \<le> n"
    unfolding job_inv_def by auto
  have "\<not> i < length ts"
    using progress_run_not_terminal [OF t(2,3)] assms(3) t(1) by (auto simp: nth_append)
  with False t(1) assms(2) show ?thesis by simp
qed

lemma job_inv_last_terminal:
  assumes "job_inv n j" and "job_status j \<noteq> StatusRunning"
  shows "job_ticks j \<noteq> [] \<and> IsTerminal (last (job_ticks j)) \<and> ends_with (job_status j) (last (job_ticks j))"
  using assms ends_with_terminal unfolding job_inv_def by auto

lemma job_inv_length:
  assumes "job_inv n j"
  shows "int (length (job_ticks j)) \<le> n + 1"
  using assms unfolding job_inv_def by (auto split: if_splits)

section \<open>Critical sections\<close>

text \<open>While the job runs, its current channel is open, so no critical section panics.\<close>

lemma job_inv_open:
  "job_inv n j \<Longrightarrow> job_status j = StatusRunning \<Longrightarrow> job_changed j \<notin> set (job_closed j)"
  by (simp add: job_inv_def)

lemma reportProgress_running:
  assumes "job_status j = StatusRunning" and "job_changed j \<notin> set (job_closed j)"
  shows "reportProgress t j =
    (j\<lparr>job_ticks := job_ticks j @ [t], job_closed := job_changed j # job_closed j,
       job_changed := Suc (job_changed j)\<rparr>, Returned ())"
  using assms by (simp add: reportProgress_def close_changed_def)

lemma setTerminal_running:
  assumes "job_status j = StatusRunning" and "job_changed j \<notin> set (job_closed j)"
  shows "setTerminal st t j =
    (j\<lparr>job_status := st, job_ticks := job_ticks j @ [t], job_closed := job_changed j # job_closed j\<rparr>,
     Returned True)"
  using assms by (simp add: setTerminal_def close_changed_def)

lemma setTerminal_finished:
  "job_status j \<noteq> StatusRunning \<Longrightarrow> setTerminal st t j = (j, Returned False)"
  by (simp add: setTerminal_def)

lemma reportProgress_finished:
  "job_status j \<noteq> StatusRunning \<Longrightarrow> reportProgress t j = (j, Returned ())"
  by (simp add: reportProgress_def)

lemma cancel_with_fields [simp]:
  "job_status (cancel_with w j) = job_status j" "job_ticks (cancel_with w j) = job_ticks j"
  "job_changed (cancel_with w j) = job_changed j" "job_closed (cancel_with w j) = job_closed j"
  "job_finished (cancel_with w j) = job_finished j" "job_ID (cancel_with w j) = job_ID j"
  "job_logger (cancel_with w j) = job_logger j" "job_ctx (cancel_with w j) \<noteq> None"
  "job_ctx j = Some v \<Longrightarrow> job_ctx (cancel_with w j) = Some v"
  "job_meanTickInterval (cancel_with w j) = job_meanTickInterval j"
  by (auto simp: cancel_with_def split: option.split)

lemma job_inv_cancel: "job_inv n j \<Longrightarrow> job_inv n (cancel_with w j)"
  by (auto simp: job_inv_def split: if_splits)

lemma job_inv_report:
  assumes "job_inv n j" and "job_status j = StatusRunning" and "progress_run n (job_ticks j @ [t])"
    and "int (length (job_ticks j)) < n"
  shows "job_inv n (fst (reportProgress t j))"
proof -
  have "set (job_closed j) = {..<job_changed j}" using assms(1,2) by (simp add: job_inv_def)
  then show ?thesis
    using assms(2-4) job_inv_open [OF assms(1,2)]
    by (simp add: reportProgress_running job_inv_def lessThan_Suc)
qed

lemma job_inv_setTerminal:
  assumes "job_inv n j" and "job_status j = StatusRunning" and "ends_with st t"
    and "st = StatusCompleted \<Longrightarrow> int (length (job_ticks j)) = n \<and> progress_run n (job_ticks j @ [t])"
    and "st = StatusStopped \<Longrightarrow> \<exists>why. job_ctx j = Some why \<and> t = Stopped (Sentinel (SStd why))"
  shows "job_inv n (fst (setTerminal st t j))"
proof -
  let ?j = "fst (setTerminal st t j)"
  have j: "?j = j\<lparr>job_status := st, job_ticks := job_ticks j @ [t],
      job_closed := job_changed j # job_closed j\<rparr>"
    using setTerminal_running [OF assms(2) job_inv_open [OF assms(1,2)]] by simp
  have r: "progress_run n (job_ticks j)" "int (length (job_ticks j)) \<le> n"
    "set (job_closed j) = {..<job_changed j}"
    using assms(1,2) by (simp_all add: job_inv_def)
  have c: "insert (job_changed j) {..<job_changed j} = {..job_changed j}" by auto
  have "st \<noteq> StatusRunning" using ends_with_terminal [OF assms(3)] by simp
  then show ?thesis
    unfolding j job_inv_def using r c assms(3-5) by simp
qed

section \<open>The countdown\<close>

text \<open>What the loop knows of the ticks when \<open>m\<close> counts remain.\<close>

definition counting :: "countdown \<Rightarrow> int \<Rightarrow> bool" where
  "counting s m \<longleftrightarrow>
     job_status (cd_job s) = StatusRunning \<and> 0 \<le> m \<and> m < cd_count s
     \<and> int (length (job_ticks (cd_job s))) = cd_count s - m
     \<and> cd_startedAt s \<le> cd_now s
     \<and> tick_elapsed (last (job_ticks (cd_job s))) \<le> cd_now s - cd_startedAt s"

fun pc_inv :: "cpc \<Rightarrow> countdown \<Rightarrow> bool" where
  "pc_inv CStart s \<longleftrightarrow> job_status (cd_job s) = StatusRunning \<and> job_ticks (cd_job s) = []"
| "pc_inv (CLoop m) s \<longleftrightarrow> counting s m"
| "pc_inv (CSelect m deadline) s \<longleftrightarrow> counting s m"
| "pc_inv (CReport t m) s \<longleftrightarrow> counting s m \<and> 1 \<le> m
     \<and> (\<exists>e. t = Progress e m \<and> tick_elapsed (last (job_ticks (cd_job s))) \<le> e
            \<and> e \<le> cd_now s - cd_startedAt s)"
| "pc_inv (CFinish st t recovering) s \<longleftrightarrow> ends_with st t
     \<and> (if recovering then st = StatusFailed else job_status (cd_job s) = StatusRunning)
     \<and> (st = StatusCompleted \<longrightarrow> int (length (job_ticks (cd_job s))) = cd_count s
          \<and> progress_run (cd_count s) (job_ticks (cd_job s) @ [t]))
     \<and> (st = StatusStopped \<longrightarrow> (\<exists>why. job_ctx (cd_job s) = Some why \<and> t = Stopped (Sentinel (SStd why))))"
| "pc_inv (CAudit st t recovering) s \<longleftrightarrow> st \<noteq> StatusRunning \<and> job_status (cd_job s) = st
     \<and> last (job_ticks (cd_job s)) = t"
| "pc_inv (CRecover v) s \<longleftrightarrow> True"
| "pc_inv CCloseFinished s \<longleftrightarrow> job_status (cd_job s) \<noteq> StatusRunning"
| "pc_inv CCancel s \<longleftrightarrow> job_status (cd_job s) \<noteq> StatusRunning"
| "pc_inv CDone s \<longleftrightarrow> job_status (cd_job s) \<noteq> StatusRunning"
| "pc_inv CCrashed s \<longleftrightarrow> job_status (cd_job s) \<noteq> StatusRunning"

text \<open>The one audit record, once it is written.\<close>

definition log_inv :: "countdown \<Rightarrow> bool" where
  "log_inv s \<longleftrightarrow>
     (if cd_pc s \<in> {CCloseFinished, CCancel, CDone}
      then cd_log s = [] \<or> cd_log s =
             auditTransition (cd_job s) (job_status (cd_job s)) (last (job_ticks (cd_job s)))
      else cd_log s = [])"

definition cd_inv :: "countdown \<Rightarrow> bool" where
  "cd_inv s \<longleftrightarrow> 1 \<le> cd_count s \<and> cd_count s \<le> MaxCount \<and> job_inv (cd_count s) (cd_job s)
     \<and> pc_inv (cd_pc s) s \<and> log_inv s
     \<and> (job_finished (cd_job s) \<longleftrightarrow> cd_pc s \<in> {CCancel, CDone})"

lemma cd_invD:
  assumes "cd_inv s"
  shows "1 \<le> cd_count s" "cd_count s \<le> MaxCount" "job_inv (cd_count s) (cd_job s)"
    "pc_inv (cd_pc s) s" "log_inv s" "job_finished (cd_job s) \<longleftrightarrow> cd_pc s \<in> {CCancel, CDone}"
  using assms by (simp_all add: cd_inv_def)

lemma auditTransition_cong:
  "job_logger j = job_logger j' \<Longrightarrow> job_ID j = job_ID j' \<Longrightarrow> auditTransition j st t = auditTransition j' st t"
  by (simp add: auditTransition_def)

text \<open>Changes of the context and of the clock keep what each program counter knows.\<close>

lemma cd_inv_cancel:
  assumes "cd_inv s"
  shows "cd_inv (s\<lparr>cd_job := cancel_with w (cd_job s)\<rparr>)"
proof -
  have "pc_inv (cd_pc s) (s\<lparr>cd_job := cancel_with w (cd_job s)\<rparr>)"
    using cd_invD(4) [OF assms] by (cases "cd_pc s") (auto simp: counting_def)
  with assms show ?thesis
    using auditTransition_cong [of "cd_job s" "cancel_with w (cd_job s)"]
    by (auto simp: cd_inv_def job_inv_cancel log_inv_def)
qed

lemma cd_inv_time:
  assumes "cd_inv s" and "cd_now s \<le> t"
  shows "cd_inv (s\<lparr>cd_now := t\<rparr>)"
proof -
  have "pc_inv (cd_pc s) (s\<lparr>cd_now := t\<rparr>)"
    using cd_invD(4) [OF assms(1)] assms(2) by (cases "cd_pc s") (auto simp: counting_def)
  with assms show ?thesis by (auto simp: cd_inv_def log_inv_def)
qed

lemma last_elapsed_zero: "progress_run n ts \<Longrightarrow> length ts = Suc 0 \<Longrightarrow> tick_elapsed (last ts) = 0"
  by (cases ts) (auto simp: progress_run_def)

lemma step_report:
  assumes "cd_inv s" and "countdown_step EvReport s = Some s'"
  shows "cd_inv s'"
proof (cases "cd_pc s")
  case CStart
  note inv = cd_invD [OF assms(1)]
  from inv(4) CStart have run: "job_status (cd_job s) = StatusRunning" "job_ticks (cd_job s) = []" by auto
  let ?t = "Progress 0 (cd_count s)"
  have pr: "progress_run (cd_count s) (job_ticks (cd_job s) @ [?t])"
    by (rule progress_run_snoc) (use run in auto)
  have "job_inv (cd_count s) (fst (reportProgress ?t (cd_job s)))"
    by (rule job_inv_report [OF inv(3) run(1) pr]) (use run inv(1) in simp)
  with assms CStart run inv job_inv_open [OF inv(3) run(1)] show ?thesis
    by (auto simp: reportProgress_running cd_inv_def log_inv_def counting_def)
next
  case (CReport t m)
  note inv = cd_invD [OF assms(1)]
  from inv(4) CReport obtain e where c: "counting s m" "1 \<le> m" "t = Progress e m"
    "tick_elapsed (last (job_ticks (cd_job s))) \<le> e" "e \<le> cd_now s - cd_startedAt s" by auto
  then have run: "job_status (cd_job s) = StatusRunning" and len:
    "int (length (job_ticks (cd_job s))) = cd_count s - m" and m: "m < cd_count s"
    by (auto simp: counting_def)
  then have ne: "job_ticks (cd_job s) \<noteq> []" by auto
  have pr: "progress_run (cd_count s) (job_ticks (cd_job s) @ [t])"
    unfolding c(3) by (rule progress_run_snoc) (use inv(3) run len ne c(4) in \<open>auto simp: job_inv_def\<close>)
  have "job_inv (cd_count s) (fst (reportProgress t (cd_job s)))"
    by (rule job_inv_report [OF inv(3) run pr]) (use len c(2) in simp)
  with assms CReport run inv job_inv_open [OF inv(3) run] c len show ?thesis
    by (auto simp: reportProgress_running cd_inv_def log_inv_def counting_def)
qed (use assms in auto)

lemma step_draw:
  assumes "cd_inv s" and "countdown_step (EvDraw r) s = Some s'"
  shows "cd_inv s'"
proof (cases "cd_pc s")
  case (CLoop m)
  with assms cd_invD(4) [OF assms(1)] show ?thesis
    by (auto simp: cd_inv_def log_inv_def counting_def split: if_splits)
qed (use assms in auto)

lemma step_timer:
  assumes "cd_inv s" and "countdown_step EvTimer s = Some s'"
  shows "cd_inv s'"
proof (cases "cd_pc s")
  case (CSelect m d)
  note inv = cd_invD [OF assms(1)]
  let ?e = "cd_now s - cd_startedAt s"
  from inv(4) CSelect have c: "counting s m" by simp
  then have run: "job_status (cd_job s) = StatusRunning"
    and len: "int (length (job_ticks (cd_job s))) = cd_count s - m"
    and el: "tick_elapsed (last (job_ticks (cd_job s))) \<le> ?e"
    and m: "0 \<le> m" "m < cd_count s" by (auto simp: counting_def)
  have pr: "progress_run (cd_count s) (job_ticks (cd_job s) @ [Progress ?e m])"
    by (rule progress_run_snoc) (use inv(3) run len el m in \<open>auto simp: job_inv_def\<close>)
  have s': "s' = s\<lparr>cd_pc := (if m = 0 then CFinish StatusCompleted (Progress ?e m) False
      else CReport (Progress ?e m) m)\<rparr>"
    using assms(2) CSelect by (auto simp: Let_def split: if_splits)
  show ?thesis
  proof (cases "m = 0")
    case True
    with s' inv run pr len CSelect show ?thesis by (auto simp: cd_inv_def log_inv_def)
  next
    case False
    with s' inv c m el CSelect show ?thesis by (auto simp: cd_inv_def log_inv_def counting_def)
  qed
qed (use assms in auto)

lemma step_cancelled:
  assumes "cd_inv s" and "countdown_step EvCancelled s = Some s'"
  shows "cd_inv s'"
proof (cases "cd_pc s")
  case (CSelect m d)
  with assms cd_invD [OF assms(1)] show ?thesis
    by (auto simp: cd_inv_def log_inv_def counting_def split: option.splits)
qed (use assms in auto)

lemma step_finish:
  assumes "cd_inv s" and "countdown_step EvFinish s = Some s'"
  shows "cd_inv s'"
proof (cases "cd_pc s")
  case (CFinish st t rec)
  note inv = cd_invD [OF assms(1)]
  from inv(4) CFinish have p: "ends_with st t"
    "st = StatusCompleted \<Longrightarrow> int (length (job_ticks (cd_job s))) = cd_count s
          \<and> progress_run (cd_count s) (job_ticks (cd_job s) @ [t])"
    "st = StatusStopped \<Longrightarrow> \<exists>why. job_ctx (cd_job s) = Some why \<and> t = Stopped (Sentinel (SStd why))"
    by auto
  show ?thesis
  proof (cases "job_status (cd_job s) = StatusRunning")
    case True
    have j: "job_inv (cd_count s) (fst (setTerminal st t (cd_job s)))"
      by (rule job_inv_setTerminal [OF inv(3) True p])
    note set = setTerminal_running [OF True job_inv_open [OF inv(3) True], of st t]
    have "s' = s\<lparr>cd_job := fst (setTerminal st t (cd_job s)), cd_pc := CAudit st t rec\<rparr>"
      using assms(2) CFinish set by simp
    with inv j CFinish ends_with_terminal [OF p(1)] show ?thesis
      by (auto simp: cd_inv_def log_inv_def set)
  next
    case False
    with assms CFinish inv show ?thesis by (auto simp: setTerminal_finished cd_inv_def log_inv_def)
  qed
qed (use assms in auto)

lemma step_audit:
  assumes "cd_inv s" and "countdown_step EvAudit s = Some s'"
  shows "cd_inv s'"
proof (cases "cd_pc s")
  case (CAudit st t rec)
  with assms cd_invD [OF assms(1)] show ?thesis by (auto simp: cd_inv_def log_inv_def)
qed (use assms in auto)

lemma step_panic:
  assumes "cd_inv s" and "countdown_step (EvPanic v) s = Some s'"
  shows "cd_inv s'"
  using assms cd_invD [OF assms(1)]
  by (cases "cd_pc s") (auto simp: cd_inv_def log_inv_def unwind_def split: if_splits)

lemma recovered_tick_ends: "ends_with StatusFailed (recovered_tick v)"
  by (cases v) simp_all

lemma step_recover:
  assumes "cd_inv s" and "countdown_step EvRecover s = Some s'"
  shows "cd_inv s'"
  using assms cd_invD [OF assms(1)] recovered_tick_ends
  by (cases "cd_pc s") (auto simp: cd_inv_def log_inv_def)

lemma job_inv_finished [simp]: "job_inv n (j\<lparr>job_finished := b\<rparr>) = job_inv n j"
  by (simp add: job_inv_def)

lemma step_close_finished:
  assumes "cd_inv s" and "countdown_step EvCloseFinished s = Some s'"
  shows "cd_inv s'"
  using assms cd_invD [OF assms(1)]
    auditTransition_cong [of "(cd_job s)\<lparr>job_finished := True\<rparr>" "cd_job s"]
  by (cases "cd_pc s") (auto simp: cd_inv_def log_inv_def)

lemma step_defer_cancel:
  assumes "cd_inv s" and "countdown_step EvDeferCancel s = Some s'"
  shows "cd_inv s'"
  using assms cd_invD [OF assms(1)]
    auditTransition_cong [of "cancel_with CtxCanceled (cd_job s)" "cd_job s"]
  by (cases "cd_pc s") (auto simp: cd_inv_def log_inv_def job_inv_cancel)

lemmas countdown_steps = step_report step_draw step_timer step_cancelled step_finish step_audit
  step_panic step_recover step_close_finished step_defer_cancel

lemma countdown_step_inv:
  assumes "cd_inv s" and "countdown_step e s = Some s'"
  shows "cd_inv s'"
proof (cases e)
  case (EvTime t)
  with assms cd_inv_time show ?thesis by (auto split: if_splits)
next
  case (EvParentDone w)
  with assms cd_inv_cancel show ?thesis by auto
qed (use assms in \<open>auto simp only: intro: countdown_steps\<close>)

section \<open>How a job moves on\<close>

text \<open>
  Every step only appends ticks and closes channels; an append closes the channel that was current,
  nothing is appended to a job that has ended, and its status, its finish and its context's end are
  final.
\<close>

definition evolves :: "job \<Rightarrow> job \<Rightarrow> bool" where
  "evolves j j' \<longleftrightarrow>
     (\<exists>us. job_ticks j' = job_ticks j @ us \<and>
        (us = [] \<longrightarrow> job_status j' = job_status j \<and> job_changed j' = job_changed j
                   \<and> set (job_closed j') = set (job_closed j)) \<and>
        (us \<noteq> [] \<longrightarrow> job_status j = StatusRunning \<and> job_changed j \<in> set (job_closed j')))
     \<and> set (job_closed j) \<subseteq> set (job_closed j')
     \<and> (job_status j \<noteq> StatusRunning \<longrightarrow> job_status j' = job_status j)
     \<and> (job_finished j \<longrightarrow> job_finished j') \<and> (job_ctx j \<noteq> None \<longrightarrow> job_ctx j' = job_ctx j)
     \<and> job_ID j' = job_ID j \<and> job_logger j' = job_logger j"

lemma evolves_refl: "evolves j j"
  by (simp add: evolves_def)

lemma evolves_cancel: "evolves j (cancel_with w j)"
  by (auto simp: evolves_def)

lemma evolves_finished: "evolves j (j\<lparr>job_finished := True\<rparr>)"
  by (simp add: evolves_def)

lemma evolves_report:
  assumes "job_inv n j"
  shows "evolves j (fst (reportProgress t j))"
  using job_inv_open [OF assms]
  by (cases "job_status j = StatusRunning")
     (auto simp: reportProgress_running reportProgress_finished evolves_def)

lemma evolves_setTerminal:
  assumes "job_inv n j"
  shows "evolves j (fst (setTerminal st t j))"
  using job_inv_open [OF assms]
  by (cases "job_status j = StatusRunning")
     (auto simp: setTerminal_running setTerminal_finished evolves_def)

lemma countdown_step_evolves:
  assumes "cd_inv s" and "countdown_step e s = Some s'"
  shows "evolves (cd_job s) (cd_job s')"
proof -
  note inv = cd_invD(3) [OF assms(1)]
  note ev = evolves_refl evolves_cancel evolves_finished
  have r: "evolves (cd_job s) j" if "reportProgress t (cd_job s) = (j, out)" for t j out
    using evolves_report [OF inv, of t] that by simp
  have f: "evolves (cd_job s) j" if "setTerminal st t (cd_job s) = (j, out)" for st t j out
    using evolves_setTerminal [OF inv, of st t] that by simp
  show ?thesis
    using assms(2) ev r f
    by (cases e) (auto simp: Let_def split: cpc.splits prod.splits outcome.splits bool.splits
        option.splits if_splits)
qed

section \<open>Readers\<close>

text \<open>
  An open channel a reader holds is the current one of a running job, and the reader has seen every
  tick: nothing was appended since its snapshot.
\<close>

definition holds_channel :: "job \<Rightarrow> nat \<Rightarrow> nat \<Rightarrow> bool" where
  "holds_channel j seen wait \<longleftrightarrow>
     (wait \<notin> set (job_closed j) \<longrightarrow>
        job_status j = StatusRunning \<and> wait = job_changed j \<and> seen = length (job_ticks j))"

definition none_terminal :: "tick list \<Rightarrow> bool" where
  "none_terminal ts \<longleftrightarrow> (\<forall>t\<in>set ts. \<not> IsTerminal t)"

definition reader_inv :: "job \<Rightarrow> reader \<Rightarrow> bool" where
  "reader_inv j r \<longleftrightarrow>
     rd_cursor r \<le> length (job_ticks j) \<and>
     (case rd_pc r of
        RLock \<Rightarrow> rd_delivered r = take (rd_cursor r) (job_ticks j) \<and> none_terminal (rd_delivered r)
      | RBatch lo i hi wait \<Rightarrow> lo \<le> i \<and> i \<le> hi \<and> hi = rd_cursor r
          \<and> rd_delivered r = take i (job_ticks j) \<and> none_terminal (rd_delivered r)
          \<and> holds_channel j hi wait
      | RSelect wait \<Rightarrow> rd_delivered r = take (rd_cursor r) (job_ticks j)
          \<and> none_terminal (rd_delivered r) \<and> holds_channel j (rd_cursor r) wait
      | RDone ByTerminal \<Rightarrow> rd_delivered r = job_ticks j \<and> job_status j \<noteq> StatusRunning
      | RDone _ \<Rightarrow> (\<exists>k\<le>length (job_ticks j). rd_delivered r = take k (job_ticks j)))"

lemma new_reader_inv: "reader_inv j new_reader"
  by (simp add: reader_inv_def new_reader_def none_terminal_def)

lemma holds_channel_evolves:
  "evolves j j' \<Longrightarrow> holds_channel j seen wait \<Longrightarrow> holds_channel j' seen wait"
  unfolding evolves_def holds_channel_def by auto

lemma reader_inv_evolves:
  assumes ev: "evolves j j'" and inv: "reader_inv j r"
  shows "reader_inv j' r"
proof -
  from ev obtain us where us: "job_ticks j' = job_ticks j @ us"
    and stop: "us \<noteq> [] \<Longrightarrow> job_status j = StatusRunning" unfolding evolves_def by blast
  have st: "job_status j \<noteq> StatusRunning \<Longrightarrow> job_status j' = job_status j \<and> us = []"
    using ev stop unfolding evolves_def by blast
  have take: "take k (job_ticks j') = take k (job_ticks j)" if "k \<le> length (job_ticks j)" for k
    using that us by simp
  show ?thesis
  proof (cases "rd_pc r")
    case (RDone why)
    have pre: "\<exists>k\<le>length (job_ticks j'). ts = take k (job_ticks j')"
      if k: "\<exists>k\<le>length (job_ticks j). ts = take k (job_ticks j)" for ts
    proof -
      from k obtain k where "k \<le> length (job_ticks j)" "ts = take k (job_ticks j)" by blast
      with us take show ?thesis by (intro exI [of _ k]) simp
    qed
    show ?thesis
      using inv us st pre RDone by (cases why) (auto simp: reader_inv_def)
  qed (use inv take us holds_channel_evolves [OF ev] in \<open>auto simp: reader_inv_def\<close>)
qed

lemma reader_step_inv:
  assumes jinv: "job_inv n j" and inv: "reader_inv j r" and step: "reader_step e j r = Some r'"
  shows "reader_inv j r'"
proof (cases e)
  case RdSnapshot
  have "holds_channel j (length (job_ticks j)) (job_changed j)"
    using jinv by (auto simp: holds_channel_def job_inv_def split: if_splits)
  with RdSnapshot inv step show ?thesis
    by (auto simp: reader_inv_def split: rpc.splits)
next
  case (RdYield wants)
  with step obtain lo i hi wait where pc: "rd_pc r = RBatch lo i hi wait" and i: "i < hi"
    by (auto split: rpc.splits if_splits)
  let ?t = "job_ticks j ! i"
  from inv pc have r: "lo \<le> i" "hi = rd_cursor r" "hi \<le> length (job_ticks j)"
    "rd_delivered r = take i (job_ticks j)" "none_terminal (rd_delivered r)" "holds_channel j hi wait"
    by (auto simp: reader_inv_def)
  have nxt: "rd_delivered r @ [?t] = take (Suc i) (job_ticks j)"
    using r(3,4) i by (simp add: take_Suc_conv_app_nth)
  have nt: "none_terminal (take (Suc i) (job_ticks j))" if "\<not> IsTerminal ?t"
    using that r(5) unfolding nxt [symmetric] by (auto simp: none_terminal_def)
  have "job_status j \<noteq> StatusRunning \<and> Suc i = length (job_ticks j)" if "IsTerminal ?t"
    using job_inv_terminal_index [OF jinv _ that] r(3) i by simp
  then show ?thesis
    using RdYield step pc i r nxt nt
    by (auto simp: reader_inv_def Let_def intro!: exI [of _ "Suc i"])
next
  case RdBatchEnd
  with inv step show ?thesis by (auto simp: reader_inv_def split: rpc.splits if_splits)
next
  case RdWake
  with inv step show ?thesis by (auto simp: reader_inv_def split: rpc.splits if_splits)
next
  case RdCtxDone
  with inv step show ?thesis by (auto simp: reader_inv_def split: rpc.splits if_splits)
next
  case RdCancelled
  with inv step show ?thesis by (auto simp: reader_inv_def split: rpc.splits done_reason.splits)
qed

section \<open>Stop calls\<close>

definition stop_inv :: "job \<Rightarrow> stop_pc \<Rightarrow> bool" where
  "stop_inv j pc \<longleftrightarrow> job_ctx j \<noteq> None \<and>
     (case pc of
        StopWaiting \<Rightarrow> True
      | StopReading \<Rightarrow> job_finished j
      | StopReturned st \<Rightarrow> job_finished j \<and> st = job_status j \<and> st \<noteq> StatusRunning)"

lemma stop_inv_evolves:
  "evolves j j' \<Longrightarrow> stop_inv j pc \<Longrightarrow> stop_inv j' pc"
  unfolding evolves_def stop_inv_def by (cases pc) auto

lemma cd_inv_finished: "cd_inv s \<Longrightarrow> job_finished (cd_job s) \<Longrightarrow> job_status (cd_job s) \<noteq> StatusRunning"
  using cd_invD(4,6) [of s] by auto

section \<open>Every reachable state\<close>

definition sys_inv :: "job_sys \<Rightarrow> bool" where
  "sys_inv s \<longleftrightarrow> cd_inv (js_countdown s)
     \<and> (\<forall>i r. js_readers s i = Some r \<longrightarrow> reader_inv (js_job s) r)
     \<and> (\<forall>i pc. js_stops s i = Some pc \<longrightarrow> stop_inv (js_job s) pc)"

lemma sys_invD:
  assumes "sys_inv s"
  shows "cd_inv (js_countdown s)" "js_readers s i = Some r \<Longrightarrow> reader_inv (js_job s) r"
    "js_stops s k = Some pc \<Longrightarrow> stop_inv (js_job s) pc"
  using assms by (auto simp: sys_inv_def)

lemma sys_inv_evolves:
  assumes "sys_inv s" and "cd_inv c" and "evolves (js_job s) (cd_job c)"
  shows "sys_inv (s\<lparr>js_countdown := c\<rparr>)"
  using assms reader_inv_evolves stop_inv_evolves by (auto simp: sys_inv_def)

lemma live_step_inv:
  assumes inv: "sys_inv s" and step: "live_step e s = Some s'"
  shows "sys_inv s' \<and> evolves (js_job s) (js_job s')"
proof (cases e)
  case (Worker ce)
  then obtain c where c: "countdown_step ce (js_countdown s) = Some c" "s' = s\<lparr>js_countdown := c\<rparr>"
    using step by auto
  with sys_inv_evolves [OF inv countdown_step_inv [OF sys_invD(1) [OF inv] c(1)]
      countdown_step_evolves [OF sys_invD(1) [OF inv] c(1)]]
    countdown_step_evolves [OF sys_invD(1) [OF inv] c(1)] show ?thesis by simp
next
  case (OpenReader i)
  with inv step new_reader_inv evolves_refl show ?thesis
    by (auto simp: sys_inv_def split: option.splits if_splits)
next
  case (Reader i re)
  then obtain r r' where r: "js_readers s i = Some r" "reader_step re (js_job s) r = Some r'"
    "s' = s\<lparr>js_readers := (js_readers s)(i \<mapsto> r')\<rparr>" using step by (auto split: option.splits)
  have "reader_inv (js_job s) r'"
    using reader_step_inv [OF cd_invD(3) [OF sys_invD(1) [OF inv]] sys_invD(2) [OF inv r(1)] r(2)] .
  with inv r(3) evolves_refl show ?thesis by (auto simp: sys_inv_def split: if_splits)
next
  case (CallStop i)
  let ?c = "(js_countdown s)\<lparr>cd_job := cancel_with CtxCanceled (js_job s)\<rparr>"
  from CallStop step have s': "s' = s\<lparr>js_countdown := ?c, js_stops := (js_stops s)(i \<mapsto> StopWaiting)\<rparr>"
    by (auto split: option.splits)
  have "sys_inv (s\<lparr>js_countdown := ?c\<rparr>)"
    by (rule sys_inv_evolves [OF inv cd_inv_cancel [OF sys_invD(1) [OF inv]]]) (simp add: evolves_cancel)
  with s' evolves_cancel show ?thesis by (auto simp: sys_inv_def stop_inv_def split: if_splits)
next
  case (StepStop i)
  then obtain pc pc' where p: "js_stops s i = Some pc" "stop_step (js_job s) pc = Some pc'"
    "s' = s\<lparr>js_stops := (js_stops s)(i \<mapsto> pc')\<rparr>" using step by (auto split: option.splits)
  have "stop_inv (js_job s) pc'"
    using sys_invD(3) [OF inv p(1)] p(2) cd_inv_finished [OF sys_invD(1) [OF inv]]
    by (auto simp: stop_inv_def stop_step_def Status_def split: stop_pc.splits if_splits)
  with inv p(3) evolves_refl show ?thesis by (auto simp: sys_inv_def split: if_splits)
qed

lemma job_step_inv:
  "sys_inv s \<Longrightarrow> job_step e s = Some s' \<Longrightarrow> sys_inv s' \<and> evolves (js_job s) (js_job s')"
  by (auto simp: job_step_def live_step_inv split: if_splits)

lemma NewJob_ok:
  "NewJob ctxErr now jobID count mean lg = Inr s \<Longrightarrow>
     sys_inv s \<and> 1 \<le> count \<and> count \<le> MaxCount \<and> 0 < mean \<and> cd_count (js_countdown s) = count
     \<and> job_status (js_job s) = StatusRunning \<and> job_ID (js_job s) = jobID
     \<and> job_ctx (js_job s) = ctxErr \<and> job_logger (js_job s) = OrDiscard lg"
  by (auto simp: NewJob_def sys_inv_def cd_inv_def job_inv_def log_inv_def)

lemma evolves_trans:
  assumes "evolves j k" and "evolves k l"
  shows "evolves j l"
proof -
  obtain us vs where us: "job_ticks k = job_ticks j @ us" "job_ticks l = job_ticks k @ vs"
    and nil: "us = [] \<Longrightarrow> job_status k = job_status j \<and> job_changed k = job_changed j
        \<and> set (job_closed k) = set (job_closed j)"
      "vs = [] \<Longrightarrow> job_status l = job_status k \<and> job_changed l = job_changed k
        \<and> set (job_closed l) = set (job_closed k)"
    and cons: "us \<noteq> [] \<Longrightarrow> job_status j = StatusRunning \<and> job_changed j \<in> set (job_closed k)"
      "vs \<noteq> [] \<Longrightarrow> job_status k = StatusRunning \<and> job_changed k \<in> set (job_closed l)"
    using assms unfolding evolves_def by blast
  have sub: "set (job_closed j) \<subseteq> set (job_closed k)" "set (job_closed k) \<subseteq> set (job_closed l)"
    and st: "job_status j \<noteq> StatusRunning \<Longrightarrow> job_status k = job_status j"
      "job_status k \<noteq> StatusRunning \<Longrightarrow> job_status l = job_status k"
    using assms unfolding evolves_def by blast+
  have rest: "(job_finished j \<longrightarrow> job_finished l) \<and> (job_ctx j \<noteq> None \<longrightarrow> job_ctx l = job_ctx j)
      \<and> job_ID l = job_ID j \<and> job_logger l = job_logger j"
    using assms unfolding evolves_def by (metis (no_types))
  have "job_ticks l = job_ticks j @ (us @ vs)" using us by simp
  moreover have "us @ vs \<noteq> [] \<longrightarrow> job_status j = StatusRunning \<and> job_changed j \<in> set (job_closed l)"
    using nil(1) cons sub by (cases "us = []") auto
  ultimately show ?thesis
    unfolding evolves_def using nil sub st rest by (intro conjI exI [of _ "us @ vs"]) auto
qed

interpretation job: evolving_steps job_step sys_inv "\<lambda>s s'. evolves (js_job s) (js_job s')"
  by unfold_locales (use job_step_inv evolves_refl evolves_trans in blast)+

end
