(* ===== verification/Worker_Props.thy ===== *)
theory Worker_Props
  imports Worker_Inv
begin

text \<open>
  What the package \<open>internal/worker\<close> promises of a job started by \<open>NewJob\<close>: the shape of its tick
  buffer, that its end is final and comes in bounded work, that its locks are never left by a panic,
  that readers miss nothing and wake up, that \<open>Stop\<close> returns, and the audit of its end.
\<close>

section \<open>Reachable states\<close>

lemma reachable_inv:
  assumes "NewJob ctxErr now jobID count mean lg = Inr s0" and "job_reaches s0 s"
  shows "sys_inv s" "cd_count (js_countdown s0) = count" "1 \<le> count" "count \<le> MaxCount"
  using assms job.reaches_keeps NewJob_ok by blast+

lemma countdown_step_count: "countdown_step e c = Some c' \<Longrightarrow> cd_count c' = cd_count c"
  by (cases e) (auto simp: Let_def split: cpc.splits prod.splits outcome.splits bool.splits
      option.splits if_splits)

lemma job_step_count:
  "job_step e s = Some s' \<Longrightarrow> cd_count (js_countdown s') = cd_count (js_countdown s)"
  by (cases e) (auto simp: job_step_def countdown_step_count split: if_splits option.splits)

lemma reaches_count:
  "job_reaches s0 s \<Longrightarrow> cd_count (js_countdown s) = cd_count (js_countdown s0)"
  by (induction rule: reaches.induct) (auto dest: job_step_count)

lemma reachable_job_inv:
  assumes "NewJob ctxErr now jobID count mean lg = Inr s0" and "job_reaches s0 s"
  shows "job_inv count (js_job s)"
  using cd_invD(3) [OF sys_invD(1) [OF reachable_inv(1) [OF assms]]] reaches_count [OF assms(2)]
    reachable_inv(2) [OF assms] by simp

section \<open>Work\<close>

text \<open>
  The steps of the goroutine itself, and how many of them it has left at a program counter when its
  job counts from \<open>n\<close>.
\<close>

fun is_work :: "cevent \<Rightarrow> bool" where
  "is_work (EvTime t) \<longleftrightarrow> False"
| "is_work (EvParentDone why) \<longleftrightarrow> False"
| "is_work e \<longleftrightarrow> True"

fun is_panic :: "cevent \<Rightarrow> bool" where
  "is_panic (EvPanic v) \<longleftrightarrow> True"
| "is_panic e \<longleftrightarrow> False"

text \<open>What a goroutine does unless something outside it interferes: it does not panic and nobody cancels.\<close>

fun goes_on :: "cevent \<Rightarrow> bool" where
  "goes_on (EvPanic v) \<longleftrightarrow> False"
| "goes_on (EvParentDone why) \<longleftrightarrow> False"
| "goes_on e \<longleftrightarrow> True"

text \<open>A job moves by its own goroutine and by the callers of \<open>Stop\<close> that wait already.\<close>

fun own_event :: "job_event \<Rightarrow> bool" where
  "own_event (Worker e) \<longleftrightarrow> goes_on e"
| "own_event (StepStop i) \<longleftrightarrow> True"
| "own_event e \<longleftrightarrow> False"

abbreviation job_comes :: "job_sys \<Rightarrow> job_sys \<Rightarrow> bool" where
  "job_comes \<equiv> comes_to job_step own_event"

lemma job_comes_step: "job_step e s = Some t \<Longrightarrow> own_event e \<Longrightarrow> job_comes s t"
  by (rule comes_step)

lemma work_goes_on: "is_work e \<Longrightarrow> \<not> is_panic e \<Longrightarrow> goes_on e"
  by (cases e) auto

fun work_left :: "int \<Rightarrow> cpc \<Rightarrow> nat" where
  "work_left n CStart = 3 * nat n + 8"
| "work_left n (CLoop m) = 3 * nat (m + 1) + 7"
| "work_left n (CSelect m deadline) = 3 * nat (m + 1) + 6"
| "work_left n (CReport t m) = 3 * nat (m + 1) + 5"
| "work_left n (CFinish st t recovering) = (if recovering then 4 else 7)"
| "work_left n (CAudit st t recovering) = (if recovering then 3 else 6)"
| "work_left n (CRecover v) = 5"
| "work_left n CCloseFinished = 2"
| "work_left n CCancel = 1"
| "work_left n CDone = 0"
| "work_left n CCrashed = 0"

abbreviation cd_left :: "countdown \<Rightarrow> nat" where
  "cd_left c \<equiv> work_left (cd_count c) (cd_pc c)"

lemma reportProgress_returns: "job_inv n j \<Longrightarrow> \<exists>k. reportProgress t j = (k, Returned ())"
  using job_inv_open by (cases "job_status j = StatusRunning")
     (simp_all add: reportProgress_running reportProgress_finished)

lemma setTerminal_returns: "job_inv n j \<Longrightarrow> \<exists>k b. setTerminal st t j = (k, Returned b)"
  using job_inv_open by (cases "job_status j = StatusRunning")
     (auto simp: setTerminal_running setTerminal_finished)

lemmas critical_sections_return = reportProgress_returns setTerminal_returns

lemma work_step:
  assumes inv: "cd_inv c" and step: "countdown_step e c = Some c'"
  shows "cd_left c' + (if is_work e then 1 else 0) \<le> cd_left c"
proof (cases "is_work e")
  case False
  with step show ?thesis by (cases e) (auto split: if_splits)
next
  case True
  note J = critical_sections_return [OF cd_invD(3) [OF inv]]
  note pc = cd_invD(4) [OF inv]
  show ?thesis
  proof (cases "cd_pc c")
    case CStart
    obtain j where "reportProgress (Progress 0 (cd_count c)) (cd_job c) = (j, Returned ())"
      using J(1) by blast
    with CStart step True cd_invD(1) [OF inv] show ?thesis by (cases e) auto
  next
    case (CLoop m)
    with pc step True show ?thesis by (cases e) (auto simp: counting_def split: if_splits)
  next
    case (CSelect m deadline)
    with pc step True show ?thesis
      by (cases e) (auto simp: counting_def Let_def nat_add_distrib split: if_splits option.splits)
  next
    case (CReport t m)
    obtain j where "reportProgress t (cd_job c) = (j, Returned ())" using J(1) by blast
    with CReport pc step True show ?thesis by (cases e) (auto simp: counting_def nat_add_distrib)
  next
    case (CFinish st t recovering)
    obtain j b where "setTerminal st t (cd_job c) = (j, Returned b)" using J(2) by blast
    with CFinish step True show ?thesis by (cases e; cases b) auto
  next
    case (CAudit st t recovering)
    with step True show ?thesis by (cases e) (auto simp: unwind_def)
  next
    case (CRecover v)
    with step True show ?thesis by (cases e) auto
  next
    case CCloseFinished
    with step True show ?thesis by (cases e) auto
  next
    case CCancel
    with step True show ?thesis by (cases e) auto
  next
    case CDone
    with step True show ?thesis by (cases e) auto
  next
    case CCrashed
    with step True show ?thesis by (cases e) auto
  qed
qed

text \<open>The work a run of the whole system does.\<close>

definition work_in :: "job_event list \<Rightarrow> nat" where
  "work_in es = length (filter (\<lambda>e. case e of Worker c \<Rightarrow> is_work c | _ \<Rightarrow> False) es)"

lemma job_step_work:
  assumes "sys_inv s" and "job_step e s = Some s'"
  shows "cd_left (js_countdown s') + work_in [e] \<le> cd_left (js_countdown s)"
  using assms(2)
  by (cases e)
     (auto simp: job_step_def work_in_def split: if_splits option.splits
       dest!: work_step [OF sys_invD(1) [OF assms(1)]])

lemma job_run_work:
  assumes "sys_inv s" and "job_run es s = Some s'"
  shows "cd_left (js_countdown s') + work_in es \<le> cd_left (js_countdown s)"
  using assms
proof (induction es arbitrary: s)
  case Nil
  then show ?case by (simp add: work_in_def)
next
  case (Cons e es)
  then obtain t where t: "job_step e s = Some t" "job_run es t = Some s'" by (auto split: option.splits)
  have "work_in (e # es) = work_in [e] + work_in es" by (simp add: work_in_def)
  with job_step_work [OF Cons.prems(1) t(1)] Cons.IH [OF _ t(2)] job_step_inv [OF Cons.prems(1) t(1)]
  show ?case by simp
qed

section \<open>Progress\<close>

text \<open>A goroutine that has not ended can move, once the clock has reached its timer.\<close>

lemma work_ready:
  assumes inv: "cd_inv c" and "cd_pc c \<noteq> CDone" and "cd_pc c \<noteq> CCrashed"
    and timer: "\<And>m deadline. cd_pc c = CSelect m deadline \<Longrightarrow> deadline \<le> cd_now c"
  shows "\<exists>e. countdown_step e c \<noteq> None \<and> is_work e \<and> \<not> is_panic e"
proof -
  note J = critical_sections_return [OF cd_invD(3) [OF inv]]
  have here: ?thesis if "countdown_step e c \<noteq> None" "is_work e" "\<not> is_panic e" for e
    using that by blast
  show ?thesis
  proof (cases "cd_pc c")
    case CStart
    obtain j where "reportProgress (Progress 0 (cd_count c)) (cd_job c) = (j, Returned ())"
      using J(1) by blast
    with CStart show ?thesis by - (rule here [of EvReport]; simp)
  next
    case (CLoop m)
    then show ?thesis by - (rule here [of "EvDraw 0"]; simp)
  next
    case (CSelect m deadline)
    with timer show ?thesis by - (rule here [of EvTimer]; simp add: Let_def)
  next
    case (CReport t m)
    obtain j where "reportProgress t (cd_job c) = (j, Returned ())" using J(1) by blast
    with CReport show ?thesis by - (rule here [of EvReport]; simp)
  next
    case (CFinish st t recovering)
    obtain j b where "setTerminal st t (cd_job c) = (j, Returned b)" using J(2) by blast
    with CFinish show ?thesis by - (rule here [of EvFinish]; cases b; simp)
  next
    case (CAudit st t recovering)
    then show ?thesis by - (rule here [of EvAudit]; simp)
  next
    case (CRecover v)
    then show ?thesis by - (rule here [of EvRecover]; simp)
  next
    case CCloseFinished
    then show ?thesis by - (rule here [of EvCloseFinished]; simp)
  next
    case CCancel
    then show ?thesis by - (rule here [of EvDeferCancel]; simp)
  qed (use assms in auto)
qed

lemma work_enabled:
  assumes inv: "cd_inv c" and "cd_pc c \<noteq> CDone" and "cd_pc c \<noteq> CCrashed"
  shows "\<exists>t e c1 c2. countdown_step (EvTime t) c = Some c1 \<and> countdown_step e c1 = Some c2
    \<and> is_work e \<and> \<not> is_panic e"
proof -
  let ?t = "max (cd_now c) (case cd_pc c of CSelect m deadline \<Rightarrow> deadline | _ \<Rightarrow> cd_now c)"
  let ?c = "c\<lparr>cd_now := ?t\<rparr>"
  have t: "countdown_step (EvTime ?t) c = Some ?c" by simp
  have "\<exists>e. countdown_step e ?c \<noteq> None \<and> is_work e \<and> \<not> is_panic e"
    by (rule work_ready [OF countdown_step_inv [OF inv t]]) (use assms(2,3) in auto)
  with t show ?thesis by blast
qed

text \<open>Only a panic in the deferred recovery ends the process.\<close>

lemma no_crash:
  assumes inv: "cd_inv c" and step: "countdown_step e c = Some c'" and "\<not> is_panic e"
    and "cd_pc c \<noteq> CCrashed"
  shows "cd_pc c' \<noteq> CCrashed"
proof (cases e)
  case EvFinish
  with step obtain st t rec where pc: "cd_pc c = CFinish st t rec" by (cases "cd_pc c") auto
  obtain j b where "setTerminal st t (cd_job c) = (j, Returned b)"
    using setTerminal_returns [OF cd_invD(3) [OF inv]] by blast
  with EvFinish step pc show ?thesis by (cases b) auto
qed (use assms in \<open>auto simp: Let_def split: cpc.splits prod.splits outcome.splits option.splits if_splits\<close>)

lemma job_step_worker:
  assumes "countdown_step e (js_countdown s) = Some c" and "cd_pc (js_countdown s) \<noteq> CCrashed"
  shows "job_step (Worker e) s = Some (s\<lparr>js_countdown := c\<rparr>)"
  using assms by (simp add: job_step_def)

text \<open>From any state the goroutine runs to its end without a panic, past readers and callers.\<close>

lemma worker_finishes:
  assumes "sys_inv s" and "cd_pc (js_countdown s) \<noteq> CCrashed"
  shows "\<exists>c. job_comes s (s\<lparr>js_countdown := c\<rparr>) \<and> cd_pc c = CDone"
  using assms
proof (induction "cd_left (js_countdown s)" arbitrary: s rule: less_induct)
  case less
  show ?case
  proof (cases "cd_pc (js_countdown s) = CDone")
    case True
    then show ?thesis by (intro exI [of _ "js_countdown s"]) simp
  next
    case False
    note inv = sys_invD(1) [OF less.prems(1)]
    from work_enabled [OF inv False less.prems(2)] obtain t e c1 c2 where
      st: "countdown_step (EvTime t) (js_countdown s) = Some c1" "countdown_step e c1 = Some c2"
      "is_work e" "\<not> is_panic e" by blast
    have c1: "cd_inv c1" "cd_pc c1 \<noteq> CCrashed"
      using countdown_step_inv [OF inv st(1)] no_crash [OF inv st(1) _ less.prems(2)] by auto
    let ?s1 = "s\<lparr>js_countdown := c1\<rparr>" and ?s2 = "s\<lparr>js_countdown := c2\<rparr>"
    have s1: "job_step (Worker (EvTime t)) s = Some ?s1" by (rule job_step_worker [OF st(1) less.prems(2)])
    have s2: "job_step (Worker e) ?s1 = Some ?s2" using job_step_worker [of e ?s1 c2] st(2) c1(2) by simp
    have inv2: "sys_inv ?s2"
      using job_step_inv [OF conjunct1 [OF job_step_inv [OF less.prems(1) s1]] s2] by simp
    have "cd_left c2 < cd_left (js_countdown s)"
      using work_step [OF inv st(1)] work_step [OF c1(1) st(2)] st(3) by simp
    moreover have "cd_pc c2 \<noteq> CCrashed" by (rule no_crash [OF c1(1) st(2,4) c1(2)])
    ultimately obtain c where c: "job_comes ?s2 (?s2\<lparr>js_countdown := c\<rparr>)" "cd_pc c = CDone"
      using less.hyps [of ?s2] inv2 by auto
    have "job_comes s ?s1" "job_comes ?s1 ?s2"
      using job_comes_step [OF s1] job_comes_step [OF s2] work_goes_on [OF st(3,4)] by simp_all
    with c show ?thesis by (intro exI [of _ c]) (auto intro: comes_trans)
  qed
qed

lemma done_finished: "cd_inv c \<Longrightarrow> cd_pc c = CDone \<Longrightarrow> job_finished (cd_job c)"
  using cd_invD(6) by simp

section \<open>Draining a job\<close>

text \<open>The event a reader of an ended job is ready for, and how many of them it still needs.\<close>

primrec next_event :: "rpc \<Rightarrow> revent" where
  "next_event RLock = RdSnapshot"
| "next_event (RBatch lo i hi wait) = (if i < hi then RdYield True else RdBatchEnd)"
| "next_event (RSelect wait) = RdWake"
| "next_event (RDone why) = RdCancelled"

definition reads_left :: "job \<Rightarrow> reader \<Rightarrow> nat" where
  "reads_left j r = length (job_ticks j) - length (rd_delivered r) +
     (case rd_pc r of
        RLock \<Rightarrow> 1 | RSelect wait \<Rightarrow> 2 | RDone why \<Rightarrow> 0
      | RBatch lo i hi wait \<Rightarrow> if hi = length (job_ticks j) then 0 else 3)"

fun reading :: "rpc \<Rightarrow> bool" where
  "reading (RDone why) \<longleftrightarrow> False"
| "reading pc \<longleftrightarrow> True"

lemma none_terminal_not_all:
  assumes "job_inv n j" and "job_status j \<noteq> StatusRunning" and "none_terminal (take k (job_ticks j))"
  shows "k < length (job_ticks j)"
proof (rule ccontr)
  assume "\<not> k < length (job_ticks j)"
  with assms(3) have "none_terminal (job_ticks j)" by simp
  with job_inv_last_terminal [OF assms(1,2)] show False by (auto simp: none_terminal_def)
qed

lemma ended_reader_step:
  assumes jinv: "job_inv n j" and ended: "job_status j \<noteq> StatusRunning"
    and inv: "reader_inv j r" and rd: "reading (rd_pc r)"
  shows "\<exists>r'. reader_step (next_event (rd_pc r)) j r = Some r'
    \<and> (rd_pc r' = RDone ByTerminal \<or> reading (rd_pc r') \<and> reads_left j r' < reads_left j r)"
proof (cases "rd_pc r")
  case RLock
  with inv have d: "rd_delivered r = take (rd_cursor r) (job_ticks j)" "none_terminal (rd_delivered r)"
    by (auto simp: reader_inv_def)
  with RLock show ?thesis by (simp add: reads_left_def)
next
  case (RBatch lo i hi wait)
  with inv have d: "rd_delivered r = take i (job_ticks j)" "none_terminal (rd_delivered r)" "i \<le> hi"
    "hi \<le> length (job_ticks j)" by (auto simp: reader_inv_def)
  have lt: "i < length (job_ticks j)" using none_terminal_not_all [OF jinv ended, of i] d(1,2) by simp
  show ?thesis
  proof (cases "i < hi")
    case True
    with RBatch d lt show ?thesis by (auto simp: reads_left_def Let_def)
  next
    case False
    with d(3) have "i = hi" by simp
    with RBatch d lt show ?thesis by (auto simp: reads_left_def)
  qed
next
  case (RSelect wait)
  with inv ended have "wait \<in> set (job_closed j)" by (auto simp: reader_inv_def holds_channel_def)
  with RSelect show ?thesis by (simp add: reads_left_def)
next
  case (RDone why)
  with rd show ?thesis by simp
qed

lemma ended_reader_drains:
  assumes "job_inv n j" and "job_status j \<noteq> StatusRunning" and "reader_inv j r" and "reading (rd_pc r)"
  shows "\<exists>es r'. run_events (\<lambda>e. reader_step e j) es r = Some r' \<and> rd_pc r' = RDone ByTerminal
    \<and> rd_delivered r' = job_ticks j \<and> length es \<le> Suc (reads_left j r)"
  using assms(3,4)
proof (induction "reads_left j r" arbitrary: r rule: less_induct)
  case less
  obtain r' where r': "reader_step (next_event (rd_pc r)) j r = Some r'"
    "rd_pc r' = RDone ByTerminal \<or> reading (rd_pc r') \<and> reads_left j r' < reads_left j r"
    using ended_reader_step [OF assms(1,2) less.prems] by blast
  have inv': "reader_inv j r'" by (rule reader_step_inv [OF assms(1) less.prems(1) r'(1)])
  from r'(2) show ?case
  proof
    assume "rd_pc r' = RDone ByTerminal"
    with inv' r'(1) show ?thesis
      by (intro exI [of _ "[next_event (rd_pc r)]"] exI [of _ r']) (auto simp: reader_inv_def)
  next
    assume m: "reading (rd_pc r') \<and> reads_left j r' < reads_left j r"
    with less.hyps [of r'] inv' obtain es r'' where "run_events (\<lambda>e. reader_step e j) es r' = Some r''"
      "rd_pc r'' = RDone ByTerminal" "rd_delivered r'' = job_ticks j"
      "length es \<le> Suc (reads_left j r')" by blast
    with m r'(1) show ?thesis
      by (intro exI [of _ "next_event (rd_pc r) # es"] exI [of _ r'']) auto
  qed
qed

lemma reader_run_lift:
  assumes "js_readers s i = Some r" and "cd_pc (js_countdown s) \<noteq> CCrashed"
    and "run_events (\<lambda>e. reader_step e (js_job s)) es r = Some r'"
  shows "\<exists>s'. job_run (map (Reader i) es) s = Some s' \<and> js_countdown s' = js_countdown s
    \<and> js_readers s' i = Some r'"
  using assms
proof (induction es arbitrary: r s)
  case (Cons e es)
  then obtain q where q: "reader_step e (js_job s) r = Some q"
    "run_events (\<lambda>e. reader_step e (js_job s)) es q = Some r'" by (auto split: option.splits)
  let ?t = "s\<lparr>js_readers := (js_readers s)(i \<mapsto> q)\<rparr>"
  have "job_step (Reader i e) s = Some ?t" using Cons.prems(1,2) q(1) by (simp add: job_step_def)
  moreover obtain s' where "job_run (map (Reader i) es) ?t = Some s'" "js_countdown s' = js_countdown s"
    "js_readers s' i = Some r'" using Cons.IH [of ?t q] Cons.prems(2) q(2) by auto
  ultimately show ?case by auto
qed auto

text \<open>A \<open>Stop\<close> call whose job has finished returns in two steps.\<close>

lemma stop_run:
  assumes "js_stops s i = Some pc" and "job_finished (js_job s)" and "stop_inv (js_job s) pc"
    and "cd_pc (js_countdown s) \<noteq> CCrashed"
  shows "\<exists>s'. job_comes s s' \<and> js_countdown s' = js_countdown s \<and> js_stops s' i = Some (StopReturned (job_status (js_job s)))"
proof (cases pc)
  case StopWaiting
  let ?t = "s\<lparr>js_stops := (js_stops s)(i \<mapsto> StopReading)\<rparr>"
    and ?u = "s\<lparr>js_stops := (js_stops s)(i \<mapsto> StopReturned (job_status (js_job s)))\<rparr>"
  have "job_step (StepStop i) s = Some ?t" "job_step (StepStop i) ?t = Some ?u"
    using StopWaiting assms by (simp_all add: job_step_def stop_step_def Status_def)
  then have "job_comes s ?t" "job_comes ?t ?u" using job_comes_step by fastforce+
  then have "job_comes s ?u" by (rule comes_trans)
  then show ?thesis by (intro exI [of _ ?u]) simp
next
  case StopReading
  then have "job_step (StepStop i) s =
      Some (s\<lparr>js_stops := (js_stops s)(i \<mapsto> StopReturned (job_status (js_job s)))\<rparr>)"
    using assms by (simp add: job_step_def stop_step_def Status_def)
  from job_comes_step [OF this] show ?thesis
    by (intro exI [of _ "s\<lparr>js_stops := (js_stops s)(i \<mapsto> StopReturned (job_status (js_job s)))\<rparr>"]) simp
next
  case (StopReturned st)
  then show ?thesis using assms by (intro exI [of _ s]) (auto simp: stop_inv_def)
qed

section \<open>A run to look at\<close>

text \<open>
  A job of two counts with a reader and a caller of \<open>Stop\<close>: one tick is reported, one more after the
  timer, then the job is stopped, its end is audited and both the reader and the caller are served.
\<close>

definition sample_events :: "job_event list" where
  "sample_events =
     [OpenReader 0, Worker EvReport, Worker (EvDraw (1 / 2)), Worker (EvTime 600), Worker EvTimer,
      Worker EvReport, Reader 0 RdSnapshot, Reader 0 (RdYield True), Worker (EvDraw 0), CallStop 0,
      Worker EvCancelled, Worker EvFinish, Worker EvAudit, Worker EvCloseFinished, StepStop 0,
      Worker EvDeferCancel, Reader 0 (RdYield True), StepStop 0, Reader 0 RdBatchEnd,
      Reader 0 RdSnapshot, Reader 0 (RdYield True)]"

definition sample_start :: job_sys where
  "sample_start = (case NewJob None 0 ''a/1'' 2 1000 (Some \<lparr>bound_attrs = [], discards = False\<rparr>) of
     Inr s \<Rightarrow> s | Inl e \<Rightarrow> undefined)"

definition sample_end :: job_sys where
  "sample_end = the (job_run sample_events sample_start)"

definition sample_middle :: job_sys where
  "sample_middle = the (job_run (take 8 sample_events) sample_start)"

lemma sample_new:
  "NewJob None 0 ''a/1'' 2 1000 (Some \<lparr>bound_attrs = [], discards = False\<rparr>) = Inr sample_start"
  by (simp add: sample_start_def NewJob_def MaxCount_def)

lemmas sample_run_defs = sample_start_def NewJob_def MaxCount_def sample_events_def job_step_def
  reportProgress_def close_changed_def setTerminal_def tickInterval_def clippedAt_def new_reader_def
  Let_def cancel_with_def OrDiscard_def auditTransition_def log_attrs_def stop_step_def Status_def

lemma sample_middle_run: "job_run (take 8 sample_events) sample_start = Some sample_middle"
  by (simp add: sample_middle_def sample_run_defs)

lemma sample_end_run: "job_run sample_events sample_start = Some sample_end"
  by (simp add: sample_end_def sample_run_defs)

lemma sample_reaches: "job_reaches sample_start sample_end" "job_reaches sample_start sample_middle"
  by (rule reaches_run [OF reaches_start sample_end_run], rule reaches_run [OF reaches_start sample_middle_run])

lemma sample_end_facts:
  "job_ticks (js_job sample_end) =
     [Progress 0 2, Progress 600 1, Stopped (Sentinel (SStd CtxCanceled))]"
  "job_status (js_job sample_end) = StatusStopped" "cd_pc (js_countdown sample_end) = CDone"
  "js_stops sample_end 0 = Some (StopReturned StatusStopped)"
  "js_readers sample_end 0 = Some \<lparr>rd_pc = RDone ByTerminal, rd_cursor = 3,
     rd_delivered = job_ticks (js_job sample_end), rd_ctxDone = False\<rparr>"
  "length (cd_log (js_countdown sample_end)) = 1"
  by (simp_all add: sample_end_def sample_run_defs)

lemma sample_middle_facts:
  "job_status (js_job sample_middle) = StatusRunning" "cd_pc (js_countdown sample_middle) = CLoop 0"
  "js_readers sample_middle 0 = Some \<lparr>rd_pc = RBatch 0 1 2 2, rd_cursor = 2,
     rd_delivered = [Progress 0 2], rd_ctxDone = False\<rparr>"
  by (simp_all add: sample_middle_def sample_run_defs)

section \<open>The shape of a buffer\<close>

lemma job_inv_shape:
  assumes "job_inv n j" and "Suc i < length (job_ticks j)"
  shows "(\<exists>e. job_ticks j ! i = Progress e (n - int i)) \<and> \<not> IsTerminal (job_ticks j ! i)"
proof -
  have "\<not> IsTerminal (job_ticks j ! i)" using job_inv_terminal_index [OF assms(1), of i] assms(2) by auto
  moreover have "\<exists>e. job_ticks j ! i = Progress e (n - int i)"
    using assms unfolding job_inv_def progress_run_def by (auto simp: nth_append split: if_splits)
  ultimately show ?thesis by blast
qed

lemma job_inv_running_iff:
  assumes "job_inv n j"
  shows "job_status j = StatusRunning \<longleftrightarrow> none_terminal (job_ticks j)"
proof
  assume "job_status j = StatusRunning"
  with assms progress_run_not_terminal show "none_terminal (job_ticks j)"
    by (auto simp: none_terminal_def job_inv_def)
next
  assume "none_terminal (job_ticks j)"
  with job_inv_last_terminal [OF assms] last_in_set show "job_status j = StatusRunning"
    unfolding none_terminal_def by blast
qed

lemma job_inv_sorted:
  assumes "job_inv n j"
  shows "sorted (map tick_elapsed (butlast (job_ticks j)))"
proof (cases "job_status j = StatusRunning")
  case True
  with assms have "sorted (map tick_elapsed (job_ticks j))" by (simp add: job_inv_def progress_run_def)
  then show ?thesis by (simp add: map_butlast sorted_butlast)
next
  case False
  with assms show ?thesis by (auto simp: job_inv_def progress_run_def)
qed

lemma job_inv_last:
  assumes "job_inv n j"
  shows "case job_status j of
      StatusRunning \<Rightarrow> True
    | StatusCompleted \<Rightarrow> int (length (job_ticks j)) = n + 1 \<and> (\<exists>e. last (job_ticks j) = Progress e 0)
    | StatusStopped \<Rightarrow> (\<exists>why. job_ctx j = Some why \<and> last (job_ticks j) = Stopped (Sentinel (SStd why)))
    | StatusFailed \<Rightarrow> (\<exists>e. last (job_ticks j) = PanicError (Some e) \<and> errors_is e (SWorker ErrJobPanic))"
proof (cases "job_status j = StatusRunning")
  case False
  then obtain ts t where t: "job_ticks j = ts @ [t]" "ends_with (job_status j) t"
    "job_status j = StatusCompleted \<Longrightarrow> int (length ts) = n"
    "job_status j = StatusStopped \<Longrightarrow> \<exists>why. job_ctx j = Some why \<and> t = Stopped (Sentinel (SStd why))"
    using assms unfolding job_inv_def by auto
  then show ?thesis
    by (cases "(job_status j, t)" rule: ends_with.cases) auto
qed simp

section \<open>Runs without a panic\<close>

text \<open>The audit record of the end a job has come to.\<close>

definition end_record :: "job \<Rightarrow> log_record list" where
  "end_record j = auditTransition j (job_status j) (last (job_ticks j))"

definition quiet :: "countdown \<Rightarrow> bool" where
  "quiet c \<longleftrightarrow>
     (case cd_pc c of
        CRecover v \<Rightarrow> False
      | CCrashed \<Rightarrow> False
      | CFinish st t recovering \<Rightarrow> \<not> recovering
      | CAudit st t recovering \<Rightarrow> \<not> recovering \<and> cd_log c = []
      | CCloseFinished \<Rightarrow> cd_log c = end_record (cd_job c)
      | CCancel \<Rightarrow> cd_log c = end_record (cd_job c)
      | CDone \<Rightarrow> cd_log c = end_record (cd_job c)
      | _ \<Rightarrow> True)"

lemma end_record_cancel [simp]: "end_record (cancel_with w j) = end_record j"
  by (simp add: end_record_def auditTransition_def)

lemma end_record_finished [simp]: "end_record (j\<lparr>job_finished := b\<rparr>) = end_record j"
  by (simp add: end_record_def auditTransition_def)

lemma quiet_step:
  assumes inv: "cd_inv c" and q: "quiet c" and step: "countdown_step e c = Some c'" and np: "\<not> is_panic e"
  shows "quiet c'"
proof (cases e)
  case (EvTime t)
  with q step show ?thesis by (auto simp: quiet_def split: if_splits cpc.splits)
next
  case (EvParentDone w)
  with q step show ?thesis by (auto simp: quiet_def split: cpc.splits)
next
  case EvReport
  obtain f where f: "\<And>t. reportProgress t (cd_job c) = (f t, Returned ())"
    using reportProgress_returns [OF cd_invD(3) [OF inv]] by metis
  from EvReport step q show ?thesis by (auto simp: quiet_def f split: cpc.splits)
next
  case EvFinish
  with step obtain st t rec where pc: "cd_pc c = CFinish st t rec" by (cases "cd_pc c") auto
  with q have "\<not> rec" by (simp add: quiet_def)
  with pc cd_invD(4) [OF inv] have run: "job_status (cd_job c) = StatusRunning" by simp
  have "cd_log c = []" using cd_invD(5) [OF inv] pc by (simp add: log_inv_def)
  with EvFinish step pc \<open>\<not> rec\<close> setTerminal_running [OF run job_inv_open [OF cd_invD(3) [OF inv] run]]
  show ?thesis by (auto simp: quiet_def)
next
  case EvAudit
  with step obtain st t rec where pc: "cd_pc c = CAudit st t rec" by (cases "cd_pc c") auto
  with EvAudit step q cd_invD(4) [OF inv] show ?thesis by (auto simp: quiet_def end_record_def)
qed (use assms cd_invD(4) [OF inv] in \<open>auto simp: quiet_def counting_def Let_def
       split: cpc.splits if_splits option.splits\<close>)

definition panic_free :: "job_event list \<Rightarrow> bool" where
  "panic_free = list_all (\<lambda>e. case e of Worker c \<Rightarrow> \<not> is_panic c | _ \<Rightarrow> True)"

lemma quiet_job_step:
  assumes "sys_inv s" and "quiet (js_countdown s)" and "job_step e s = Some s'" and "panic_free [e]"
  shows "quiet (js_countdown s')"
proof (cases e)
  case (Worker c)
  with assms quiet_step [OF sys_invD(1) [OF assms(1)] assms(2)] show ?thesis
    by (auto simp: job_step_def panic_free_def split: if_splits)
next
  case (CallStop i)
  with assms show ?thesis
    by (auto simp: job_step_def quiet_def split: if_splits option.splits cpc.splits)
qed (use assms in \<open>auto simp: job_step_def split: if_splits option.splits\<close>)

lemma quiet_run:
  "job_run es s = Some s' \<Longrightarrow> sys_inv s \<Longrightarrow> quiet (js_countdown s) \<Longrightarrow> panic_free es
    \<Longrightarrow> quiet (js_countdown s')"
proof (induction es arbitrary: s)
  case (Cons e es)
  then obtain t where t: "job_step e s = Some t" "job_run es t = Some s'" by (auto split: option.splits)
  have p: "panic_free [e]" "panic_free es" using Cons.prems(4) by (simp_all add: panic_free_def)
  show ?case
    using Cons.IH [OF t(2) conjunct1 [OF job_step_inv [OF Cons.prems(2) t(1)]]
        quiet_job_step [OF Cons.prems(2,3) t(1) p(1)] p(2)] .
qed simp

lemma NewJob_quiet: "NewJob ctxErr now jobID count mean lg = Inr s \<Longrightarrow> quiet (js_countdown s)"
  by (auto simp: NewJob_def quiet_def)

section \<open>A pending call of Stop\<close>

lemma stop_completes:
  assumes inv: "sys_inv s" and live: "cd_pc (js_countdown s) \<noteq> CCrashed" and call: "js_stops s i = Some pc"
  shows "\<exists>t. job_comes s t \<and> cd_pc (js_countdown t) = CDone
    \<and> js_stops t i = Some (StopReturned (job_status (js_job t))) \<and> job_status (js_job t) \<noteq> StatusRunning"
proof -
  obtain c where c: "job_comes s (s\<lparr>js_countdown := c\<rparr>)" "cd_pc c = CDone"
    using worker_finishes [OF inv live] by blast
  let ?t = "s\<lparr>js_countdown := c\<rparr>"
  have t: "sys_inv ?t" by (rule job.reaches_keeps [OF comes_reaches [OF c(1)] inv])
  have f: "job_finished (js_job ?t)" using done_finished [OF sys_invD(1) [OF t]] c(2) by simp
  have "stop_inv (js_job ?t) pc" using sys_invD(3) [OF t, of i pc] call by simp
  with stop_run [of ?t i pc] f c(2) call obtain u where u: "job_comes ?t u"
    "js_countdown u = c" "js_stops u i = Some (StopReturned (job_status (cd_job c)))" by auto
  moreover have "job_status (cd_job c) \<noteq> StatusRunning"
    using cd_inv_finished [OF sys_invD(1) [OF t]] f by simp
  ultimately show ?thesis using c comes_trans by (intro exI [of _ u]) auto
qed

text \<open>A call that has returned stays so, and only finitely many are ever made.\<close>

lemma stop_returned_step:
  assumes "js_stops s i = Some (StopReturned st)" and "job_step e s = Some s'"
  shows "js_stops s' i = Some (StopReturned st)"
  using assms by (cases e) (auto simp: job_step_def stop_step_def split: if_splits option.splits)

lemma stop_returned_run:
  "job_run es s = Some s' \<Longrightarrow> js_stops s i = Some (StopReturned st) \<Longrightarrow> js_stops s' i = Some (StopReturned st)"
  by (induction es arbitrary: s) (auto split: option.splits dest: stop_returned_step)

lemma stop_returned_comes:
  "job_comes s s' \<Longrightarrow> js_stops s i = Some (StopReturned st) \<Longrightarrow> js_stops s' i = Some (StopReturned st)"
  unfolding comes_to_def using stop_returned_run by blast

lemma stop_called_step: "job_step e s = Some s' \<Longrightarrow> js_stops s i \<noteq> None \<Longrightarrow> js_stops s' i \<noteq> None"
  by (cases e) (auto simp: job_step_def split: if_splits option.splits)

lemma finite_stops_step: "job_step e s = Some s' \<Longrightarrow> finite (dom (js_stops s)) \<Longrightarrow> finite (dom (js_stops s'))"
  by (cases e) (auto simp: job_step_def split: if_splits option.splits)

lemma NewJob_stops: "NewJob ctxErr now jobID count mean lg = Inr s \<Longrightarrow> js_stops s = Map.empty"
  by (auto simp: NewJob_def)

section \<open>The properties\<close>

text \<open>
  A job starts if and only if its count is between 1 and 100 and its mean interval is positive;
  a bad count is reported before a bad interval, each by its own sentinel.
\<close>

lemma NewJob_validates:
  "is_ok (NewJob ctxErr now jobID count mean lg) = (1 \<le> count \<and> count \<le> 100 \<and> 0 < mean)
   \<and> fails_with (NewJob ctxErr now jobID count mean lg) (SWorker ErrInvalidCount)
       = (count < 1 \<or> 100 < count)
   \<and> fails_with (NewJob ctxErr now jobID count mean lg) (SWorker ErrInvalidMeanInterval)
       = (1 \<le> count \<and> count \<le> 100 \<and> mean \<le> 0)"
  by (auto simp: NewJob_def MaxCount_def fail_if_def)

text \<open>
  C10. The tick buffer, in every state a job can reach. It never outgrows the \<open>count + 1\<close> slots
  \<open>NewJob\<close> reserves, so its array never moves under a reader; every tick but the last is the progress
  of the next count, in order of elapsed time, and not terminal; a terminal tick is present exactly
  when the status is terminal, and it is the tick of that status: zero remaining after all \<open>count\<close>
  ticks, the cancellation cause of the job's context, or an error that wraps ErrJobPanic.
\<close>

theorem job_ticks_shape:
  assumes "NewJob ctxErr now jobID count mean lg = Inr s0" and "job_reaches s0 s"
  shows "let j = js_job s; ts = job_ticks j in
    int (length ts) \<le> count + 1
    \<and> (\<forall>i. Suc i < length ts \<longrightarrow>
         (\<exists>e. ts ! i = Progress e (count - int i)) \<and> \<not> IsTerminal (ts ! i))
    \<and> sorted (map tick_elapsed (butlast ts))
    \<and> (Status j = StatusRunning \<longleftrightarrow> (\<forall>t\<in>set ts. \<not> IsTerminal t))
    \<and> (case Status j of
         StatusRunning \<Rightarrow> True
       | StatusCompleted \<Rightarrow> int (length ts) = count + 1 \<and> (\<exists>e. last ts = Progress e 0)
       | StatusStopped \<Rightarrow> (\<exists>why. job_ctx j = Some why \<and> last ts = Stopped (Sentinel (SStd why)))
       | StatusFailed \<Rightarrow> (\<exists>e. last ts = PanicError (Some e) \<and> errors_is e (SWorker ErrJobPanic)))"
proof -
  note inv = reachable_job_inv [OF assms]
  show ?thesis
    unfolding Let_def Status_def
    using job_inv_length [OF inv] job_inv_shape [OF inv] job_inv_sorted [OF inv]
      job_inv_running_iff [OF inv] job_inv_last [OF inv]
    by (intro conjI) (auto simp: none_terminal_def)
qed

theorem job_ticks_shape_witness:
  "int (length (job_ticks (js_job sample_end))) \<le> 2 + 1
   \<and> sorted (map tick_elapsed (butlast (job_ticks (js_job sample_end))))"
  using job_ticks_shape [OF sample_new sample_reaches(1)] by (simp add: Let_def)

text \<open>
  C16. The end of a job is final and its buffer only grows: whatever happens after a reachable state,
  the ticks recorded so far stay where they are, a terminal status never changes, and not one tick
  follows a terminal one.
\<close>

theorem job_end_is_final:
  assumes "NewJob ctxErr now jobID count mean lg = Inr s0" and "job_reaches s0 s" and "job_reaches s t"
  shows "(\<exists>us. job_ticks (js_job t) = job_ticks (js_job s) @ us)
    \<and> (Status (js_job s) \<noteq> StatusRunning \<longrightarrow>
         Status (js_job t) = Status (js_job s) \<and> job_ticks (js_job t) = job_ticks (js_job s))"
proof -
  have "evolves (js_job s) (js_job t)"
    using job.reaches_rel [OF assms(3) reachable_inv(1) [OF assms(1,2)]] .
  then show ?thesis unfolding evolves_def Status_def by auto
qed

theorem job_end_is_final_witness:
  "Status (js_job sample_end) = StatusStopped
   \<and> (\<exists>us. job_ticks (js_job sample_end) = job_ticks (js_job sample_end) @ us)"
  using job_end_is_final [OF sample_new sample_reaches(1) reaches_start]
  by (simp add: sample_end_facts Status_def)

text \<open>
  C17. No critical section of a reachable job panics, so none is left by a panic with its channel
  closed twice: whatever tick is reported and whatever end is set, the section returns.
\<close>

theorem job_locks_never_panic:
  assumes "NewJob ctxErr now jobID count mean lg = Inr s0" and "job_reaches s0 s"
  shows "snd (reportProgress t (js_job s)) = Returned ()
    \<and> snd (setTerminal st t (js_job s)) = Returned (Status (js_job s) = StatusRunning)"
proof -
  note inv = reachable_job_inv [OF assms]
  show ?thesis
    using job_inv_open [OF inv]
    by (cases "job_status (js_job s) = StatusRunning")
       (simp_all add: reportProgress_running setTerminal_running reportProgress_finished
          setTerminal_finished Status_def)
qed

theorem job_locks_never_panic_witness:
  "snd (setTerminal StatusStopped (Stopped (Sentinel (SStd CtxCanceled))) (js_job sample_middle))
     = Returned True"
  using job_locks_never_panic [OF sample_new sample_reaches(2)]
  by (simp add: sample_middle_facts Status_def)

text \<open>
  C11. A reader sees the job's ticks, all of them and in order: at any moment what it was yielded is
  the first part of the buffer; an iteration that ended on a terminal tick yielded the whole buffer of
  an ended job; and one that is still going was yielded nothing terminal.
\<close>

theorem reader_sees_every_tick:
  assumes "NewJob ctxErr now jobID count mean lg = Inr s0" and "job_reaches s0 s"
    and "js_readers s i = Some r"
  shows "(\<exists>k\<le>length (job_ticks (js_job s)). rd_delivered r = take k (job_ticks (js_job s)))
    \<and> (rd_pc r = RDone ByTerminal \<longrightarrow>
         rd_delivered r = job_ticks (js_job s) \<and> Status (js_job s) \<noteq> StatusRunning)
    \<and> (reading (rd_pc r) \<longrightarrow> (\<forall>t\<in>set (rd_delivered r). \<not> IsTerminal t))"
proof -
  have inv: "reader_inv (js_job s) r" using sys_invD(2) [OF reachable_inv(1) [OF assms(1,2)] assms(3)] .
  show ?thesis
  proof (cases "rd_pc r")
    case (RDone why)
    with inv show ?thesis by (cases why) (auto simp: reader_inv_def Status_def)
  next
    case (RBatch lo i hi wait)
    with inv show ?thesis by (auto simp: reader_inv_def none_terminal_def intro!: exI [of _ i])
  qed (use inv in \<open>auto simp: reader_inv_def none_terminal_def\<close>)
qed

theorem reader_sees_every_tick_witness:
  "rd_delivered (the (js_readers sample_end 0)) = job_ticks (js_job sample_end)
   \<and> Status (js_job sample_end) \<noteq> StatusRunning"
  using reader_sees_every_tick [OF sample_new sample_reaches(1) sample_end_facts(5)]
  by (simp add: sample_end_facts(5))

text \<open>
  C12. No wakeup is lost: a reader that blocks has been yielded everything, unless the channel it waits
  on is closed already, in which case it can wake at once. A job that has ended, or has a tick the
  reader was not yielded, never leaves it blocked.
\<close>

theorem reader_never_misses_wakeup:
  assumes "NewJob ctxErr now jobID count mean lg = Inr s0" and "job_reaches s0 s"
    and "js_readers s i = Some r" and "rd_pc r = RSelect wait" and "cd_pc (js_countdown s) \<noteq> CCrashed"
  shows "job_step (Reader i RdWake) s \<noteq> None
    \<or> Status (js_job s) = StatusRunning \<and> rd_delivered r = job_ticks (js_job s)"
proof -
  have inv: "reader_inv (js_job s) r" using sys_invD(2) [OF reachable_inv(1) [OF assms(1,2)] assms(3)] .
  with assms(4) have d: "rd_delivered r = take (rd_cursor r) (job_ticks (js_job s))"
    "holds_channel (js_job s) (rd_cursor r) wait" by (auto simp: reader_inv_def)
  show ?thesis
  proof (cases "wait \<in> set (job_closed (js_job s))")
    case True
    with assms(3-5) show ?thesis by (simp add: job_step_def)
  next
    case False
    with d show ?thesis by (simp add: holds_channel_def Status_def)
  qed
qed

definition sample_blocked :: job_sys where
  "sample_blocked = the (job_run [OpenReader 0, Reader 0 RdSnapshot, Reader 0 RdBatchEnd, Worker EvReport]
     sample_start)"

lemma sample_blocked_run:
  "job_run [OpenReader 0, Reader 0 RdSnapshot, Reader 0 RdBatchEnd, Worker EvReport] sample_start
     = Some sample_blocked"
  by (simp add: sample_blocked_def sample_run_defs)

lemma sample_blocked_facts:
  "js_readers sample_blocked 0 = Some \<lparr>rd_pc = RSelect 0, rd_cursor = 0, rd_delivered = [], rd_ctxDone = False\<rparr>"
  "cd_pc (js_countdown sample_blocked) = CLoop 1" "job_ticks (js_job sample_blocked) = [Progress 0 2]"
  by (simp_all add: sample_blocked_def sample_run_defs)

theorem reader_never_misses_wakeup_witness: "job_step (Reader 0 RdWake) sample_blocked \<noteq> None"
  using reader_never_misses_wakeup [OF sample_new reaches_run [OF reaches_start sample_blocked_run]
      sample_blocked_facts(1)]
  by (simp add: sample_blocked_facts)

text \<open>
  C15. The goroutine does bounded work: in any run, however its steps interleave with the clock, the
  readers, the callers of \<open>Stop\<close>, cancellation and panics, it takes at most \<open>3 * count + 8\<close> steps, so
  at most 308.
\<close>

theorem job_work_is_bounded:
  assumes "NewJob ctxErr now jobID count mean lg = Inr s0" and "job_run es s0 = Some s"
  shows "work_in es \<le> 3 * nat count + 8 \<and> work_in es \<le> 308"
proof -
  have "cd_left (js_countdown s0) = 3 * nat count + 8" using assms(1) by (auto simp: NewJob_def)
  moreover have "count \<le> 100" using NewJob_ok [OF assms(1)] by (simp add: MaxCount_def)
  ultimately show ?thesis
    using job_run_work [OF conjunct1 [OF NewJob_ok [OF assms(1)]] assms(2)] by simp
qed

theorem job_work_is_bounded_witness: "work_in sample_events \<le> 14 \<and> work_in sample_events = 10"
proof -
  have "work_in sample_events = 10" by (simp add: work_in_def sample_events_def)
  with job_work_is_bounded [OF sample_new sample_end_run] show ?thesis by simp
qed

text \<open>
  \<open>Stop\<close> returns, and with the end of the job: from any state with a pending call, unless the
  process has crashed, the goroutine comes to its end by itself, without a panic or a cancellation from
  outside, and the call then returns. What a call returns is the status of the job, never RUNNING, and the job was cancelled by then.
\<close>

lemma Stop_returns:
  assumes "NewJob ctxErr now jobID count mean lg = Inr s0" and "job_reaches s0 s"
    and "js_stops s i = Some pc"
  shows "(cd_pc (js_countdown s) \<noteq> CCrashed \<longrightarrow>
       (\<exists>t. job_comes s t
          \<and> js_stops t i = Some (StopReturned (Status (js_job t))) \<and> Status (js_job t) \<noteq> StatusRunning))
    \<and> (\<forall>st. pc = StopReturned st \<longrightarrow>
         st = Status (js_job s) \<and> st \<noteq> StatusRunning \<and> job_ctx (js_job s) \<noteq> None)"
proof -
  note inv = reachable_inv(1) [OF assms(1,2)]
  have "\<exists>t. job_comes s t
          \<and> js_stops t i = Some (StopReturned (Status (js_job t))) \<and> Status (js_job t) \<noteq> StatusRunning"
    if "cd_pc (js_countdown s) \<noteq> CCrashed"
    using stop_completes [OF inv that assms(3)] unfolding Status_def by blast
  moreover have "st = Status (js_job s) \<and> st \<noteq> StatusRunning \<and> job_ctx (js_job s) \<noteq> None"
    if "pc = StopReturned st" for st
    using sys_invD(3) [OF inv assms(3)] that by (auto simp: stop_inv_def Status_def)
  ultimately show ?thesis by blast
qed

text \<open>
  A subscriber is served to the end: from any state in which a reader is still reading, unless the
  process has crashed, the goroutine comes to its end by itself, without a panic or a cancellation from
  outside, and the reader then reaches the terminal tick with the whole buffer yielded to it, in at most as many steps as there are ticks and
  four more.
\<close>

lemma subscriber_reaches_end:
  assumes "NewJob ctxErr now jobID count mean lg = Inr s0" and "job_reaches s0 s"
    and "js_readers s i = Some r" and "reading (rd_pc r)" and "cd_pc (js_countdown s) \<noteq> CCrashed"
  shows "\<exists>u fs t r'. job_comes s u \<and> job_run (map (Reader i) fs) u = Some t \<and> js_readers t i = Some r' \<and> rd_pc r' = RDone ByTerminal
    \<and> rd_delivered r' = job_ticks (js_job t) \<and> length fs \<le> length (job_ticks (js_job t)) + 4"
proof -
  note inv = reachable_inv(1) [OF assms(1,2)]
  obtain c where es: "job_comes s (s\<lparr>js_countdown := c\<rparr>)" "cd_pc c = CDone"
    using worker_finishes [OF inv assms(5)] by blast
  let ?t = "s\<lparr>js_countdown := c\<rparr>"
  have t: "sys_inv ?t" by (rule job.reaches_keeps [OF comes_reaches [OF es(1)] inv])
  note ct = sys_invD(1) [OF t]
  have st: "job_status (cd_job c) \<noteq> StatusRunning"
    using cd_inv_finished [OF ct] done_finished [OF ct] es(2) by simp
  have r: "reader_inv (cd_job c) r" using sys_invD(2) [OF t, of i r] assms(3) by simp
  obtain fs r' where fs: "run_events (\<lambda>e. reader_step e (cd_job c)) fs r = Some r'"
    "rd_pc r' = RDone ByTerminal" "rd_delivered r' = job_ticks (cd_job c)"
    "length fs \<le> Suc (reads_left (cd_job c) r)"
    using ended_reader_drains [OF cd_invD(3) [OF ct] _ _ assms(4)] st r by auto
  obtain u where "job_run (map (Reader i) fs) ?t = Some u" "js_countdown u = c" "js_readers u i = Some r'"
    using reader_run_lift [of ?t i r fs r'] assms(3) es(2) fs(1) by auto
  moreover have "reads_left (cd_job c) r \<le> length (job_ticks (cd_job c)) + 3"
    by (auto simp: reads_left_def split: rpc.split)
  ultimately show ?thesis
    using es fs by (intro exI [of _ ?t] exI [of _ fs] exI [of _ u] exI [of _ r']) auto
qed

text \<open>
  The end of a job is audited at most once, at level Error exactly when it failed and with the
  failure's error, and only after the end was recorded. In a run without a panic, the goroutine that
  is done has audited it exactly once, however its end came about.
\<close>

lemma job_end_audited_once:
  assumes "NewJob ctxErr now jobID count mean lg = Inr s0" and "job_run es s0 = Some s"
  shows "(cd_log (js_countdown s) = [] \<or>
      Status (js_job s) \<noteq> StatusRunning
      \<and> cd_log (js_countdown s) =
          log_attrs (OrDiscard lg) (if Status (js_job s) = StatusFailed then LevelError else LevelInfo)
            ''job finished''
            ([(''job_id'', AStr jobID), (''status'', AStr (status_text (Status (js_job s))))]
             @ (case last (job_ticks (js_job s)) of
                  PanicError (Some e) \<Rightarrow> [(''error'', AErr (Wrap1 ''job failure: '' e))] | _ \<Rightarrow> [])))
    \<and> (panic_free es \<longrightarrow> cd_pc (js_countdown s) = CDone \<longrightarrow>
         cd_log (js_countdown s) = end_record (js_job s))"
proof -
  note new = NewJob_ok [OF assms(1)]
  have inv: "sys_inv s" by (rule job.run_keeps [OF assms(2) conjunct1 [OF new]])
  have "job_reaches s0 s" by (rule reaches_run [OF reaches_start assms(2)])
  then have ev: "evolves (js_job s0) (js_job s)" using job.reaches_rel new by blast
  then have keep: "job_ID (js_job s) = jobID" "job_logger (js_job s) = OrDiscard lg"
    using new unfolding evolves_def by auto
  note c = cd_invD(4,5) [OF sys_invD(1) [OF inv]]
  have "cd_log (js_countdown s) = [] \<or> Status (js_job s) \<noteq> StatusRunning
      \<and> cd_log (js_countdown s) = end_record (js_job s)"
    using c by (auto simp: log_inv_def end_record_def Status_def split: if_splits)
  moreover have "last (job_ticks (js_job s)) \<noteq> PanicError None" if "Status (js_job s) \<noteq> StatusRunning"
    using job_inv_last_terminal [OF cd_invD(3) [OF sys_invD(1) [OF inv]]] that
    by (cases "job_status (js_job s)") (auto simp: Status_def)
  ultimately show ?thesis
    using quiet_run [OF assms(2) conjunct1 [OF new] NewJob_quiet [OF assms(1)]] keep
    by (auto simp: end_record_def auditTransition_def quiet_def Status_def split: tick.splits option.splits)
qed

end
