(* ===== verification/Fairness.thy ===== *)
theory Fairness
  imports Transition
begin

text \<open>
  Infinite runs of a machine and what a fair scheduler owes them. A run is a sequence of states with
  the event, if any, that leads from each to the next. The scheduler is fair to a kind of events when
  it does not leave that kind ready for ever without taking one. \<open>fair_steps\<close> is the argument that such a run gets to its goal: no step
  raises a measure, and each step of the kind lowers it.
\<close>

definition follows :: "('e \<Rightarrow> 's \<Rightarrow> 's option) \<Rightarrow> (nat \<Rightarrow> 's) \<Rightarrow> (nat \<Rightarrow> 'e option) \<Rightarrow> bool" where
  "follows step \<sigma> ev \<longleftrightarrow>
     (\<forall>n. case ev n of None \<Rightarrow> \<sigma> (Suc n) = \<sigma> n | Some e \<Rightarrow> step e (\<sigma> n) = Some (\<sigma> (Suc n)))"

definition ready :: "('e \<Rightarrow> 's \<Rightarrow> 's option) \<Rightarrow> ('e \<Rightarrow> bool) \<Rightarrow> 's \<Rightarrow> bool" where
  "ready step kind s \<longleftrightarrow> (\<exists>e. kind e \<and> step e s \<noteq> None)"

definition fair :: "('e \<Rightarrow> 's \<Rightarrow> 's option) \<Rightarrow> ('e \<Rightarrow> bool) \<Rightarrow> (nat \<Rightarrow> 's) \<Rightarrow> (nat \<Rightarrow> 'e option) \<Rightarrow> bool" where
  "fair step kind \<sigma> ev \<longleftrightarrow>
     (\<forall>n. (\<forall>m\<ge>n. ready step kind (\<sigma> m)) \<longrightarrow> (\<exists>m\<ge>n. \<exists>e. ev m = Some e \<and> kind e))"

lemma readyI: "kind e \<Longrightarrow> step e s \<noteq> None \<Longrightarrow> ready step kind s"
  unfolding ready_def by blast

lemma follows_step:
  assumes "follows step \<sigma> ev"
  shows "\<sigma> (Suc n) = \<sigma> n \<and> ev n = None \<or> (\<exists>e. ev n = Some e \<and> step e (\<sigma> n) = Some (\<sigma> (Suc n)))"
  using assms by (cases "ev n") (auto simp: follows_def split: option.splits dest!: spec [of _ n])

text \<open>What holds of a state and of every state a step leads to from there holds from then on.\<close>

lemma follows_stable:
  assumes run: "follows step \<sigma> ev" and "n \<le> m" and "P (\<sigma> n)"
    and "\<And>s e s'. P s \<Longrightarrow> step e s = Some s' \<Longrightarrow> P s'"
  shows "P (\<sigma> m)"
  using assms(2)
proof (induction m rule: dec_induct)
  case (step m)
  with follows_step [OF run, of m] assms(4) show ?case by auto
qed (rule assms(3))

lemma follows_reaches: "follows step \<sigma> ev \<Longrightarrow> reaches step (\<sigma> 0) (\<sigma> n)"
  using follows_stable [of step \<sigma> ev 0 n "reaches step (\<sigma> 0)"] by (auto intro: reaches.intros)

text \<open>A run is one, and is as fair, from any of its states on.\<close>

lemma follows_from: "follows step \<sigma> ev \<Longrightarrow> follows step (\<lambda>m. \<sigma> (n + m)) (\<lambda>m. ev (n + m))"
  unfolding follows_def add_Suc_right by blast

lemma fair_from:
  assumes "fair step kind \<sigma> ev"
  shows "fair step kind (\<lambda>m. \<sigma> (n + m)) (\<lambda>m. ev (n + m))"
  unfolding fair_def
proof (intro allI impI)
  fix k assume ready: "\<forall>m\<ge>k. ready step kind (\<sigma> (n + m))"
  have "ready step kind (\<sigma> m)" if "n + k \<le> m" for m
    using ready that by (auto simp: le_iff_add add.assoc)
  with assms obtain m e where "m \<ge> n + k" "ev m = Some e" "kind e" unfolding fair_def by blast
  then show "\<exists>m\<ge>k. \<exists>e. ev (n + m) = Some e \<and> kind e" by (auto simp: le_iff_add add.assoc)
qed

text \<open>
  A run of a machine seen as a run of a part of it: what is ready in the part is ready in the whole,
  and what the whole does of that kind the part does.
\<close>

lemma fair_part:
  assumes "fair step kind \<sigma> ev" and "\<And>n. ready step' kind' (\<tau> n) \<Longrightarrow> ready step kind (\<sigma> n)"
    and "\<And>n e. ev n = Some e \<Longrightarrow> kind e \<Longrightarrow> \<exists>f. ev' n = Some f \<and> kind' f"
  shows "fair step' kind' \<tau> ev'"
  using assms unfolding fair_def by meson

lemma fair_by_rest:
  assumes "\<And>n. k \<le> n \<Longrightarrow> \<not> ready step kind (\<sigma> n)"
  shows "fair step kind \<sigma> ev"
  unfolding fair_def using assms by (meson max.cobounded1 max.cobounded2)

text \<open>A finite run passes through the states of its prefixes.\<close>

lemma run_prefix:
  assumes "run_events step es s = Some t" and "n < length es"
  shows "\<exists>u v. run_events step (take n es) s = Some u \<and> step (es ! n) u = Some v
    \<and> run_events step (take (Suc n) es) s = Some v"
proof -
  from assms(1) have "run_events step (take n es @ es ! n # drop (Suc n) es) s = Some t"
    by (simp add: id_take_nth_drop [OF assms(2), symmetric])
  then show ?thesis
    using assms(2) by (auto simp: run_events_append take_Suc_conv_app_nth split: option.splits)
qed

text \<open>The events taken from one instant to another, and that they are a run between its states.\<close>

definition taken :: "(nat \<Rightarrow> 'e option) \<Rightarrow> nat \<Rightarrow> nat \<Rightarrow> 'e list" where
  "taken ev n m = List.map_filter ev [n..<m]"

lemma taken_run:
  assumes "follows step \<sigma> ev" and "n \<le> m"
  shows "run_events step (taken ev n m) (\<sigma> n) = Some (\<sigma> m)"
  using assms(2)
proof (induction m rule: dec_induct)
  case (step m)
  with follows_step [OF assms(1), of m] show ?case
    by (auto simp: taken_def map_filter_def run_events_append)
qed (simp add: taken_def map_filter_def)

lemma taken_all: "(\<And>m e. ev m = Some e \<Longrightarrow> P e) \<Longrightarrow> list_all P (taken ev n m)"
  by (auto simp: taken_def map_filter_def list_all_iff)

text \<open>The run of a list of events, after which a machine goes on by one event at a time.\<close>

definition run_then :: "('e \<Rightarrow> 's \<Rightarrow> 's option) \<Rightarrow> 'e list \<Rightarrow> 's \<Rightarrow> (nat \<Rightarrow> 's) \<Rightarrow> nat \<Rightarrow> 's" where
  "run_then step es s later n =
     (if n < length es then the (run_events step (take n es) s) else later (n - length es))"

definition events_then :: "'e list \<Rightarrow> (nat \<Rightarrow> 'e) \<Rightarrow> nat \<Rightarrow> 'e option" where
  "events_then es tick n = Some (if n < length es then es ! n else tick (n - length es))"

lemma run_then_before:
  assumes "run_events step es s = Some (later 0)" and "n < length es"
  shows "step (es ! n) (run_then step es s later n) = Some (run_then step es s later (Suc n))"
proof (cases "Suc n < length es")
  case True
  with run_prefix [OF assms] assms(2) show ?thesis by (auto simp: run_then_def)
next
  case False
  with assms(2) have "take (Suc n) es = es" "Suc n - length es = 0" by simp_all
  with run_prefix [OF assms] assms False show ?thesis by (auto simp: run_then_def)
qed

lemma run_then_follows:
  assumes "run_events step es s = Some (later 0)" and "\<And>k. step (tick k) (later k) = Some (later (Suc k))"
  shows "follows step (run_then step es s later) (events_then es tick)"
  unfolding follows_def
proof
  fix n
  show "case events_then es tick n of None \<Rightarrow> run_then step es s later (Suc n) = run_then step es s later n
    | Some e \<Rightarrow> step e (run_then step es s later n) = Some (run_then step es s later (Suc n))"
  proof (cases "n < length es")
    case True
    with run_then_before [of step es s later n] assms(1) show ?thesis by (simp add: events_then_def)
  qed (use assms(2) [of "n - length es"] in \<open>simp add: events_then_def run_then_def Suc_diff_le\<close>)
qed

lemma run_then_later: "length es \<le> n \<Longrightarrow> run_then step es s later n = later (n - length es)"
  by (simp add: run_then_def)

lemma fair_then:
  assumes "\<And>k. \<not> ready step kind (later k)"
  shows "fair step kind (run_then step' es s later) ev"
  by (rule fair_by_rest [of "length es"]) (simp add: run_then_later assms)

text \<open>A measure that never rises is constant in the end.\<close>

lemma settles:
  fixes f :: "nat \<Rightarrow> nat"
  assumes "\<And>m. n \<le> m \<Longrightarrow> f (Suc m) \<le> f m"
  shows "\<exists>k\<ge>n. \<forall>m\<ge>k. f m = f k"
proof -
  obtain k where k: "k \<ge> n" "\<And>m. m \<ge> n \<Longrightarrow> f k \<le> f m"
    using ex_has_least_nat [of "\<lambda>m. m \<ge> n" n f] by auto
  have "f m = f k" if "m \<ge> k" for m
    using that
  proof (induction m rule: dec_induct)
    case (step m)
    with assms [of m] k(2) [of "Suc m"] k(1) show ?case by simp
  qed simp
  with k(1) show ?thesis by blast
qed

locale fair_steps =
  fixes step :: "'e \<Rightarrow> 's \<Rightarrow> 's option" and kind :: "'e \<Rightarrow> bool"
    and inv goal :: "'s \<Rightarrow> bool" and left :: "'s \<Rightarrow> nat"
  assumes step_moves: "inv s \<Longrightarrow> \<not> goal s \<Longrightarrow> step e s = Some s' \<Longrightarrow>
      goal s' \<or> inv s' \<and> left s' + (if kind e then 1 else 0) \<le> left s"
begin

lemma waits:
  assumes run: "follows step \<sigma> ev" and "inv (\<sigma> n)" and never: "\<And>m. n \<le> m \<Longrightarrow> \<not> goal (\<sigma> m)" and "n \<le> m"
  shows "inv (\<sigma> m)" "left (\<sigma> (Suc m)) + (if \<exists>e. ev m = Some e \<and> kind e then 1 else 0) \<le> left (\<sigma> m)"
proof -
  have one: "inv (\<sigma> (Suc k))
      \<and> left (\<sigma> (Suc k)) + (if \<exists>e. ev k = Some e \<and> kind e then 1 else 0) \<le> left (\<sigma> k)"
    if "inv (\<sigma> k)" "n \<le> k" for k
    using follows_step [OF run, of k] step_moves [OF that(1) never [OF that(2)]] never [of "Suc k"] that
    by fastforce
  show "inv (\<sigma> m)" using assms(4)
  proof (induction m rule: dec_induct)
    case (step m)
    then show ?case using one by blast
  qed (rule assms(2))
  then show "left (\<sigma> (Suc m)) + (if \<exists>e. ev m = Some e \<and> kind e then 1 else 0) \<le> left (\<sigma> m)"
    using one assms(4) by blast
qed

text \<open>
  A run that is fair to the kind gets to the goal, if in every stretch in which the measure stands
  still for good the kind comes to be ready for good.
\<close>

lemma gets_there:
  assumes run: "follows step \<sigma> ev" and fair: "fair step kind \<sigma> ev" and "inv (\<sigma> n)"
    and ready: "\<And>k. n \<le> k \<Longrightarrow> \<forall>m\<ge>k. inv (\<sigma> m) \<and> \<not> goal (\<sigma> m) \<and> left (\<sigma> m) = left (\<sigma> k)
        \<Longrightarrow> \<exists>m\<ge>k. \<forall>l\<ge>m. ready step kind (\<sigma> l)"
  shows "\<exists>m\<ge>n. goal (\<sigma> m)"
proof (rule ccontr)
  assume "\<not> (\<exists>m\<ge>n. goal (\<sigma> m))"
  then have never: "\<not> goal (\<sigma> m)" if "n \<le> m" for m using that by blast
  note w = waits [OF run assms(3) never]
  have "left (\<sigma> (Suc m)) \<le> left (\<sigma> m)" if "n \<le> m" for m using w(2) [OF _ that] by simp
  then obtain k where k: "k \<ge> n" "\<forall>m\<ge>k. left (\<sigma> m) = left (\<sigma> k)"
    using settles [of n "\<lambda>m. left (\<sigma> m)"] by auto
  with ready [of k] w(1) never obtain m where m: "m \<ge> k" "\<forall>l\<ge>m. ready step kind (\<sigma> l)"
    by (meson order_trans)
  with fair obtain l e where l: "l \<ge> m" "ev l = Some e" "kind e" unfolding fair_def by blast
  then have "left (\<sigma> (Suc l)) < left (\<sigma> l)" using w(2) [of l] m(1) k(1) by simp
  moreover have "left (\<sigma> (Suc l)) = left (\<sigma> l)"
    using k(2) l(1) m(1) by (metis le_Suc_eq order_trans)
  ultimately show False by simp
qed

end

end
