(* ===== verification/Fair_Job.thy ===== *)
theory Fair_Job
  imports Worker_Props Fairness
begin

text \<open>
  A job under a fair scheduler. \<open>Worker_Props\<close> shows that the goroutine can come to its end by itself;
  here it does, in every infinite run in which the clock passes every instant and no goroutine that is
  ready for good is left standing, and then every caller of \<open>Stop\<close> has its answer and every iteration ends.
\<close>

section \<open>What the scheduler owes a job\<close>

text \<open>
  The goroutine's own statements; what a caller of \<open>Stop\<close> does after its cancel; and what an iterator
  and the range over it do, until the range is left.
\<close>

fun statement :: "job_event \<Rightarrow> bool" where
  "statement (Worker e) \<longleftrightarrow> is_work e \<and> \<not> is_panic e"
| "statement e \<longleftrightarrow> False"

fun reads :: "nat \<Rightarrow> job_event \<Rightarrow> bool" where
  "reads i (Reader k e) \<longleftrightarrow> k = i \<and> e \<noteq> RdCancelled"
| "reads i e \<longleftrightarrow> False"

text \<open>
  A run in which the goroutine gets its turns, in a process that does not crash: the clock passes every
  instant, and the scheduler is fair to the goroutine. In a fair run it is fair to each caller and each
  reader, too. Everything else may happen or not, and in any order: panics, cancellations, calls, new readers.
\<close>

definition scheduled :: "(nat \<Rightarrow> job_sys) \<Rightarrow> (nat \<Rightarrow> job_event option) \<Rightarrow> bool" where
  "scheduled \<sigma> ev \<longleftrightarrow> follows job_step \<sigma> ev
     \<and> (\<forall>n. cd_pc (js_countdown (\<sigma> n)) \<noteq> CCrashed)
     \<and> (\<forall>t n. \<exists>m\<ge>n. t \<le> cd_now (js_countdown (\<sigma> m)))
     \<and> fair job_step statement \<sigma> ev"

definition fair_run :: "job_sys \<Rightarrow> (nat \<Rightarrow> job_sys) \<Rightarrow> (nat \<Rightarrow> job_event option) \<Rightarrow> bool" where
  "fair_run s0 \<sigma> ev \<longleftrightarrow> \<sigma> 0 = s0 \<and> scheduled \<sigma> ev
     \<and> (\<forall>i. fair job_step (\<lambda>e. e = StepStop i) \<sigma> ev)
     \<and> (\<forall>i. fair job_step (reads i) \<sigma> ev)"

lemma scheduledD:
  assumes "scheduled \<sigma> ev"
  shows "follows job_step \<sigma> ev" "cd_pc (js_countdown (\<sigma> n)) \<noteq> CCrashed"
    "\<exists>m\<ge>n. t \<le> cd_now (js_countdown (\<sigma> m))" "fair job_step statement \<sigma> ev"
  using assms by (auto simp: scheduled_def)

lemma fair_runD:
  assumes "fair_run s0 \<sigma> ev"
  shows "\<sigma> 0 = s0" "follows job_step \<sigma> ev" "scheduled \<sigma> ev"
    "fair job_step (\<lambda>e. e = StepStop i) \<sigma> ev" "fair job_step (reads i) \<sigma> ev"
  using assms by (auto simp: fair_run_def scheduled_def)

section \<open>The goroutine ends\<close>

abbreviation job_ended :: "job_sys \<Rightarrow> bool" where
  "job_ended s \<equiv> cd_pc (js_countdown s) = CDone"

interpretation ending: fair_steps job_step statement sys_inv job_ended "\<lambda>s. cd_left (js_countdown s)"
proof
  fix s e s'
  assume inv: "sys_inv s" and step: "job_step e s = Some s'"
  have "(if statement e then 1 else 0) \<le> work_in [e]"
    by (cases e) (auto simp: work_in_def)
  with job_step_work [OF inv step] job_step_inv [OF inv step]
  show "job_ended s' \<or> sys_inv s' \<and> cd_left (js_countdown s') + (if statement e then 1 else 0)
      \<le> cd_left (js_countdown s)" by linarith
qed

text \<open>While it does not work the goroutine stays where it is, and time passes.\<close>

lemma stands_still:
  assumes "sys_inv s" and "job_step e s = Some s'" and "cd_left (js_countdown s') = cd_left (js_countdown s)"
  shows "cd_pc (js_countdown s') = cd_pc (js_countdown s)
    \<and> cd_now (js_countdown s) \<le> cd_now (js_countdown s')"
proof -
  have "\<not> is_work c" if "e = Worker c" for c
    using job_step_work [OF assms(1,2)] assms(3) that by (auto simp: work_in_def)
  then show ?thesis
    using assms(2) by (cases e) (auto simp: job_step_def split: if_splits option.splits elim!: is_work.elims)
qed

lemma goroutine_ends:
  assumes fair: "scheduled \<sigma> ev" and inv: "sys_inv (\<sigma> n)"
  shows "\<exists>m\<ge>n. job_ended (\<sigma> m)"
proof (rule ending.gets_there [OF scheduledD(1,4) [OF fair] inv])
  note run = scheduledD(1) [OF fair]
  fix k
  assume "\<forall>m\<ge>k. sys_inv (\<sigma> m) \<and> \<not> job_ended (\<sigma> m) \<and> cd_left (js_countdown (\<sigma> m)) = cd_left (js_countdown (\<sigma> k))"
  then have still: "sys_inv (\<sigma> m)" "\<not> job_ended (\<sigma> m)"
    "cd_left (js_countdown (\<sigma> m)) = cd_left (js_countdown (\<sigma> k))" if "k \<le> m" for m using that by blast+
  have stays: "cd_pc (js_countdown (\<sigma> m)) = cd_pc (js_countdown (\<sigma> l))
      \<and> cd_now (js_countdown (\<sigma> l)) \<le> cd_now (js_countdown (\<sigma> m))" if "k \<le> l" "l \<le> m" for l m
    using that(2)
  proof (induction m rule: dec_induct)
    case (step m)
    with follows_step [OF run, of m] stands_still [OF still(1) [of m]] still(3) [of m] still(3) [of "Suc m"] that(1)
    show ?case by (auto simp: order_trans)
  qed simp
  obtain m where m: "m \<ge> k" "(case cd_pc (js_countdown (\<sigma> k)) of CSelect n deadline \<Rightarrow> deadline | _ \<Rightarrow> 0)
      \<le> cd_now (js_countdown (\<sigma> m))"
    using scheduledD(3) [OF fair] by blast
  have "ready job_step statement (\<sigma> l)" if l: "m \<le> l" for l
  proof -
    note now = stays [OF order_refl order_trans [OF m(1) l]] stays [OF m(1) l]
    have "deadline \<le> cd_now (js_countdown (\<sigma> l))"
      if "cd_pc (js_countdown (\<sigma> l)) = CSelect n deadline" for n deadline
      using that now m(2) by auto
    from work_ready [OF sys_invD(1) [OF still(1) [OF order_trans [OF m(1) l]]]
        still(2) [OF order_trans [OF m(1) l]] scheduledD(2) [OF fair] this]
    have "\<exists>e. countdown_step e (js_countdown (\<sigma> l)) \<noteq> None \<and> is_work e \<and> \<not> is_panic e" .
    then obtain e c where "countdown_step e (js_countdown (\<sigma> l)) = Some c" "statement (Worker e)" by auto
    with job_step_worker scheduledD(2) [OF fair] show ?thesis by (intro readyI [of statement "Worker e"]) auto
  qed
  with m(1) show "\<exists>m\<ge>k. \<forall>l\<ge>m. ready job_step statement (\<sigma> l)" by blast
qed

text \<open>And stays ended, with the buffer it has then.\<close>

lemma ended_step: "job_step e s = Some s' \<Longrightarrow> job_ended s \<Longrightarrow> job_ended s'"
  by (cases e) (auto simp: job_step_def split: if_splits option.splits elim!: countdown_step.elims)

lemma ended_facts:
  assumes "sys_inv s" and "job_ended s"
  shows "job_finished (js_job s)" "job_status (js_job s) \<noteq> StatusRunning"
  using assms done_finished cd_inv_finished sys_invD(1) by blast+

lemma ended_ticks:
  assumes "sys_inv s" and "job_ended s" and "job_step e s = Some s'"
  shows "job_ticks (js_job s') = job_ticks (js_job s)"
  using job_step_inv [OF assms(1,3)] ended_facts(2) [OF assms(1,2)] unfolding evolves_def by auto

section \<open>Callers are answered\<close>

fun stop_left :: "stop_pc option \<Rightarrow> nat" where
  "stop_left (Some StopWaiting) = 2"
| "stop_left (Some StopReading) = 1"
| "stop_left pc = 0"

text \<open>A pending call gets ahead by its own two steps.\<close>

interpretation answering: fair_steps job_step "\<lambda>e. e = StepStop i"
  "\<lambda>s. sys_inv s \<and> job_ended s \<and> js_stops s i \<noteq> None" "\<lambda>s. \<exists>st. js_stops s i = Some (StopReturned st)"
  "\<lambda>s. stop_left (js_stops s i)" for i
proof
  fix s e s'
  assume inv: "sys_inv s \<and> job_ended s \<and> js_stops s i \<noteq> None"
    and pending: "\<not> (\<exists>st. js_stops s i = Some (StopReturned st))" and step: "job_step e s = Some s'"
  from inv obtain pc where "js_stops s i = Some pc" by blast
  with pending step have "(\<exists>st. js_stops s' i = Some (StopReturned st))
      \<or> stop_left (js_stops s' i) + (if e = StepStop i then 1 else 0) \<le> stop_left (js_stops s i)"
    by (cases pc; cases e)
       (auto simp: job_step_def stop_step_def split: if_splits option.splits stop_pc.splits)
  then show "(\<exists>st. js_stops s' i = Some (StopReturned st))
      \<or> (sys_inv s' \<and> job_ended s' \<and> js_stops s' i \<noteq> None)
        \<and> stop_left (js_stops s' i) + (if e = StepStop i then 1 else 0) \<le> stop_left (js_stops s i)"
    using inv job_step_inv [OF _ step] ended_step [OF step] stop_called_step [OF step] by blast
qed

lemma caller_is_answered:
  assumes fair: "follows job_step \<sigma> ev" "fair job_step (\<lambda>e. e = StepStop i) \<sigma> ev"
    and inv: "sys_inv (\<sigma> n)" "job_ended (\<sigma> n)" "js_stops (\<sigma> n) i \<noteq> None"
  shows "\<exists>m\<ge>n. \<exists>st. js_stops (\<sigma> m) i = Some (StopReturned st)"
proof (rule answering.gets_there [OF fair])
  show "sys_inv (\<sigma> n) \<and> job_ended (\<sigma> n) \<and> js_stops (\<sigma> n) i \<noteq> None" using inv by blast
  fix k
  assume "\<forall>m\<ge>k. (sys_inv (\<sigma> m) \<and> job_ended (\<sigma> m) \<and> js_stops (\<sigma> m) i \<noteq> None)
    \<and> (\<nexists>st. js_stops (\<sigma> m) i = Some (StopReturned st)) \<and> stop_left (js_stops (\<sigma> m) i) = stop_left (js_stops (\<sigma> k) i)"
  then have waiting: "sys_inv (\<sigma> m)" "job_ended (\<sigma> m)" "js_stops (\<sigma> m) i \<noteq> None"
    "\<nexists>st. js_stops (\<sigma> m) i = Some (StopReturned st)" if "k \<le> m" for m
    using that by blast+
  have "ready job_step (\<lambda>e. e = StepStop i) (\<sigma> m)" if m: "k \<le> m" for m
  proof -
    obtain pc where pc: "js_stops (\<sigma> m) i = Some pc" using waiting(3) [OF m] by blast
    with waiting(2,4) [OF m] ended_facts(1) [OF waiting(1,2) [OF m]]
    show ?thesis by (intro readyI [of _ "StepStop i"]) (cases pc; simp add: job_step_def stop_step_def)+
  qed
  then show "\<exists>m\<ge>k. \<forall>l\<ge>m. ready job_step (\<lambda>e. e = StepStop i) (\<sigma> l)" by blast
qed

section \<open>Readers come to the end\<close>

text \<open>
  What a reader that is reading does is what it is ready for, unless it is told that its context has
  ended or leaves for another reason.
\<close>

lemma reader_event:
  assumes "reader_step e j r = Some r'" and "reading (rd_pc r)"
  shows "e = next_event (rd_pc r) \<or> e = RdCancelled \<or> \<not> reading (rd_pc r')"
  using assms by (cases e; cases "rd_pc r") (auto simp: Let_def split: if_splits)

lemma reader_moves:
  assumes "sys_inv s" and "job_ended s" and "js_readers s i = Some r" and "reading (rd_pc r)"
    and step: "reader_step e (js_job s) r = Some r'"
  shows "\<not> reading (rd_pc r')
    \<or> reads_left (js_job s) r' + (if e = RdCancelled then 0 else 1) \<le> reads_left (js_job s) r"
proof (cases "e = RdCancelled")
  case True
  with step show ?thesis by (auto simp: reads_left_def)
next
  case False
  note inv = cd_invD(3) [OF sys_invD(1) [OF assms(1)]] ended_facts(2) [OF assms(1,2)]
    sys_invD(2) [OF assms(1,3)]
  from ended_reader_step [OF inv assms(4)] reader_event [OF step assms(4)] step False
  show ?thesis by auto
qed

lemma readers_step:
  assumes "job_step e s = Some s'" and "js_readers s i = Some r"
  shows "js_readers s' i = Some r \<and> \<not> reads i e \<or>
    (\<exists>re r'. e = Reader i re \<and> reader_step re (js_job s) r = Some r' \<and> js_readers s' i = Some r')"
  using assms by (cases e) (auto simp: job_step_def split: if_splits option.splits)

lemma done_reader_step: "\<not> reading (rd_pc rd) \<Longrightarrow> e \<noteq> RdCancelled \<Longrightarrow> reader_step e j rd = None"
  by (cases "rd_pc rd"; cases e) simp_all

lemma done_reader_rests:
  "js_readers s r = Some rd \<Longrightarrow> \<not> reading (rd_pc rd) \<Longrightarrow> reads r e \<Longrightarrow> job_step e s = None"
  by (cases "(r, e)" rule: reads.cases) (simp_all add: job_step_def done_reader_step)

abbreviation reader_left :: "nat \<Rightarrow> job_sys \<Rightarrow> nat" where
  "reader_left i s \<equiv> (case js_readers s i of None \<Rightarrow> 0 | Some r \<Rightarrow> reads_left (js_job s) r)"

interpretation draining: fair_steps job_step "reads i"
  "\<lambda>s. sys_inv s \<and> job_ended s \<and> js_readers s i \<noteq> None"
  "\<lambda>s. \<exists>r. js_readers s i = Some r \<and> \<not> reading (rd_pc r)" "reader_left i" for i
proof
  fix s e s'
  assume inv: "sys_inv s \<and> job_ended s \<and> js_readers s i \<noteq> None"
    and pending: "\<not> (\<exists>r. js_readers s i = Some r \<and> \<not> reading (rd_pc r))" and step: "job_step e s = Some s'"
  from inv pending obtain r where r: "js_readers s i = Some r" "reading (rd_pc r)" by blast
  have same: "reads_left (js_job s') q = reads_left (js_job s) q" for q
    using ended_ticks [of s e s'] inv step by (simp add: reads_left_def split: rpc.split)
  from readers_step [OF step r(1)]
  have "(\<exists>r. js_readers s' i = Some r \<and> \<not> reading (rd_pc r))
      \<or> js_readers s' i \<noteq> None \<and> reader_left i s' + (if reads i e then 1 else 0) \<le> reader_left i s"
  proof (elim disjE exE conjE)
    fix re r'
    assume "e = Reader i re" "reader_step re (js_job s) r = Some r'" "js_readers s' i = Some r'"
    with reader_moves [OF _ _ r, of re r'] inv r(1) same show ?thesis by (auto split: if_splits)
  qed (use r(1) same in simp)
  then show "(\<exists>r. js_readers s' i = Some r \<and> \<not> reading (rd_pc r))
      \<or> (sys_inv s' \<and> job_ended s' \<and> js_readers s' i \<noteq> None)
        \<and> reader_left i s' + (if reads i e then 1 else 0) \<le> reader_left i s"
    using inv job_step_inv [OF _ step] ended_step [OF step] by blast
qed

lemma reader_ends:
  assumes fair: "follows job_step \<sigma> ev" "fair job_step (reads i) \<sigma> ev"
    and inv: "sys_inv (\<sigma> n)" "job_ended (\<sigma> n)" "js_readers (\<sigma> n) i \<noteq> None"
  shows "\<exists>m\<ge>n. \<exists>r. js_readers (\<sigma> m) i = Some r \<and> \<not> reading (rd_pc r)"
proof (rule draining.gets_there [OF fair])
  show "sys_inv (\<sigma> n) \<and> job_ended (\<sigma> n) \<and> js_readers (\<sigma> n) i \<noteq> None" using inv by blast
  fix k
  assume "\<forall>m\<ge>k. (sys_inv (\<sigma> m) \<and> job_ended (\<sigma> m) \<and> js_readers (\<sigma> m) i \<noteq> None)
    \<and> (\<nexists>r. js_readers (\<sigma> m) i = Some r \<and> \<not> reading (rd_pc r)) \<and> reader_left i (\<sigma> m) = reader_left i (\<sigma> k)"
  then have waiting: "sys_inv (\<sigma> m)" "job_ended (\<sigma> m)" "js_readers (\<sigma> m) i \<noteq> None"
    "\<nexists>r. js_readers (\<sigma> m) i = Some r \<and> \<not> reading (rd_pc r)" if "k \<le> m" for m
    using that by blast+
  have "ready job_step (reads i) (\<sigma> m)" if m: "k \<le> m" for m
  proof -
    obtain r where r: "js_readers (\<sigma> m) i = Some r" "reading (rd_pc r)" using waiting(3,4) [OF m] by blast
    note s = waiting(1,2) [OF m]
    obtain r' where "reader_step (next_event (rd_pc r)) (js_job (\<sigma> m)) r = Some r'"
      using ended_reader_step [OF cd_invD(3) [OF sys_invD(1) [OF s(1)]] ended_facts(2) [OF s]
          sys_invD(2) [OF s(1) r(1)] r(2)] by blast
    moreover have "next_event (rd_pc r) \<noteq> RdCancelled" using r(2) by (cases "rd_pc r") auto
    ultimately show ?thesis
      using r(1) s(2) by (intro readyI [of _ "Reader i (next_event (rd_pc r))"]) (simp_all add: job_step_def)
  qed
  then show "\<exists>m\<ge>k. \<forall>l\<ge>m. ready job_step (reads i) (\<sigma> l)" by blast
qed

text \<open>A reader that is not cancelled and takes every tick ends in no other way than at the last one.\<close>

definition reads_on :: "nat \<Rightarrow> (nat \<Rightarrow> job_event option) \<Rightarrow> bool" where
  "reads_on i ev \<longleftrightarrow> (\<forall>n. ev n \<noteq> Some (Reader i RdCancelled) \<and> ev n \<noteq> Some (Reader i (RdYield False)))"

definition stays_on :: "reader \<Rightarrow> bool" where
  "stays_on r \<longleftrightarrow> \<not> rd_ctxDone r \<and> rd_pc r \<noteq> RDone ByCaller \<and> rd_pc r \<noteq> RDone ByContext"

lemma stays_on_step:
  assumes "stays_on r" and "reader_step e j r = Some r'" and "e \<noteq> RdCancelled" and "e \<noteq> RdYield False"
  shows "stays_on r'"
  using assms by (cases e) (auto simp: stays_on_def Let_def split: rpc.splits if_splits)

lemma all_stay_on:
  assumes "js_readers s i = None \<or> (\<exists>r. js_readers s i = Some r \<and> stays_on r)"
    and "job_step e s = Some s'" and "e \<noteq> Reader i RdCancelled" and "e \<noteq> Reader i (RdYield False)"
  shows "js_readers s' i = None \<or> (\<exists>r. js_readers s' i = Some r \<and> stays_on r)"
proof (cases "js_readers s i")
  case None
  have "stays_on new_reader" by (simp add: stays_on_def new_reader_def)
  with None assms(2) show ?thesis by (cases e) (auto simp: job_step_def split: if_splits option.splits)
next
  case (Some r)
  with assms(1) have "stays_on r" by simp
  with readers_step [OF assms(2) Some] stays_on_step assms(3,4) show ?thesis by blast
qed

lemma reader_stays_on:
  assumes fair: "fair_run s0 \<sigma> ev" and "js_readers s0 = Map.empty" and all: "reads_on i ev"
  shows "js_readers (\<sigma> n) i = None \<or> (\<exists>r. js_readers (\<sigma> n) i = Some r \<and> stays_on r)"
proof (induction n)
  case 0
  show ?case using fair_runD(1) [OF fair] assms(2) by simp
next
  case (Suc n)
  from follows_step [OF fair_runD(2) [OF fair], of n] show ?case
  proof (elim disjE exE conjE)
    fix e
    assume "ev n = Some e" "job_step e (\<sigma> n) = Some (\<sigma> (Suc n))"
    with all_stay_on [OF Suc] all show ?thesis by (auto simp: reads_on_def)
  qed (use Suc in simp)
qed

lemma reader_read_on:
  assumes fair: "fair_run s0 \<sigma> ev" and "js_readers s0 = Map.empty" and "reads_on i ev"
    and inv: "sys_inv (\<sigma> n)" and r: "js_readers (\<sigma> n) i = Some r" "\<not> reading (rd_pc r)"
  shows "rd_pc r = RDone ByTerminal \<and> rd_delivered r = job_ticks (js_job (\<sigma> n))"
proof -
  have "stays_on r" using reader_stays_on [OF assms(1-3), of n] r(1) by simp
  with r(2) have "rd_pc r = RDone ByTerminal"
    by (cases "rd_pc r") (auto simp: stays_on_def, metis done_reason.exhaust)
  with sys_invD(2) [OF inv r(1)] show ?thesis by (simp add: reader_inv_def)
qed

text \<open>What was called or opened is there for good, so it is there when the job has ended.\<close>

lemma still_there:
  assumes run: "follows job_step \<sigma> ev" and "k \<le> m"
  shows "js_stops (\<sigma> k) i \<noteq> None \<Longrightarrow> js_stops (\<sigma> m) i \<noteq> None"
    and "js_readers (\<sigma> k) i \<noteq> None \<Longrightarrow> js_readers (\<sigma> m) i \<noteq> None"
proof -
  show "js_stops (\<sigma> k) i \<noteq> None \<Longrightarrow> js_stops (\<sigma> m) i \<noteq> None"
    using follows_stable [of job_step \<sigma> ev k m "\<lambda>s. js_stops s i \<noteq> None", OF assms] stop_called_step
    by blast
  show "js_readers (\<sigma> k) i \<noteq> None \<Longrightarrow> js_readers (\<sigma> m) i \<noteq> None"
    using follows_stable [of job_step \<sigma> ev k m "\<lambda>s. js_readers s i \<noteq> None", OF assms] readers_step
    by blast
qed

section \<open>A fair run\<close>

text \<open>The run of \<open>sample_events\<close>, after which only time passes.\<close>

definition sample_later :: "nat \<Rightarrow> job_sys" where
  "sample_later k = sample_end\<lparr>js_countdown := (js_countdown sample_end)
     \<lparr>cd_now := cd_now (js_countdown sample_end) + int k\<rparr>\<rparr>"

definition sample_tick :: "nat \<Rightarrow> job_event" where
  "sample_tick k = Worker (EvTime (cd_now (js_countdown sample_end) + int (Suc k)))"

abbreviation sample_at :: "nat \<Rightarrow> job_sys" where
  "sample_at \<equiv> run_then job_step sample_events sample_start sample_later"

abbreviation sample_event_at :: "nat \<Rightarrow> job_event option" where
  "sample_event_at \<equiv> events_then sample_events sample_tick"

lemma sample_to_later: "job_run sample_events sample_start = Some (sample_later 0)"
  by (simp add: sample_end_run sample_later_def)

lemma sample_ticks: "job_step (sample_tick k) (sample_later k) = Some (sample_later (Suc k))"
  by (simp add: sample_tick_def sample_later_def job_step_def sample_end_facts(3))

lemma sample_end_maps:
  "js_stops sample_end i = (if i = 0 then Some (StopReturned StatusStopped) else None)"
  "js_readers sample_end i = (if i = 0 then Some \<lparr>rd_pc = RDone ByTerminal, rd_cursor = 3,
     rd_delivered = job_ticks (js_job sample_end), rd_ctxDone = False\<rparr> else None)"
  by (simp_all add: sample_end_def sample_run_defs)

text \<open>The goroutine of a job that has ended has nothing to do.\<close>

lemma ended_rests: "job_ended s \<Longrightarrow> statement e \<Longrightarrow> job_step e s = None"
  by (cases e rule: statement.cases) (auto simp: job_step_def elim: is_work.elims)

text \<open>After its end nothing of the job is ready.\<close>

lemma sample_rests:
  "\<not> ready job_step statement (sample_later k)" "\<not> ready job_step (\<lambda>e. e = StepStop i) (sample_later k)"
  "\<not> ready job_step (reads i) (sample_later k)"
proof -
  show "\<not> ready job_step statement (sample_later k)"
    using ended_rests by (auto simp: ready_def sample_later_def sample_end_facts(3))
  show "\<not> ready job_step (\<lambda>e. e = StepStop i) (sample_later k)"
    by (auto simp: ready_def sample_later_def job_step_def sample_end_maps stop_step_def split: if_splits)
  have "job_step e (sample_later k) = None" if "reads i e" for e
  proof (cases "js_readers (sample_later k) i")
    case None
    with that show ?thesis by (cases "(i, e)" rule: reads.cases) (simp_all add: job_step_def)
  next
    case (Some rd)
    then have "\<not> reading (rd_pc rd)" by (auto simp: sample_later_def sample_end_maps split: if_splits)
    with Some that show ?thesis using done_reader_rests by blast
  qed
  then show "\<not> ready job_step (reads i) (sample_later k)" by (auto simp: ready_def)
qed

lemma sample_is_fair: "fair_run sample_start sample_at sample_event_at"
proof -
  have "cd_pc (js_countdown (sample_at n)) \<noteq> CCrashed" for n
  proof (cases "n < length sample_events")
    case True
    from run_then_before [where later = sample_later, OF sample_to_later this] show ?thesis
      by (auto simp: job_step_def split: if_splits)
  qed (simp add: run_then_later sample_later_def sample_end_facts(3))
  moreover have "\<exists>m\<ge>n. t \<le> cd_now (js_countdown (sample_at m))" for t n
  proof -
    let ?m = "n + length sample_events + nat (t - cd_now (js_countdown sample_end))"
    have "t \<le> cd_now (js_countdown (sample_at ?m))" by (subst run_then_later) (simp_all add: sample_later_def)
    then show ?thesis by (intro exI [of _ ?m]) simp
  qed
  moreover have "sample_at 0 = sample_start" by (simp add: run_then_def sample_events_def)
  moreover have "follows job_step sample_at sample_event_at"
    by (rule run_then_follows [where later = sample_later, OF sample_to_later sample_ticks])
  moreover have "fair job_step statement sample_at sample_event_at"
    "\<And>i. fair job_step (\<lambda>e. e = StepStop i) sample_at sample_event_at"
    "\<And>i. fair job_step (reads i) sample_at sample_event_at"
    by (rule fair_then, rule sample_rests)+
  ultimately show ?thesis unfolding fair_run_def scheduled_def by blast
qed

lemma sample_reads_on: "reads_on 0 sample_event_at"
  unfolding reads_on_def
proof
  fix n
  have "\<forall>e\<in>set sample_events. e \<noteq> Reader 0 RdCancelled \<and> e \<noteq> Reader 0 (RdYield False)"
    by (simp add: sample_events_def)
  then show "sample_event_at n \<noteq> Some (Reader 0 RdCancelled) \<and> sample_event_at n \<noteq> Some (Reader 0 (RdYield False))"
    by (simp add: events_then_def sample_tick_def)
qed

section \<open>The property\<close>

text \<open>
  C13. Every fair run serves everybody, whatever else happens in it and in whatever order: in a process
  that does not crash, once the clock passes every instant and nothing that is ready for good is left
  standing, the job ends and stays ended, every \<open>Stop\<close>, whenever it was called, returns the status
  the job has then, never RUNNING, and every iteration, whenever it was opened, is left; one that is not cancelled and takes every
  tick is left at the terminal tick with the whole buffer yielded.
\<close>

theorem fair_run_serves_all:
  assumes "NewJob ctxErr now jobID count mean lg = Inr s0" and "fair_run s0 \<sigma> ev"
  shows "(\<exists>n. \<forall>m\<ge>n. cd_pc (js_countdown (\<sigma> m)) = CDone \<and> Status (js_job (\<sigma> m)) \<noteq> StatusRunning)
    \<and> (\<forall>i k. js_stops (\<sigma> k) i \<noteq> None \<longrightarrow>
         (\<exists>n\<ge>k. js_stops (\<sigma> n) i = Some (StopReturned (Status (js_job (\<sigma> n))))
            \<and> Status (js_job (\<sigma> n)) \<noteq> StatusRunning))
    \<and> (\<forall>i k. js_readers (\<sigma> k) i \<noteq> None \<longrightarrow>
         (\<exists>n\<ge>k. \<exists>r. js_readers (\<sigma> n) i = Some r \<and> \<not> reading (rd_pc r)
            \<and> (reads_on i ev \<longrightarrow> rd_pc r = RDone ByTerminal \<and> rd_delivered r = job_ticks (js_job (\<sigma> n)))))"
proof -
  note run = fair_runD(2) [OF assms(2)] and new = NewJob_ok [OF assms(1)]
  have inv: "sys_inv (\<sigma> n)" for n
    using job.reaches_keeps [OF follows_reaches [OF run]] new fair_runD(1) [OF assms(2)] by simp
  obtain d where "job_ended (\<sigma> d)" using goroutine_ends [OF fair_runD(3) [OF assms(2)] inv] by blast
  then have dn: "job_ended (\<sigma> m)" if "d \<le> m" for m
    using follows_stable [of job_step \<sigma> ev d m job_ended, OF run that] ended_step by blast
  note facts = ended_facts [OF inv dn]
  have "\<exists>n\<ge>k. js_stops (\<sigma> n) i = Some (StopReturned (Status (js_job (\<sigma> n))))
      \<and> Status (js_job (\<sigma> n)) \<noteq> StatusRunning" if "js_stops (\<sigma> k) i \<noteq> None" for i k
  proof -
    have "js_stops (\<sigma> (max k d)) i \<noteq> None" by (rule still_there(1) [OF run _ that]) simp
    from caller_is_answered [OF fair_runD(2,4) [OF assms(2)] inv dn this] obtain m st where
      m: "m \<ge> max k d" "js_stops (\<sigma> m) i = Some (StopReturned st)" by auto
    with sys_invD(3) [OF inv m(2)] show ?thesis
      by (intro exI [of _ m]) (auto simp: stop_inv_def Status_def)
  qed
  moreover have "\<exists>n\<ge>k. \<exists>r. js_readers (\<sigma> n) i = Some r \<and> \<not> reading (rd_pc r)
      \<and> (reads_on i ev \<longrightarrow> rd_pc r = RDone ByTerminal \<and> rd_delivered r = job_ticks (js_job (\<sigma> n)))"
    if "js_readers (\<sigma> k) i \<noteq> None" for i k
  proof -
    have "js_readers (\<sigma> (max k d)) i \<noteq> None" by (rule still_there(2) [OF run _ that]) simp
    from reader_ends [OF fair_runD(2,5) [OF assms(2)] inv dn this] obtain m r where
      m: "m \<ge> max k d" "js_readers (\<sigma> m) i = Some r" "\<not> reading (rd_pc r)" by auto
    have "js_readers s0 = Map.empty" using assms(1) by (auto simp: NewJob_def)
    with m reader_read_on [OF assms(2) _ _ inv m(2,3)] show ?thesis
      by (intro exI [of _ m] conjI exI [of _ r]) auto
  qed
  ultimately show ?thesis using dn facts(2) unfolding Status_def by blast
qed

theorem fair_run_serves_all_witness:
  "(\<exists>n. \<forall>m\<ge>n. cd_pc (js_countdown (sample_at m)) = CDone \<and> Status (js_job (sample_at m)) \<noteq> StatusRunning)
   \<and> (\<exists>n\<ge>10. js_stops (sample_at n) 0 = Some (StopReturned (Status (js_job (sample_at n)))))
   \<and> (\<exists>n\<ge>1. \<exists>r. js_readers (sample_at n) 0 = Some r \<and> rd_delivered r = job_ticks (js_job (sample_at n)))"
proof -
  have "js_stops (sample_at 10) 0 \<noteq> None" "js_readers (sample_at 1) 0 \<noteq> None"
    by (simp_all add: run_then_def sample_run_defs)
  with fair_run_serves_all [OF sample_new sample_is_fair] sample_reads_on show ?thesis by blast
qed

end
