(* ===== verification/Spiffe_ID.thy ===== *)
theory Spiffe_ID
  imports Go_Errors
begin

text \<open>
  The package \<open>internal/authn/spiffeid\<close>: parsing and validating a SPIFFE ID, its accessors, and the
  language the parser accepts.
\<close>

section \<open>The parser\<close>

record spiffe_id =
  id_uri :: string
  id_trustDomain :: string
  id_path :: string

definition uriScheme :: string where "uriScheme = ''spiffe://''"
definition uriSchemeLength :: nat where "uriSchemeLength = length uriScheme"
definition maxIDLength :: nat where "maxIDLength = 2048"
definition maxTrustDomainLength :: nat where "maxTrustDomainLength = 255"

definition trustDomain_byte :: "char \<Rightarrow> bool" where
  "trustDomain_byte c \<longleftrightarrow> is_lower c \<or> is_digit c \<or> c \<in> set ''._-''"

definition pathComponent_byte :: "char \<Rightarrow> bool" where
  "pathComponent_byte c \<longleftrightarrow> is_lower c \<or> is_upper c \<or> is_digit c \<or> c \<in> set ''._-''"

definition validTrustDomainPattern :: "string \<Rightarrow> bool" where
  "validTrustDomainPattern s \<longleftrightarrow> matches_class trustDomain_byte s"

definition validPathComponentPattern :: "string \<Rightarrow> bool" where
  "validPathComponentPattern s \<longleftrightarrow> matches_class pathComponent_byte s"

definition validateTrustDomain :: "string \<Rightarrow> unit result" where
  "validateTrustDomain td =
     fail_if (length td > maxTrustDomainLength)
       (Wrap1 (''validate trust-domain ('' @ show_nat (length td) @ '' bytes): '')
          (Sentinel (SSpiffeID ErrTrustDomainTooLong)))
     (fail_if (\<not> validTrustDomainPattern td)
       (Wrap1 (''validate trust-domain ['' @ td @ '']: '')
          (Sentinel (SSpiffeID ErrInvalidTrustDomain)))
     (Inr ()))"

text \<open>The loop of \<open>validatePath\<close>: the first bad component ends it with an error.\<close>

fun validateComponents :: "string list \<Rightarrow> unit result" where
  "validateComponents [] = Inr ()"
| "validateComponents (component # rest) =
     (if \<not> validPathComponentPattern component \<or> component = ''.'' \<or> component = ''..''
      then Inl (Wrap1 (''validate path-component ['' @ component @ '']: '')
                  (Sentinel (SSpiffeID ErrInvalidPathComponent)))
      else validateComponents rest)"

definition validatePath :: "string \<Rightarrow> unit result" where
  "validatePath p = (if p = [] then Inr () else validateComponents (split_on (CHR ''/'') (drop 1 p)))"

definition Parse :: "string \<Rightarrow> spiffe_id result" where
  "Parse uri =
     fail_if (\<not> has_prefix uriScheme uri)
       (Wrap1 ''parse spiffeid: '' (Sentinel (SSpiffeID ErrNotSPIFFE)))
     (fail_if (length uri > maxIDLength)
       (Wrap1 ''parse spiffeid: '' (Sentinel (SSpiffeID ErrIDTooLong)))
     (let trustDomain = cut_before (CHR ''/'') (drop uriSchemeLength uri);
          path = drop (uriSchemeLength + length trustDomain) uri
      in wrapping ''parse spiffeid: '' (validateTrustDomain trustDomain) (\<lambda>_.
         wrapping ''parse spiffeid: '' (validatePath path) (\<lambda>_.
         Inr \<lparr>id_uri = uri, id_trustDomain = trustDomain, id_path = path\<rparr>))))"

definition TrustDomain :: "spiffe_id \<Rightarrow> string" where
  "TrustDomain i = id_trustDomain i"

definition Path :: "spiffe_id \<Rightarrow> string" where
  "Path i = id_path i"

definition PathComponents :: "spiffe_id \<Rightarrow> string list" where
  "PathComponents i = (if id_path i = [] then [] else split_on (CHR ''/'') (drop 1 (id_path i)))"

definition String :: "spiffe_id \<Rightarrow> string" where
  "String i = id_uri i"

lemmas spiffe_accessors = TrustDomain_def Path_def String_def

section \<open>The language of SPIFFE IDs\<close>

text \<open>
  The specification: a SPIFFE ID is a trust domain and a list of path components, each a nonempty
  string over its alphabet, no component a relative modifier.
\<close>

definition valid_trust_domain :: "string \<Rightarrow> bool" where
  "valid_trust_domain td \<longleftrightarrow> validTrustDomainPattern td \<and> length td \<le> maxTrustDomainLength"

definition valid_component :: "string \<Rightarrow> bool" where
  "valid_component w \<longleftrightarrow> validPathComponentPattern w \<and> w \<noteq> ''.'' \<and> w \<noteq> ''..''"

definition path_of :: "string list \<Rightarrow> string" where
  "path_of ws = (if ws = [] then [] else CHR ''/'' # join_with (CHR ''/'') ws)"

definition render_id :: "string \<Rightarrow> string list \<Rightarrow> string" where
  "render_id td ws = uriScheme @ td @ path_of ws"

lemma trust_domain_no_slash: "valid_trust_domain td \<Longrightarrow> CHR ''/'' \<notin> set td"
  unfolding valid_trust_domain_def validTrustDomainPattern_def
  by (auto dest: matches_class_excludes [of _ _ "CHR ''/''"] simp: trustDomain_byte_def byte_class_defs)

lemma component_no_slash: "valid_component w \<Longrightarrow> CHR ''/'' \<notin> set w"
  unfolding valid_component_def validPathComponentPattern_def
  by (auto dest: matches_class_excludes [of _ _ "CHR ''/''"] simp: pathComponent_byte_def byte_class_defs)

lemma validateTrustDomain_ok: "validateTrustDomain td = Inr u \<longleftrightarrow> valid_trust_domain td"
  by (auto simp: validateTrustDomain_def valid_trust_domain_def)

lemma validateComponents_ok:
  "validateComponents ws = Inr u \<longleftrightarrow> (\<forall>w\<in>set ws. valid_component w)"
  by (induction ws) (auto simp: valid_component_def)

lemma validateComponents_error:
  "validateComponents ws = Inl e \<Longrightarrow> errors_is e s \<longleftrightarrow> s = SSpiffeID ErrInvalidPathComponent"
  by (induction ws) (auto split: if_splits)

lemma validatePath_error:
  "validatePath p = Inl e \<Longrightarrow> errors_is e s \<longleftrightarrow> s = SSpiffeID ErrInvalidPathComponent"
  by (auto simp: validatePath_def validateComponents_error split: if_splits)

lemma validatePath_ok:
  "validatePath p = Inr u \<longleftrightarrow>
     (p = [] \<or> (\<forall>w\<in>set (split_on (CHR ''/'') (drop 1 p)). valid_component w))"
  by (auto simp: validatePath_def validateComponents_ok)

lemma PathComponents_path_of:
  assumes "\<forall>w\<in>set ws. valid_component w"
  shows "PathComponents \<lparr>id_uri = u, id_trustDomain = td, id_path = path_of ws\<rparr> = ws"
proof (cases "ws = []")
  case False
  moreover have "\<forall>w\<in>set ws. CHR ''/'' \<notin> set w" using assms component_no_slash by blast
  ultimately show ?thesis by (simp add: PathComponents_def path_of_def split_join)
qed (simp add: PathComponents_def path_of_def)

lemma path_of_PathComponents:
  assumes "id_path i = [] \<or> hd (id_path i) = CHR ''/''"
  shows "path_of (PathComponents i) = id_path i"
  using assms by (cases "id_path i") (auto simp: PathComponents_def path_of_def)

lemma dropWhile_head: "dropWhile (\<lambda>c. c \<noteq> x) s = [] \<or> hd (dropWhile (\<lambda>c. c \<noteq> x) s) = x"
  by (induction s) auto

text \<open>What a successful parse has established.\<close>

lemma Parse_sound:
  assumes "Parse uri = Inr i"
  shows "String i = uri" "valid_trust_domain (TrustDomain i)"
    "\<forall>w\<in>set (PathComponents i). valid_component w"
    "uri = render_id (TrustDomain i) (PathComponents i)" "length uri \<le> maxIDLength"
proof -
  define td where "td = cut_before (CHR ''/'') (drop uriSchemeLength uri)"
  define p where "p = drop (uriSchemeLength + length td) uri"
  have pre: "has_prefix uriScheme uri" and len: "length uri \<le> maxIDLength"
    and td: "valid_trust_domain td" and pv: "validatePath p = Inr ()"
    and i: "i = \<lparr>id_uri = uri, id_trustDomain = td, id_path = p\<rparr>"
    using assms unfolding Parse_def Let_def td_def p_def
    by (auto simp: validateTrustDomain_ok)
  have p_drop: "p = dropWhile (\<lambda>c. c \<noteq> CHR ''/'') (drop uriSchemeLength uri)"
    unfolding p_def td_def by (simp add: add.commute flip: cut_before_rest)
  have "td @ p = drop uriSchemeLength uri"
    unfolding p_drop td_def cut_before_def by simp
  with pre have uri: "uri = uriScheme @ td @ p"
    unfolding uriSchemeLength_def by (metis has_prefix_split)
  have head: "p = [] \<or> hd p = CHR ''/''" unfolding p_drop by (rule dropWhile_head)
  show "String i = uri" "valid_trust_domain (TrustDomain i)" "length uri \<le> maxIDLength"
    using i td len by (simp_all add: spiffe_accessors)
  show "\<forall>w\<in>set (PathComponents i). valid_component w"
    using pv i by (auto simp: validatePath_ok PathComponents_def)
  show "uri = render_id (TrustDomain i) (PathComponents i)"
    using uri head i by (simp add: render_id_def spiffe_accessors path_of_PathComponents)
qed

text \<open>Every rendering of a valid trust domain and valid components parses back to them.\<close>

lemma Parse_complete:
  assumes td: "valid_trust_domain td" and ws: "\<forall>w\<in>set ws. valid_component w"
    and len: "length (render_id td ws) \<le> maxIDLength"
  shows "Parse (render_id td ws) =
           Inr \<lparr>id_uri = render_id td ws, id_trustDomain = td, id_path = path_of ws\<rparr>"
proof -
  let ?uri = "render_id td ws"
  have rest: "drop uriSchemeLength ?uri = td @ path_of ws"
    by (simp add: render_id_def uriSchemeLength_def)
  have cut: "cut_before (CHR ''/'') (td @ path_of ws) = td"
    using trust_domain_no_slash [OF td]
    by (auto simp: path_of_def cut_before_append cut_before_id)
  have path: "drop (uriSchemeLength + length td) ?uri = path_of ws"
    by (simp add: render_id_def uriSchemeLength_def)
  have "\<forall>w\<in>set ws. CHR ''/'' \<notin> set w" using ws component_no_slash by blast
  then have "validatePath (path_of ws) = Inr ()"
    using ws by (simp add: validatePath_ok path_of_def split_join)
  moreover have "validateTrustDomain td = Inr ()" using td by (simp add: validateTrustDomain_ok)
  ultimately show ?thesis
    using len unfolding Parse_def Let_def rest cut path
    by (simp add: render_id_def wrapping_def)
qed

section \<open>Properties\<close>

text \<open>
  C31. The parser accepts exactly the language of SPIFFE IDs: a URI parses if and only if it is the
  scheme, a valid trust domain and a list of valid path components, within 2048 bytes. Percent
  encoding, ports, queries, empty components and relative modifiers are outside that language.
\<close>

theorem Parse_accepts_iff:
  "is_ok (Parse uri) \<longleftrightarrow>
     (\<exists>td ws. valid_trust_domain td \<and> (\<forall>w. w \<in> set ws \<longrightarrow> valid_component w)
        \<and> uri = render_id td ws \<and> length uri \<le> maxIDLength)"
proof
  assume "is_ok (Parse uri)"
  then obtain i where "Parse uri = Inr i" by (auto simp: is_ok_conv)
  from Parse_sound [OF this]
  show "\<exists>td ws. valid_trust_domain td \<and> (\<forall>w. w \<in> set ws \<longrightarrow> valid_component w)
        \<and> uri = render_id td ws \<and> length uri \<le> maxIDLength" by blast
qed (auto simp: Parse_complete)

theorem Parse_accepts_iff_witness:
  "is_ok (Parse ''spiffe://fizzled.internal/client/agent/smith'')"
proof -
  have "valid_trust_domain ''fizzled.internal''" by code_simp
  moreover have "\<forall>w. w \<in> set [''client'', ''agent'', ''smith''] \<longrightarrow> valid_component w"
    unfolding Ball_def [symmetric] by code_simp
  moreover have "''spiffe://fizzled.internal/client/agent/smith''
      = render_id ''fizzled.internal'' [''client'', ''agent'', ''smith'']" by code_simp
  moreover have "length ''spiffe://fizzled.internal/client/agent/smith'' \<le> maxIDLength" by code_simp
  ultimately show ?thesis unfolding Parse_accepts_iff by blast
qed

text \<open>
  The sentinel of a rejected URI is determined by the first check it fails, in the order of the
  code: scheme, total length, trust-domain length, trust-domain bytes, path components. No other
  error leaves the parser.
\<close>

lemma Parse_error_order:
  "fails_with (Parse uri) s \<longleftrightarrow>
     (let td = cut_before (CHR ''/'') (drop uriSchemeLength uri);
          p = drop (uriSchemeLength + length td) uri
      in s = (if \<not> has_prefix uriScheme uri then SSpiffeID ErrNotSPIFFE
              else if length uri > maxIDLength then SSpiffeID ErrIDTooLong
              else if length td > maxTrustDomainLength then SSpiffeID ErrTrustDomainTooLong
              else if \<not> validTrustDomainPattern td then SSpiffeID ErrInvalidTrustDomain
              else SSpiffeID ErrInvalidPathComponent)
         \<and> \<not> is_ok (Parse uri))"
proof (cases "\<not> has_prefix uriScheme uri \<or> length uri > maxIDLength")
  case True
  then show ?thesis by (auto simp: Parse_def result_simps Let_def fail_if_def)
next
  case False
  define td where "td = cut_before (CHR ''/'') (drop uriSchemeLength uri)"
  define p where "p = drop (uriSchemeLength + length td) uri"
  have P: "Parse uri = wrapping ''parse spiffeid: '' (validateTrustDomain td) (\<lambda>_.
         wrapping ''parse spiffeid: '' (validatePath p) (\<lambda>_.
         Inr \<lparr>id_uri = uri, id_trustDomain = td, id_path = p\<rparr>))"
    using False by (simp add: Parse_def Let_def td_def p_def)
  have "fails_with (Parse uri) s \<longleftrightarrow>
     s = (if length td > maxTrustDomainLength then SSpiffeID ErrTrustDomainTooLong
          else if \<not> validTrustDomainPattern td then SSpiffeID ErrInvalidTrustDomain
          else SSpiffeID ErrInvalidPathComponent) \<and> \<not> is_ok (Parse uri)"
    unfolding P
    by (cases "validatePath p")
       (auto simp: validateTrustDomain_def result_simps validatePath_error fail_if_def)
  with False show ?thesis by (simp add: Let_def td_def p_def)
qed

text \<open>
  C32. Round trip: a trust domain and components rendered into a URI are exactly what the accessors
  of the parsed ID return, and \<open>String\<close> returns the URI.
\<close>

theorem Parse_render_roundtrip:
  assumes "valid_trust_domain td" and "\<forall>w\<in>set ws. valid_component w"
    and "length (render_id td ws) \<le> maxIDLength"
  shows "\<exists>i. Parse (render_id td ws) = Inr i \<and> TrustDomain i = td \<and> PathComponents i = ws
           \<and> String i = render_id td ws"
  using Parse_complete [OF assms] PathComponents_path_of [OF assms(2)]
  by (simp add: spiffe_accessors)

theorem Parse_render_roundtrip_witness:
  "\<exists>i. Parse (render_id ''fizzled.internal'' [''server'']) = Inr i
     \<and> TrustDomain i = ''fizzled.internal'' \<and> PathComponents i = [''server'']
     \<and> String i = render_id ''fizzled.internal'' [''server'']"
proof (rule Parse_render_roundtrip)
  show "valid_trust_domain ''fizzled.internal''" by code_simp
  show "\<forall>w\<in>set [''server'']. valid_component w" by code_simp
  show "length (render_id ''fizzled.internal'' [''server'']) \<le> maxIDLength" by code_simp
qed

end
