(* ===== verification/X509_Svid.thy ===== *)
theory X509_Svid
  imports Spiffe_ID
begin

unbundle bit_operations_syntax

text \<open>
  The package \<open>internal/authn/x509svid\<close>: \<open>Verifier\<close>, which checks a peer's certificate chain against
  a bundle of roots and then against the SPIFFE X509-SVID standard. A certificate is a record of the
  fields the code reads; a \<open>*x509.Certificate\<close> that may be nil is an \<open>option\<close>. The cryptographic
  check \<open>leaf.Verify(opts)\<close> of \<open>crypto/x509\<close> is the parameter \<open>x509\<close> and \<open>time.Now()\<close> the
  parameter \<open>now\<close>; instants and durations are integers of nanoseconds.
\<close>

section \<open>Certificates\<close>

datatype ext_key_usage = ExtKeyUsageAny | ExtKeyUsageServerAuth | ExtKeyUsageClientAuth
  | ExtKeyUsageOther nat

datatype curve = P256 | OtherCurve string

datatype public_key = ECDSAKey curve | OtherKey string

text \<open>\<open>cert_uris\<close> holds \<open>String()\<close> of each URI of the URI SAN.\<close>

record certificate =
  cert_raw :: string
  cert_serial :: int
  cert_isCA :: bool
  cert_keyUsage :: "64 word"
  cert_extKeyUsage :: "ext_key_usage list"
  cert_uris :: "string list"
  cert_notBefore :: int
  cert_notAfter :: int
  cert_publicKey :: public_key

definition KeyUsageDigitalSignature :: "64 word" where "KeyUsageDigitalSignature = push_bit 0 1"
definition KeyUsageCertSign :: "64 word" where "KeyUsageCertSign = push_bit 5 1"
definition KeyUsageCRLSign :: "64 word" where "KeyUsageCRLSign = push_bit 6 1"

definition has_usage :: "certificate \<Rightarrow> 64 word \<Rightarrow> bool" where
  "has_usage c u \<longleftrightarrow> cert_keyUsage c AND u \<noteq> 0"

lemma usage_bits:
  "has_usage c KeyUsageDigitalSignature \<longleftrightarrow> bit (cert_keyUsage c) 0"
  "has_usage c KeyUsageCertSign \<longleftrightarrow> bit (cert_keyUsage c) 5"
  "has_usage c KeyUsageCRLSign \<longleftrightarrow> bit (cert_keyUsage c) 6"
  unfolding has_usage_def KeyUsageDigitalSignature_def KeyUsageCertSign_def KeyUsageCRLSign_def
  by (simp_all only: bit_iff_and_push_bit_not_eq_0)

text \<open>\<open>x509.CertPool.AddCert\<close>: a certificate already in the pool is not added twice.\<close>

definition AddCert :: "certificate list \<Rightarrow> certificate \<Rightarrow> certificate list" where
  "AddCert pool c = (if cert_raw c \<in> set (map cert_raw pool) then pool else pool @ [c])"

definition pool_of :: "certificate list \<Rightarrow> certificate list" where
  "pool_of cs = foldl AddCert [] cs"

text \<open>\<open>slices.Index(cs, nil)\<close>, as an option instead of -1.\<close>

fun index_nil :: "'a option list \<Rightarrow> nat option" where
  "index_nil [] = None"
| "index_nil (None # cs) = Some 0"
| "index_nil (Some c # cs) = map_option Suc (index_nil cs)"

text \<open>The options of \<open>x509.Certificate.Verify\<close> that the code sets.\<close>

record verify_options =
  opt_DNSName :: string
  opt_Roots :: "certificate list"
  opt_Intermediates :: "certificate list"
  opt_CurrentTime :: int
  opt_KeyUsages :: "ext_key_usage list"
  opt_MaxConstraintComparisions :: int
  opt_CertificatePolicies :: "string list"

type_synonym x509_verify = "certificate \<Rightarrow> verify_options \<Rightarrow> go_error option"

record leaf =
  leaf_spiffeID :: spiffe_id
  leaf_certificate :: certificate

definition ID :: "leaf \<Rightarrow> spiffe_id" where "ID l = leaf_spiffeID l"
definition Certificate :: "leaf \<Rightarrow> certificate" where "Certificate l = leaf_certificate l"

record verifier =
  verifier_bundle :: "certificate list option"
  verifier_skew :: int

section \<open>Building a verifier\<close>

definition NewVerifier :: "certificate option list \<Rightarrow> int \<Rightarrow> verifier result" where
  "NewVerifier roots skew =
     fail_if (skew < 0) (Wrap1 ''new verifier: '' (Sentinel (SX509 ErrNegativeSkew)))
     (case index_nil roots of
        Some index \<Rightarrow>
          Inl (Wrap1 (''new verifier: root ['' @ show_nat index @ '']: '')
                 (Sentinel (SX509 ErrNoCertificate)))
      | None \<Rightarrow>
          Inr \<lparr>verifier_bundle = Some (pool_of (map the roots)), verifier_skew = skew\<rparr>)"

section \<open>The validity window\<close>

definition clampToValidity :: "int \<Rightarrow> int \<Rightarrow> int \<Rightarrow> int \<Rightarrow> int" where
  "clampToValidity now notBefore notAfter skew =
     (if now < notBefore \<and> \<not> now < notBefore + (- skew) then notBefore
      else if now > notAfter \<and> \<not> now > notAfter + skew then notAfter
      else now)"

section \<open>The X509-SVID rules\<close>

definition newSPIFFEID :: "certificate \<Rightarrow> spiffe_id result" where
  "newSPIFFEID c =
     (case cert_uris c of
        [] \<Rightarrow> Inl (Wrap1 ''spiffe id from certificate: '' (Sentinel (SX509 ErrCertHasNoURI)))
      | [uri] \<Rightarrow> wrapping ''spiffe id from certificate: '' (Parse uri) Inr
      | _ \<Rightarrow> Inl (Wrap1 ''spiffe id from certificate: '' (Sentinel (SX509 ErrCertHasMultipleURIs))))"

definition validateLeafCertificate :: "certificate \<Rightarrow> unit result" where
  "validateLeafCertificate c =
     fail_if (cert_isCA c)
       (Wrap1 ''validate leaf-certificate: '' (Sentinel (SX509 ErrLeafCertIsCA)))
     (fail_if (has_usage c KeyUsageCertSign)
       (Wrap1 ''validate leaf-certificate: '' (Sentinel (SX509 ErrLeafCertHasKeyCertSign)))
     (fail_if (has_usage c KeyUsageCRLSign)
       (Wrap1 ''validate leaf-certificate: '' (Sentinel (SX509 ErrLeafCertHasCRLSign)))
     (fail_if (\<not> has_usage c KeyUsageDigitalSignature)
       (Wrap1 ''validate leaf-certificate: '' (Sentinel (SX509 ErrLeafCertMissingDigitalSignature)))
     (Inr ()))))"

definition leafSPIFFEID :: "certificate \<Rightarrow> spiffe_id result" where
  "leafSPIFFEID c =
     wrapping ''validate leaf-spiffeid: '' (newSPIFFEID c) (\<lambda>spiffeID.
     fail_if (Path spiffeID = [])
       (Wrap1 ''validate leaf-spiffeid: '' (Sentinel (SX509 ErrLeafSPIFFEMissingPath)))
     (Inr spiffeID))"

text \<open>The pair \<open>(id, has)\<close> of the source is an option: a signing certificate may carry no URI.\<close>

definition ValidateSigningCertificate :: "certificate option \<Rightarrow> spiffe_id option result" where
  "ValidateSigningCertificate certificate =
     (case certificate of
        None \<Rightarrow> Inl (Wrap1 ''validate signing-certificate: '' (Sentinel (SX509 ErrNoCertificate)))
      | Some c \<Rightarrow>
          fail_if (\<not> cert_isCA c)
            (Wrap1 ''validate signing-certificate: '' (Sentinel (SX509 ErrSigningCertIsNotCA)))
          (fail_if (\<not> has_usage c KeyUsageCertSign)
            (Wrap1 ''validate signing-certificate: ''
               (Sentinel (SX509 ErrSigningCertMissingKeyCertSign)))
          (if cert_uris c = [] then Inr None
           else wrapping ''validate signing-certificate: '' (newSPIFFEID c) (\<lambda>spiffeID.
             fail_if (Path spiffeID \<noteq> [])
               (Wrap1 ''validate signing-certificate: '' (Sentinel (SX509 ErrSigningSPIFFEHasPath)))
             (Inr (Some spiffeID))))))"

definition validateSigningCertificateForLeaf :: "certificate \<Rightarrow> spiffe_id \<Rightarrow> unit result" where
  "validateSigningCertificateForLeaf c leafID =
     (case ValidateSigningCertificate (Some c) of
        Inl e \<Rightarrow> Inl e
      | Inr None \<Rightarrow> Inr ()
      | Inr (Some signingID) \<Rightarrow>
          fail_if (TrustDomain leafID \<noteq> TrustDomain signingID)
            (Wrap1 ''validate signing-certificate: ''
               (Sentinel (SX509 ErrSigningSPIFFEInDifferentTrustDomainThanLeaf)))
          (Inr ()))"

fun validateSigning :: "certificate list \<Rightarrow> spiffe_id \<Rightarrow> unit result" where
  "validateSigning [] leafID = Inr ()"
| "validateSigning (c # cs) leafID =
     (case validateSigningCertificateForLeaf c leafID of
        Inl e \<Rightarrow> Inl e
      | Inr _ \<Rightarrow> validateSigning cs leafID)"

definition validateChain :: "certificate \<Rightarrow> certificate list \<Rightarrow> leaf result" where
  "validateChain leafCertificate signing =
     (case validateLeafCertificate leafCertificate of
        Inl e \<Rightarrow> Inl e
      | Inr _ \<Rightarrow>
          (case leafSPIFFEID leafCertificate of
             Inl e \<Rightarrow> Inl e
           | Inr leafID \<Rightarrow>
               (case validateSigning signing leafID of
                  Inl e \<Rightarrow> Inl e
                | Inr _ \<Rightarrow> Inr \<lparr>leaf_spiffeID = leafID, leaf_certificate = leafCertificate\<rparr>)))"

section \<open>Verifying a chain\<close>

definition chain_options :: "int \<Rightarrow> verifier \<Rightarrow> certificate list \<Rightarrow> certificate
    \<Rightarrow> certificate list \<Rightarrow> verify_options" where
  "chain_options now v roots leafCertificate intermediates =
     \<lparr>opt_DNSName = '''',
      opt_Roots = roots,
      opt_Intermediates = pool_of intermediates,
      opt_CurrentTime =
        clampToValidity now (cert_notBefore leafCertificate) (cert_notAfter leafCertificate)
          (verifier_skew v),
      opt_KeyUsages = [ExtKeyUsageAny],
      opt_MaxConstraintComparisions = 0,
      opt_CertificatePolicies = []\<rparr>"

definition verifyChain :: "x509_verify \<Rightarrow> int \<Rightarrow> verifier \<Rightarrow> certificate \<Rightarrow> certificate list
    \<Rightarrow> unit result" where
  "verifyChain x509 now v leafCertificate intermediates =
     (case verifier_bundle v of
        None \<Rightarrow> Inl (Wrap1 ''verify chain: '' (Sentinel (SX509 ErrNoTrustBundle)))
      | Some roots \<Rightarrow>
          (case x509 leafCertificate (chain_options now v roots leafCertificate intermediates) of
             Some e \<Rightarrow>
               Inl (Wrap1 (''verify chain [serial '' @ show_int_base 16 (cert_serial leafCertificate)
                       @ '']: '') e)
           | None \<Rightarrow> Inr ()))"

definition Verify :: "x509_verify \<Rightarrow> int \<Rightarrow> verifier \<Rightarrow> certificate option list \<Rightarrow> leaf result" where
  "Verify x509 now v certificates =
     (if certificates = [] then Inl (Wrap1 ''verify: '' (Sentinel (SX509 ErrNoCertificate)))
      else
        (case index_nil certificates of
           Some index \<Rightarrow>
             Inl (Wrap1 (''verify: nil certificate ['' @ show_nat index @ '']: '')
                    (Sentinel (SX509 ErrNoCertificate)))
         | None \<Rightarrow>
             (let leafCertificate = the (hd certificates); rest = map the (tl certificates)
              in wrapping ''verify: '' (verifyChain x509 now v leafCertificate rest) (\<lambda>_.
                 wrapping ''verify: '' (validateChain leafCertificate rest) Inr))))"

section \<open>What a verifier accepts\<close>

lemma index_nil_None: "index_nil cs = None \<longleftrightarrow> None \<notin> set cs"
  by (induction cs rule: index_nil.induct) auto

lemma index_nil_Some: "index_nil cs = Some i \<Longrightarrow> i < length cs \<and> cs ! i = None"
  by (induction cs arbitrary: i rule: index_nil.induct) auto

lemma no_nil_map: "None \<notin> set cs \<Longrightarrow> cs = map Some (map the cs)"
  by (induction cs) auto

lemma index_nil_map_Some [simp]: "index_nil (map Some cs) = None"
  by (auto simp: index_nil_None)

lemma AddCert_raws: "set (map cert_raw (AddCert pool c)) = insert (cert_raw c) (set (map cert_raw pool))"
  by (auto simp: AddCert_def)

lemma foldl_AddCert_raws:
  "set (map cert_raw (foldl AddCert pool cs)) = set (map cert_raw pool) \<union> set (map cert_raw cs)"
proof (induction cs arbitrary: pool)
  case (Cons c cs)
  have "set (map cert_raw (foldl AddCert pool (c # cs)))
      = set (map cert_raw (AddCert pool c)) \<union> set (map cert_raw cs)"
    by (simp only: foldl.simps Cons.IH)
  then show ?case by (simp only: AddCert_raws) auto
qed simp

lemma foldl_AddCert_subset: "set (foldl AddCert pool cs) \<subseteq> set pool \<union> set cs"
proof (induction cs arbitrary: pool)
  case (Cons c cs)
  have "set (AddCert pool c) \<subseteq> insert c (set pool)" by (auto simp: AddCert_def)
  with Cons.IH [of "AddCert pool c"] show ?case by auto
qed simp

lemma pool_of_raws: "set (map cert_raw (pool_of cs)) = set (map cert_raw cs)"
  using foldl_AddCert_raws [of "[]" cs] by (simp add: pool_of_def)

lemma pool_of_subset: "set (pool_of cs) \<subseteq> set cs"
  using foldl_AddCert_subset [of "[]" cs] by (simp add: pool_of_def)

text \<open>The certificate's one URI SAN is the SPIFFE ID \<open>i\<close>.\<close>

definition carries :: "certificate \<Rightarrow> spiffe_id \<Rightarrow> bool" where
  "carries c i \<longleftrightarrow> cert_uris c = [String i] \<and> Parse (String i) = Inr i"

definition conformant_leaf :: "certificate \<Rightarrow> bool" where
  "conformant_leaf c \<longleftrightarrow> \<not> cert_isCA c \<and> \<not> bit (cert_keyUsage c) 5 \<and> \<not> bit (cert_keyUsage c) 6
     \<and> bit (cert_keyUsage c) 0"

definition conformant_signer :: "certificate \<Rightarrow> bool" where
  "conformant_signer c \<longleftrightarrow> cert_isCA c \<and> bit (cert_keyUsage c) 5"

definition signer_in_domain :: "string \<Rightarrow> certificate \<Rightarrow> bool" where
  "signer_in_domain td c \<longleftrightarrow> conformant_signer c
     \<and> (cert_uris c = [] \<or> (\<exists>i. carries c i \<and> Path i = [] \<and> TrustDomain i = td))"

lemma newSPIFFEID_ok: "newSPIFFEID c = Inr i \<longleftrightarrow> carries c i"
  unfolding newSPIFFEID_def carries_def
  by (auto split: list.splits dest: Parse_sound(1))

lemma carries_inj: "carries c i \<Longrightarrow> carries c j \<Longrightarrow> i = j"
  by (simp add: carries_def)

lemma carries_uris: "carries c i \<Longrightarrow> cert_uris c \<noteq> []"
  by (simp add: carries_def)

lemma validateLeafCertificate_ok: "validateLeafCertificate c = Inr u \<longleftrightarrow> conformant_leaf c"
  unfolding validateLeafCertificate_def conformant_leaf_def by (auto simp: usage_bits)

lemma leafSPIFFEID_ok: "leafSPIFFEID c = Inr i \<longleftrightarrow> carries c i \<and> Path i \<noteq> []"
  by (auto simp: leafSPIFFEID_def newSPIFFEID_ok)

lemma ValidateSigningCertificate_ok:
  "ValidateSigningCertificate cert = Inr r \<longleftrightarrow>
     (\<exists>c. cert = Some c \<and> conformant_signer c \<and>
        (case r of None \<Rightarrow> cert_uris c = [] | Some i \<Rightarrow> carries c i \<and> Path i = []))"
  unfolding ValidateSigningCertificate_def conformant_signer_def
  by (auto simp: usage_bits newSPIFFEID_ok carries_def split: option.splits)

lemma validateSigningCertificateForLeaf_ok:
  "validateSigningCertificateForLeaf c i = Inr u \<longleftrightarrow> signer_in_domain (TrustDomain i) c"
proof (cases "ValidateSigningCertificate (Some c)")
  case (Inl e)
  then have no: "\<not> (conformant_signer c \<and>
      (case r of None \<Rightarrow> cert_uris c = [] | Some j \<Rightarrow> carries c j \<and> Path j = []))" for r
    using ValidateSigningCertificate_ok [of "Some c" r] by simp
  have "\<not> signer_in_domain (TrustDomain i) c"
    unfolding signer_in_domain_def using no [of None] no [of "Some j" for j] by auto
  with Inl show ?thesis by (simp add: validateSigningCertificateForLeaf_def)
next
  case (Inr r)
  then have r: "conformant_signer c"
    "case r of None \<Rightarrow> cert_uris c = [] | Some i \<Rightarrow> carries c i \<and> Path i = []"
    by (auto simp: ValidateSigningCertificate_ok)
  show ?thesis
  proof (cases r)
    case None
    with Inr r show ?thesis
      by (simp add: validateSigningCertificateForLeaf_def signer_in_domain_def)
  next
    case (Some j)
    with r have j: "carries c j" "Path j = []" by simp_all
    then have "signer_in_domain (TrustDomain i) c \<longleftrightarrow> TrustDomain j = TrustDomain i"
      using r(1) carries_inj carries_uris unfolding signer_in_domain_def by metis
    with Inr Some show ?thesis
      by (auto simp: validateSigningCertificateForLeaf_def)
  qed
qed

lemma validateSigning_ok:
  "validateSigning cs i = Inr u \<longleftrightarrow> (\<forall>c\<in>set cs. signer_in_domain (TrustDomain i) c)"
proof (induction cs)
  case (Cons c cs)
  show ?case
    using Cons validateSigningCertificateForLeaf_ok [of c i "()"]
    by (cases "validateSigningCertificateForLeaf c i") auto
qed simp

lemma validateChain_ok:
  "validateChain c cs = Inr l \<longleftrightarrow>
     conformant_leaf c \<and> Certificate l = c \<and> carries c (ID l) \<and> Path (ID l) \<noteq> []
     \<and> (\<forall>s\<in>set cs. signer_in_domain (TrustDomain (ID l)) s)"
proof -
  have "validateChain c cs = Inr l \<longleftrightarrow>
      validateLeafCertificate c = Inr ()
      \<and> (\<exists>i. leafSPIFFEID c = Inr i \<and> validateSigning cs i = Inr ()
           \<and> l = \<lparr>leaf_spiffeID = i, leaf_certificate = c\<rparr>)"
    by (auto simp: validateChain_def split: sum.splits)
  then show ?thesis
    unfolding validateLeafCertificate_ok leafSPIFFEID_ok validateSigning_ok
    by (auto simp: ID_def Certificate_def)
qed

text \<open>The chain anchors to the bundle, at the clamped instant.\<close>

definition anchors :: "x509_verify \<Rightarrow> int \<Rightarrow> verifier \<Rightarrow> certificate \<Rightarrow> certificate list \<Rightarrow> bool" where
  "anchors x509 now v c cs \<longleftrightarrow>
     (\<exists>roots. verifier_bundle v = Some roots \<and> x509 c (chain_options now v roots c cs) = None)"

lemma verifyChain_ok: "verifyChain x509 now v c cs = Inr u \<longleftrightarrow> anchors x509 now v c cs"
  by (auto simp: verifyChain_def anchors_def split: option.splits)

lemma Verify_map_Some:
  "Verify x509 now v (map Some (c # cs)) =
     wrapping ''verify: '' (verifyChain x509 now v c cs) (\<lambda>_.
     wrapping ''verify: '' (validateChain c cs) Inr)"
  by (simp add: Verify_def Let_def comp_def)

lemma Verify_no_nil:
  assumes "Verify x509 now v certs = Inr l"
  shows "\<exists>c cs. certs = map Some (c # cs)"
proof -
  have "None \<notin> set certs" "certs \<noteq> []"
    using assms by (auto simp: Verify_def index_nil_None [symmetric] split: if_splits option.splits)
  then show ?thesis by (metis list.exhaust list.map_disc_iff no_nil_map)
qed

section \<open>The interface its clients rely on\<close>

text \<open>
  What \<open>authn\<close> asks of a chain verifier: a leaf it returns is the certificate at the head of the
  chain, conforms to the standard and carries the SPIFFE ID, with a path, that the leaf names.
\<close>

locale chain_verifier =
  fixes verify :: "certificate option list \<Rightarrow> leaf result"
  assumes verify_head: "verify chain = Inr l \<Longrightarrow> \<exists>rest. chain = Some (Certificate l) # rest"
    and verify_carries: "verify chain = Inr l \<Longrightarrow> carries (Certificate l) (ID l)"
    and verify_path: "verify chain = Inr l \<Longrightarrow> Path (ID l) \<noteq> []"
    and verify_leaf: "verify chain = Inr l \<Longrightarrow> conformant_leaf (Certificate l)"
begin

lemma verify_empty: "\<not> is_ok (verify [])"
  using verify_head by (fastforce simp: is_ok_conv)

lemma verify_id_parses: "verify chain = Inr l \<Longrightarrow> Parse (String (ID l)) = Inr (ID l)"
  using verify_carries by (auto simp: carries_def)

lemma verify_components:
  assumes "verify chain = Inr l"
  shows "valid_trust_domain (TrustDomain (ID l))"
    "\<forall>w\<in>set (PathComponents (ID l)). valid_component w" "PathComponents (ID l) \<noteq> []"
  using Parse_sound [OF verify_id_parses [OF assms]] verify_path [OF assms]
  by (auto simp: PathComponents_def Path_def)

end

lemma Verify_ok:
  assumes "Verify x509 now v chain = Inr l"
  shows "\<exists>cs. chain = Some (Certificate l) # map Some cs \<and> anchors x509 now v (Certificate l) cs
     \<and> conformant_leaf (Certificate l) \<and> carries (Certificate l) (ID l) \<and> Path (ID l) \<noteq> []
     \<and> (\<forall>s\<in>set cs. signer_in_domain (TrustDomain (ID l)) s)"
proof -
  obtain c cs where chain: "chain = map Some (c # cs)" using Verify_no_nil [OF assms] by blast
  with assms show ?thesis
    unfolding chain Verify_map_Some by (auto simp: verifyChain_ok validateChain_ok)
qed

lemma Verify_complete:
  assumes "anchors x509 now v (Certificate l) cs" and "conformant_leaf (Certificate l)"
    and "carries (Certificate l) (ID l)" and "Path (ID l) \<noteq> []"
    and "\<forall>s\<in>set cs. signer_in_domain (TrustDomain (ID l)) s"
  shows "Verify x509 now v (Some (Certificate l) # map Some cs) = Inr l"
proof -
  have "verifyChain x509 now v (Certificate l) cs = Inr ()" using assms(1) by (simp add: verifyChain_ok)
  moreover have "validateChain (Certificate l) cs = Inr l" using assms by (simp add: validateChain_ok)
  moreover have "Some (Certificate l) # map Some cs = map Some (Certificate l # cs)" by simp
  ultimately show ?thesis by (simp only: Verify_map_Some wrapping_of_Inr)
qed

interpretation svid: chain_verifier "Verify x509 now v" for x509 now v
  by unfold_locales (use Verify_ok in blast)+

section \<open>Properties\<close>

text \<open>
  C30. A chain verifies if and only if it is not empty, holds no nil, anchors cryptographically to
  the verifier's bundle at the clamped instant, its leaf is no CA, signs neither certificates nor
  CRLs, has digitalSignature and exactly one URI SAN, a SPIFFE ID with a path, and every further
  certificate is a CA with keyCertSign whose URI SAN, if any, is the path-less ID of the leaf's
  trust domain. The returned leaf is that certificate with that ID.
\<close>

theorem Verify_accepts_iff:
  "Verify x509 now v chain = Inr l \<longleftrightarrow>
     (\<exists>cs. chain = Some (Certificate l) # map Some cs \<and> anchors x509 now v (Certificate l) cs
        \<and> conformant_leaf (Certificate l) \<and> carries (Certificate l) (ID l) \<and> Path (ID l) \<noteq> []
        \<and> list_all (signer_in_domain (TrustDomain (ID l))) cs)"
  using Verify_ok Verify_complete by (auto simp: list_all_iff)

text \<open>
  C37. The clock-skew tolerance: the instant a chain is judged at lies in the leaf's validity window
  exactly when the present does up to the tolerance on either side, and it is never further from
  the present than the tolerance.
\<close>

theorem clampToValidity_window:
  assumes "0 \<le> skew" and "notBefore \<le> notAfter"
  shows "(notBefore \<le> clampToValidity now notBefore notAfter skew
           \<and> clampToValidity now notBefore notAfter skew \<le> notAfter
         \<longleftrightarrow> notBefore - skew \<le> now \<and> now \<le> notAfter + skew)
       \<and> \<bar>clampToValidity now notBefore notAfter skew - now\<bar> \<le> skew"
  using assms by (auto simp: clampToValidity_def)

theorem clampToValidity_window_witness:
  "(100 \<le> clampToValidity 95 100 200 10 \<and> clampToValidity 95 100 200 10 \<le> 200
         \<longleftrightarrow> (100::int) - 10 \<le> 95 \<and> (95::int) \<le> 200 + 10)
       \<and> \<bar>clampToValidity 95 100 200 10 - 95\<bar> \<le> 10"
  by (rule clampToValidity_window) simp_all

text \<open>
  A verifier is built exactly from a non-negative tolerance and roots without a nil, and trusts
  those roots and nothing else: its bundle is never absent, every certificate in it is one of the
  roots, and every root is in it up to a byte-identical copy.
\<close>

lemma NewVerifier_trusts_roots:
  "is_ok (NewVerifier roots skew) = (0 \<le> skew \<and> None \<notin> set roots)
   \<and> (\<forall>v. NewVerifier roots skew = Inr v \<longrightarrow>
        verifier_skew v = skew
        \<and> (\<exists>bundle. verifier_bundle v = Some bundle \<and> Some ` set bundle \<subseteq> set roots
             \<and> cert_raw ` set bundle = cert_raw ` (the ` set roots)))"
proof (cases "skew < 0 \<or> None \<in> set roots")
  case True
  then show ?thesis
    by (cases "index_nil roots") (auto simp: NewVerifier_def index_nil_None fail_if_def)
next
  case False
  let ?b = "pool_of (map the roots)"
  have v: "NewVerifier roots skew = Inr \<lparr>verifier_bundle = Some ?b, verifier_skew = skew\<rparr>"
    using False by (simp add: NewVerifier_def index_nil_None [THEN iffD2])
  have "Some ` set ?b \<subseteq> Some ` the ` set roots" using pool_of_subset [of "map the roots"] by auto
  also have "\<dots> = set roots"
    using False by (metis image_image list.set_map no_nil_map)
  finally show ?thesis
    using v False pool_of_raws [of "map the roots"] by (simp add: image_image)
qed

end
