(* ===== verification/Externals.thy ===== *)
theory Externals
  imports X509_Svid
begin

text \<open>
  The code the program calls that is not under \<open>src/\<close> and that the model takes as a parameter: the
  operating system's files, PEM and X.509 decoding, the cryptographic chain check and JSON. One
  record of functions, passed to the definitions that need it. The laws the properties rely on are
  predicates on that record, stated here and named where they are used.
\<close>

record pem_block =
  pem_type :: string
  pem_headers :: "(string \<times> string) list"
  pem_bytes :: string

record externals =
  ext_read_file :: "string \<Rightarrow> string result"            \<comment> \<open>\<open>os.ReadFile\<close>\<close>
  ext_load_key_pair :: "string \<Rightarrow> string \<Rightarrow> string list result"
                                                         \<comment> \<open>\<open>tls.LoadX509KeyPair\<close>: the DER chain\<close>
  ext_parse_certificate :: "string \<Rightarrow> certificate result" \<comment> \<open>\<open>x509.ParseCertificate\<close>\<close>
  ext_pem_decode :: "string \<Rightarrow> (pem_block \<times> string) option" \<comment> \<open>\<open>pem.Decode\<close>\<close>
  ext_x509_verify :: x509_verify                         \<comment> \<open>\<open>x509.Certificate.Verify\<close>\<close>
  ext_json_members :: "string \<Rightarrow> (string \<times> string) list result"
      \<comment> \<open>\<open>json.Unmarshal\<close> of an object: its members in order, values as raw text; none for null\<close>
  ext_json_string :: "string \<Rightarrow> string result"
      \<comment> \<open>\<open>json.Unmarshal\<close> into a string that is empty before; null leaves it empty\<close>

text \<open>
  \<open>pem.Decode\<close> returns the rest of its input after the block it found, so a decoded block always
  consumes something.
\<close>

definition pem_consumes :: "externals \<Rightarrow> bool" where
  "pem_consumes x \<longleftrightarrow>
     (\<forall>s b rest. ext_pem_decode x s = Some (b, rest) \<longrightarrow> length rest < length s)"

end
