(* ===== verification/Agent_Identity.thy ===== *)
theory Agent_Identity
  imports Externals
begin

text \<open>
  \<open>internal/authn/agentid.go\<close> and \<open>identity.go\<close>: the agent identifier, the two identity shapes of
  the trust domain, the issuance policy on a leaf, and loading the identity a process presents.
\<close>

section \<open>Agent identifiers\<close>

type_synonym agent_id = string

definition maxAgentIDLength :: nat where "maxAgentIDLength = 64"

definition agentID_byte :: "char \<Rightarrow> bool" where
  "agentID_byte c \<longleftrightarrow> is_lower c \<or> is_upper c \<or> is_digit c \<or> c \<in> set ''_-''"

definition validAgentIDPattern :: "string \<Rightarrow> bool" where
  "validAgentIDPattern s \<longleftrightarrow> matches_class agentID_byte s"

definition Validate :: "agent_id \<Rightarrow> unit result" where
  "Validate a =
     fail_if (a = '''') (Wrap1 ''validate: empty string: '' (Sentinel (SAuthn ErrInvalidAgentID)))
     (fail_if (length a > maxAgentIDLength)
       (Wrap1 (''validate: longer than '' @ show_nat maxAgentIDLength @ '' bytes: '')
          (Sentinel (SAuthn ErrInvalidAgentID)))
     (fail_if (\<not> validAgentIDPattern a)
       (Wrap1 ''validate: contains a character that is not allowed: ''
          (Sentinel (SAuthn ErrInvalidAgentID)))
     (Inr ())))"

definition NewAgentID :: "string \<Rightarrow> agent_id result" where
  "NewAgentID input = wrapping ''new agent id: '' (Validate input) (\<lambda>_. Inr input)"

section \<open>The identities of the trust domain\<close>

text \<open>\<open>authn.TrustDomain\<close>.\<close>

definition fizzledTrustDomain :: string where "fizzledTrustDomain = ''fizzled.internal''"

definition pathServer :: string where "pathServer = ''server''"
definition pathClient :: string where "pathClient = ''client''"
definition pathAgent :: string where "pathAgent = ''agent''"
definition serverPathComponents :: nat where "serverPathComponents = 1"
definition clientPathComponents :: nat where "clientPathComponents = 3"

lemmas identity_consts = fizzledTrustDomain_def pathServer_def pathClient_def pathAgent_def
  serverPathComponents_def clientPathComponents_def

definition leafPolicy :: "certificate \<Rightarrow> unit result" where
  "leafPolicy c =
     fail_if (ExtKeyUsageServerAuth \<notin> set (cert_extKeyUsage c))
       (Wrap1 ''leaf policy: '' (Sentinel (SAuthn ErrMissingServerAuth)))
     (fail_if (ExtKeyUsageClientAuth \<notin> set (cert_extKeyUsage c))
       (Wrap1 ''leaf policy: '' (Sentinel (SAuthn ErrMissingClientAuth)))
     (case cert_publicKey c of
        OtherKey k \<Rightarrow> Inl (Wrap1 ''leaf policy: '' (Sentinel (SAuthn ErrKeyNotECDSA)))
      | ECDSAKey crv \<Rightarrow>
          fail_if (crv \<noteq> P256) (Wrap1 ''leaf policy: '' (Sentinel (SAuthn ErrKeyNotP256)))
          (Inr ())))"

definition clientAgentID :: "spiffe_id \<Rightarrow> agent_id result" where
  "clientAgentID spiffeID =
     fail_if (TrustDomain spiffeID \<noteq> fizzledTrustDomain)
       (Wrap1 (''client agent id ['' @ String spiffeID @ '']: '') (Sentinel (SAuthn ErrWrongTrustDomain)))
     (let components = PathComponents spiffeID
      in fail_if (length components \<noteq> clientPathComponents \<or> components ! 0 \<noteq> pathClient
              \<or> components ! 1 \<noteq> pathAgent)
           (Wrap1 (''client agent id ['' @ String spiffeID @ '']: '')
              (Sentinel (SAuthn ErrUnexpectedIdentity)))
         (wrapping (''client agent id ['' @ String spiffeID @ '']: '') (NewAgentID (components ! 2)) Inr))"

definition serverIdentity :: "spiffe_id \<Rightarrow> unit result" where
  "serverIdentity spiffeID =
     fail_if (TrustDomain spiffeID \<noteq> fizzledTrustDomain)
       (Wrap1 (''server identity ['' @ String spiffeID @ '']: '') (Sentinel (SAuthn ErrWrongTrustDomain)))
     (let components = PathComponents spiffeID
      in fail_if (length components \<noteq> serverPathComponents \<or> components ! 0 \<noteq> pathServer)
           (Wrap1 (''server identity ['' @ String spiffeID @ '']: '')
              (Sentinel (SAuthn ErrUnexpectedIdentity)))
         (Inr ()))"

text \<open>The key pair a process presents, by its DER chain, and that chain parsed.\<close>

fun parse_chain :: "externals \<Rightarrow> string \<Rightarrow> string list \<Rightarrow> certificate option list result" where
  "parse_chain x certPath [] = Inr []"
| "parse_chain x certPath (der # ders) =
     wrapping (''parse key-pair ['' @ certPath @ '']: '') (ext_parse_certificate x der) (\<lambda>c.
     case parse_chain x certPath ders of Inl e \<Rightarrow> Inl e | Inr cs \<Rightarrow> Inr (Some c # cs))"

definition loadIdentity :: "externals \<Rightarrow> string \<Rightarrow> string
    \<Rightarrow> (string list \<times> certificate option list) result" where
  "loadIdentity x certPath keyPath =
     wrapping (''load key-pair ['' @ certPath @ '']: '')
       (ext_load_key_pair x (Clean certPath) (Clean keyPath)) (\<lambda>identity.
     case parse_chain x certPath identity of
       Inl e \<Rightarrow> Inl e
     | Inr chain \<Rightarrow> Inr (identity, chain))"

section \<open>What is accepted\<close>

definition valid_agent_id :: "string \<Rightarrow> bool" where
  "valid_agent_id a \<longleftrightarrow> a \<noteq> '''' \<and> length a \<le> 64 \<and> (\<forall>c\<in>set a. agentID_byte c)"

definition issued_by_policy :: "certificate \<Rightarrow> bool" where
  "issued_by_policy c \<longleftrightarrow> ExtKeyUsageServerAuth \<in> set (cert_extKeyUsage c)
     \<and> ExtKeyUsageClientAuth \<in> set (cert_extKeyUsage c) \<and> cert_publicKey c = ECDSAKey P256"

definition agent_uri :: "agent_id \<Rightarrow> string" where
  "agent_uri a = ''spiffe://fizzled.internal/client/agent/'' @ a"

definition server_uri :: string where
  "server_uri = ''spiffe://fizzled.internal/server''"

lemma Validate_ok: "Validate a = Inr u \<longleftrightarrow> valid_agent_id a"
  by (auto simp: Validate_def valid_agent_id_def validAgentIDPattern_def matches_class_def
      maxAgentIDLength_def list_all_iff)

lemma NewAgentID_ok: "NewAgentID s = Inr a \<longleftrightarrow> a = s \<and> valid_agent_id s"
  by (auto simp: NewAgentID_def Validate_ok)

lemma leafPolicy_ok: "leafPolicy c = Inr u \<longleftrightarrow> issued_by_policy c"
  by (auto simp: leafPolicy_def issued_by_policy_def split: public_key.split)

lemma three_components:
  "length ws = 3 \<and> ws ! 0 = a \<and> ws ! 1 = b \<and> ws ! 2 = c \<longleftrightarrow> ws = [a, b, c]"
  by (auto simp: numeral_3_eq_3 length_Suc_conv)

lemma one_component: "length ws = 1 \<and> ws ! 0 = a \<longleftrightarrow> ws = [a]"
  by (auto simp: length_Suc_conv)

lemma clientAgentID_ok:
  "clientAgentID i = Inr a \<longleftrightarrow> TrustDomain i = fizzledTrustDomain
     \<and> PathComponents i = [pathClient, pathAgent, a] \<and> valid_agent_id a"
  unfolding clientAgentID_def Let_def three_components [symmetric]
  by (auto simp: NewAgentID_ok clientPathComponents_def)

lemma serverIdentity_ok:
  "serverIdentity i = Inr u \<longleftrightarrow> TrustDomain i = fizzledTrustDomain \<and> PathComponents i = [pathServer]"
  unfolding serverIdentity_def Let_def one_component [symmetric]
  by (auto simp: serverPathComponents_def)

lemma agent_uri_render: "agent_uri a = render_id fizzledTrustDomain [pathClient, pathAgent, a]"
  by (simp add: agent_uri_def render_id_def path_of_def uriScheme_def identity_consts)

lemma server_uri_render: "server_uri = render_id fizzledTrustDomain [pathServer]"
  by (simp add: server_uri_def render_id_def path_of_def uriScheme_def identity_consts)

lemma agent_id_no_dot: "valid_agent_id a \<Longrightarrow> CHR ''.'' \<notin> set a \<and> CHR ''/'' \<notin> set a"
  by (fastforce simp: valid_agent_id_def agentID_byte_def byte_class_defs)

lemma agent_id_component: "valid_agent_id a \<Longrightarrow> valid_component a"
  using agent_id_no_dot [of a]
  by (auto simp: valid_component_def valid_agent_id_def validPathComponentPattern_def
      matches_class_def list_all_iff agentID_byte_def pathComponent_byte_def)

lemma fixed_parts_valid:
  "valid_trust_domain fizzledTrustDomain" "valid_component pathServer"
  "valid_component pathClient" "valid_component pathAgent"
  by code_simp+

lemma agent_uri_parses:
  assumes "valid_agent_id a"
  shows "\<exists>i. Parse (agent_uri a) = Inr i \<and> clientAgentID i = Inr a \<and> String i = agent_uri a"
proof -
  let ?ws = "[pathClient, pathAgent, a]"
  have ws: "\<forall>w\<in>set ?ws. valid_component w"
    using fixed_parts_valid agent_id_component [OF assms] by simp
  have "length (render_id fizzledTrustDomain ?ws) \<le> maxIDLength"
    using assms by (simp add: agent_uri_render [symmetric] agent_uri_def maxIDLength_def valid_agent_id_def)
  from Parse_complete [OF fixed_parts_valid(1) ws this]
  show ?thesis
    using assms PathComponents_path_of [OF ws]
    by (auto simp: agent_uri_render clientAgentID_ok spiffe_accessors)
qed

lemma clientAgentID_uri:
  assumes "Parse uri = Inr i" and "clientAgentID i = Inr a"
  shows "uri = agent_uri a" "valid_agent_id a"
  using Parse_sound(4) [OF assms(1)] assms(2) by (auto simp: clientAgentID_ok agent_uri_render)

lemma serverIdentity_uri:
  assumes "Parse uri = Inr i" and "serverIdentity i = Inr u"
  shows "uri = server_uri"
  using Parse_sound(4) [OF assms(1)] assms(2) by (auto simp: serverIdentity_ok server_uri_render)

lemma server_uri_parses: "\<exists>i. Parse server_uri = Inr i \<and> serverIdentity i = Inr ()"
proof -
  have "Parse server_uri = Inr \<lparr>id_uri = server_uri, id_trustDomain = fizzledTrustDomain,
      id_path = path_of [pathServer]\<rparr>"
    unfolding server_uri_render
    by (rule Parse_complete) (use fixed_parts_valid in \<open>simp_all, code_simp\<close>)
  moreover have "PathComponents \<lparr>id_uri = server_uri, id_trustDomain = fizzledTrustDomain,
      id_path = path_of [pathServer]\<rparr> = [pathServer]"
    by (rule PathComponents_path_of) (use fixed_parts_valid in simp)
  ultimately show ?thesis by (auto simp: serverIdentity_ok spiffe_accessors)
qed

section \<open>Properties\<close>

text \<open>
  An agent identifier is accepted if and only if it has between 1 and 64 bytes, each an ASCII
  letter, digit, hyphen or underscore; every rejection is ErrInvalidAgentID. An accepted identifier
  therefore carries no separator and no relative modifier.
\<close>

lemma NewAgentID_accepts_iff:
  "(NewAgentID s = Inr a \<longleftrightarrow> a = s \<and> 1 \<le> length s \<and> length s \<le> 64 \<and> list_all agentID_byte s)
   \<and> is_ok (NewAgentID s) \<noteq> fails_with (NewAgentID s) (SAuthn ErrInvalidAgentID)"
proof
  show "NewAgentID s = Inr a \<longleftrightarrow> a = s \<and> 1 \<le> length s \<and> length s \<le> 64 \<and> list_all agentID_byte s"
    by (cases s) (auto simp: NewAgentID_ok valid_agent_id_def list_all_iff)
  show "is_ok (NewAgentID s) \<noteq> fails_with (NewAgentID s) (SAuthn ErrInvalidAgentID)"
    by (auto simp: NewAgentID_def Validate_def fail_if_def)
qed

text \<open>
  The two identity shapes. A URI parses to a client identity for agent \<open>a\<close> exactly when it is
  \<open>spiffe://fizzled.internal/client/agent/<a>\<close> with a valid identifier, so the identifier determines
  the URI and the URI the identifier; it parses to the server identity exactly when it is
  \<open>spiffe://fizzled.internal/server\<close>; and no URI is both.
\<close>

lemma identity_shapes:
  "((\<exists>i. Parse uri = Inr i \<and> clientAgentID i = Inr a) \<longleftrightarrow> valid_agent_id a \<and> uri = agent_uri a)
   \<and> ((\<exists>i. Parse uri = Inr i \<and> serverIdentity i = Inr ()) \<longleftrightarrow> uri = server_uri)
   \<and> \<not> (is_ok (clientAgentID j) \<and> is_ok (serverIdentity j))"
proof (intro conjI)
  show "(\<exists>i. Parse uri = Inr i \<and> clientAgentID i = Inr a) \<longleftrightarrow> valid_agent_id a \<and> uri = agent_uri a"
    using agent_uri_parses clientAgentID_uri by blast
  show "(\<exists>i. Parse uri = Inr i \<and> serverIdentity i = Inr ()) \<longleftrightarrow> uri = server_uri"
    using server_uri_parses serverIdentity_uri by blast
  show "\<not> (is_ok (clientAgentID j) \<and> is_ok (serverIdentity j))"
    by (auto simp: is_ok_conv clientAgentID_ok serverIdentity_ok)
qed

end
