(* ===== verification/Trust_Bundle.thy ===== *)
theory Trust_Bundle
  imports Agent_Identity
begin

text \<open>
  \<open>internal/authn/trustbundle.go\<close>: reading the trust bundle block by block. The loop over the rest of
  the file is a \<^theory_text>\<open>partial_function (option)\<close>, because what shrinks is the output of
  \<open>pem.Decode\<close>, a parameter; that it returns is proved from \<open>pem_consumes\<close>.
\<close>

section \<open>Bytes\<close>

text \<open>The UTF-8 encodings of the runes of \<open>unicode.IsSpace\<close>, which \<open>bytes.TrimSpace\<close> strips.\<close>

definition space_runes :: "string list" where
  "space_runes =
    [[CHR 0x09], [CHR 0x0A], [CHR 0x0B], [CHR 0x0C], [CHR 0x0D], [CHR 0x20],
     [CHR 0xC2, CHR 0x85], [CHR 0xC2, CHR 0xA0], [CHR 0xE1, CHR 0x9A, CHR 0x80],
     [CHR 0xE2, CHR 0x80, CHR 0x80], [CHR 0xE2, CHR 0x80, CHR 0x81], [CHR 0xE2, CHR 0x80, CHR 0x82],
     [CHR 0xE2, CHR 0x80, CHR 0x83], [CHR 0xE2, CHR 0x80, CHR 0x84], [CHR 0xE2, CHR 0x80, CHR 0x85],
     [CHR 0xE2, CHR 0x80, CHR 0x86], [CHR 0xE2, CHR 0x80, CHR 0x87], [CHR 0xE2, CHR 0x80, CHR 0x88],
     [CHR 0xE2, CHR 0x80, CHR 0x89], [CHR 0xE2, CHR 0x80, CHR 0x8A], [CHR 0xE2, CHR 0x80, CHR 0xA8],
     [CHR 0xE2, CHR 0x80, CHR 0xA9], [CHR 0xE2, CHR 0x80, CHR 0xAF], [CHR 0xE2, CHR 0x81, CHR 0x9F],
     [CHR 0xE3, CHR 0x80, CHR 0x80]]"

text \<open>Strip leading members of a list of nonempty strings.\<close>

function strip_left :: "string list \<Rightarrow> string \<Rightarrow> string" where
  "strip_left ws s =
     (case find (\<lambda>w. w \<noteq> [] \<and> has_prefix w s) ws of
        None \<Rightarrow> s
      | Some w \<Rightarrow> strip_left ws (drop (length w) s))"
  by pat_completeness auto
termination
proof (relation "measure (length \<circ> snd)")
  fix ws s w
  assume "find (\<lambda>w. w \<noteq> [] \<and> has_prefix w s) ws = Some w"
  then have "w \<noteq> []" "has_prefix w s" by (auto simp: find_Some_iff)
  then show "((ws, drop (length w) s), (ws, s)) \<in> measure (length \<circ> snd)"
    by (auto simp: has_prefix_conv)
qed simp

declare strip_left.simps [simp del]

definition TrimSpace :: "string \<Rightarrow> string" where
  "TrimSpace s = rev (strip_left (map rev space_runes) (rev (strip_left space_runes s)))"

lemma length_strip_left: "length (strip_left ws s) \<le> length s"
proof (induction ws s rule: strip_left.induct)
  case (1 ws s)
  show ?case
  proof (cases "find (\<lambda>w. w \<noteq> [] \<and> has_prefix w s) ws")
    case None
    then show ?thesis by (simp add: strip_left.simps [of ws s])
  next
    case (Some w)
    from "1" [OF Some] Some show ?thesis by (simp add: strip_left.simps [of ws s])
  qed
qed

lemma length_TrimSpace: "length (TrimSpace s) \<le> length s"
proof -
  have "length (TrimSpace s) \<le> length (rev (strip_left space_runes s))"
    unfolding TrimSpace_def length_rev by (metis length_rev length_strip_left)
  then show ?thesis using length_strip_left [of space_runes s] by simp
qed

text \<open>\<open>bytes.Count\<close>: non-overlapping occurrences of a nonempty separator.\<close>

function count_sep :: "string \<Rightarrow> string \<Rightarrow> nat" where
  "count_sep sep s =
     (if sep = [] \<or> s = [] then 0
      else if has_prefix sep s then Suc (count_sep sep (drop (length sep) s))
      else count_sep sep (tl s))"
  by pat_completeness auto
termination
  by (relation "measure (length \<circ> snd)") (auto simp: has_prefix_conv)

declare count_sep.simps [simp del]

section \<open>Reading the bundle\<close>

definition certificatePEMType :: string where "certificatePEMType = ''CERTIFICATE''"
definition pemBeginMarker :: string where "pemBeginMarker = ''-----BEGIN ''"

text \<open>The zero \<open>time.Time\<close>, 1 January of year 1, in nanoseconds of the Unix epoch.\<close>

definition zero_time :: int where "zero_time = - 62135596800 * 1000000000"

record loadedBundle =
  bundle_roots :: "certificate list"
  bundle_earliestExpiry :: int

text \<open>\<open>serialNumber\<close> of \<open>authenticator.go\<close>.\<close>

definition serialNumberBase :: nat where "serialNumberBase = 16"

definition serialNumber :: "certificate \<Rightarrow> string" where
  "serialNumber c = show_int_base serialNumberBase (cert_serial c)"

definition beginMarkers :: "string \<Rightarrow> nat" where
  "beginMarkers trimmed =
     (let count = count_sep (CHR 0x0A # pemBeginMarker) trimmed
      in if has_prefix pemBeginMarker trimmed then count + 1 else count)"

definition bundleCertificate :: "externals \<Rightarrow> pem_block \<Rightarrow> certificate result" where
  "bundleCertificate x block =
     fail_if (pem_type block \<noteq> certificatePEMType)
       (Wrap1 (''bundle certificate: pem block ['' @ pem_type block @ '']: '')
          (Sentinel (SAuthn ErrBundleNotCertificate)))
     (fail_if (length (pem_headers block) > 0)
       (Wrap1 (''bundle certificate: pem block ['' @ pem_type block @ '']: '')
          (Sentinel (SAuthn ErrBundleBlockHasHeaders)))
     (wrapping ''bundle certificate: '' (ext_parse_certificate x (pem_bytes block)) (\<lambda>c.
      wrapping (''bundle certificate [serial '' @ serialNumber c @ '']: '')
        (ValidateSigningCertificate (Some c)) (\<lambda>spiffeID.
      case spiffeID of
        None \<Rightarrow> Inr c
      | Some i \<Rightarrow>
          fail_if (TrustDomain i \<noteq> fizzledTrustDomain)
            (Wrap1 (''bundle certificate uri ['' @ String i @ '']: '')
               (Sentinel (SAuthn ErrWrongTrustDomain)))
          (Inr c)))))"

definition decodeBlock :: "externals \<Rightarrow> string \<Rightarrow> nat \<Rightarrow> (certificate \<times> string) result" where
  "decodeBlock x rest ordinal =
     fail_if (\<not> has_prefix pemBeginMarker rest)
       (Wrap1 (''decode block ['' @ show_nat ordinal @ ''] before: '')
          (Sentinel (SAuthn ErrBundleUnexpectedData)))
     (case ext_pem_decode x rest of
        None \<Rightarrow>
          Inl (Wrap1 (''decode block ['' @ show_nat ordinal @ ''] unreadable: '')
                 (Sentinel (SAuthn ErrBundleBlockDropped)))
      | Some (block, remainder) \<Rightarrow>
          wrapping (''decode block ['' @ show_nat ordinal @ '']: '') (bundleCertificate x block) (\<lambda>c.
          Inr (c, remainder)))"

text \<open>The variables of the loop of \<open>parseTrustBundle\<close>, and the loop.\<close>

record parse_state =
  ps_rest :: string
  ps_roots :: "certificate list"
  ps_earliestExpiry :: int
  ps_seen :: "string list"

definition next_state :: "parse_state \<Rightarrow> certificate \<Rightarrow> string \<Rightarrow> parse_state" where
  "next_state st c remainder =
     \<lparr>ps_rest = TrimSpace remainder,
      ps_roots = ps_roots st @ [c],
      ps_earliestExpiry =
        (if ps_earliestExpiry st = zero_time \<or> cert_notAfter c < ps_earliestExpiry st
         then cert_notAfter c else ps_earliestExpiry st),
      ps_seen = cert_raw c # ps_seen st\<rparr>"

partial_function (option) parseBlocks :: "externals \<Rightarrow> parse_state \<Rightarrow> parse_state result option" where
  "parseBlocks env st =
     (if ps_rest st = '''' then Some (Inr st)
      else
        (case decodeBlock env (ps_rest st) (length (ps_roots st) + 1) of
           Inl e \<Rightarrow> Some (Inl (Wrap1 ''parse trust bundle: '' e))
         | Inr cr \<Rightarrow>
             if cert_raw (fst cr) \<in> set (ps_seen st)
             then Some (Inl (Wrap1 (''parse trust bundle: block '' @ show_nat (length (ps_roots st) + 1)
                     @ '' [serial '' @ serialNumber (fst cr) @ '']: '')
                    (Sentinel (SAuthn ErrBundleDuplicateCertificate))))
             else parseBlocks env (next_state st (fst cr) (snd cr))))"

definition parseTrustBundle :: "externals \<Rightarrow> string \<Rightarrow> loadedBundle result option" where
  "parseTrustBundle x raw =
     (let trimmed = TrimSpace raw
      in case parseBlocks x \<lparr>ps_rest = trimmed, ps_roots = [], ps_earliestExpiry = zero_time,
                ps_seen = []\<rparr> of
           None \<Rightarrow> None
         | Some (Inl e) \<Rightarrow> Some (Inl e)
         | Some (Inr st) \<Rightarrow> Some (
             fail_if (length (ps_roots st) = 0)
               (Wrap1 ''parse trust bundle: '' (Sentinel (SAuthn ErrEmptyTrustBundle)))
             (fail_if (length (ps_roots st) \<noteq> beginMarkers trimmed)
               (Wrap1 (''parse trust bundle: read '' @ show_nat (length (ps_roots st)) @ '' of ''
                    @ show_nat (beginMarkers trimmed) @ '' blocks: '')
                  (Sentinel (SAuthn ErrBundleBlockDropped)))
             (Inr \<lparr>bundle_roots = ps_roots st, bundle_earliestExpiry = ps_earliestExpiry st\<rparr>))))"

definition loadTrustBundle :: "externals \<Rightarrow> string \<Rightarrow> loadedBundle result option" where
  "loadTrustBundle x path =
     (case ext_read_file x (Clean path) of
        Inl e \<Rightarrow> Some (Inl (Wrap1 (''trust bundle ['' @ path @ '']: '') e))
      | Inr raw \<Rightarrow>
          map_option (\<lambda>r. wrapping (''trust bundle ['' @ path @ '']: '') r Inr) (parseTrustBundle x raw))"

section \<open>What is admitted into a bundle\<close>

definition admissible_root :: "certificate \<Rightarrow> bool" where
  "admissible_root c \<longleftrightarrow> signer_in_domain fizzledTrustDomain c"

lemma bundleCertificate_ok:
  "bundleCertificate x block = Inr c \<longleftrightarrow>
     pem_type block = certificatePEMType \<and> pem_headers block = []
     \<and> ext_parse_certificate x (pem_bytes block) = Inr c \<and> admissible_root c"
proof -
  have v: "(\<exists>r. ValidateSigningCertificate (Some c) = Inr r
      \<and> (case r of None \<Rightarrow> True | Some i \<Rightarrow> TrustDomain i = fizzledTrustDomain)) \<longleftrightarrow> admissible_root c" for c
    unfolding admissible_root_def signer_in_domain_def ValidateSigningCertificate_ok
    by (auto split: option.splits dest: carries_uris)
  have "bundleCertificate x block = Inr c \<longleftrightarrow>
     pem_type block = certificatePEMType \<and> pem_headers block = []
     \<and> ext_parse_certificate x (pem_bytes block) = Inr c
     \<and> (\<exists>r. ValidateSigningCertificate (Some c) = Inr r
          \<and> (case r of None \<Rightarrow> True | Some i \<Rightarrow> TrustDomain i = fizzledTrustDomain))"
    unfolding bundleCertificate_def by (auto split: option.splits)
  then show ?thesis by (simp only: v)
qed

lemma decodeBlock_ok:
  assumes "decodeBlock x rest n = Inr (c, remainder)"
  shows "has_prefix pemBeginMarker rest \<and> admissible_root c
    \<and> (\<exists>block. ext_pem_decode x rest = Some (block, remainder)
         \<and> ext_parse_certificate x (pem_bytes block) = Inr c)"
  using assms unfolding decodeBlock_def by (auto simp: bundleCertificate_ok split: option.splits)

text \<open>The loop consumes its input, so it returns.\<close>

lemma parseBlocks_returns:
  assumes "pem_consumes x"
  shows "\<exists>r. parseBlocks x st = Some r"
proof (induction "length (ps_rest st)" arbitrary: st rule: less_induct)
  case less
  show ?case
  proof (cases "decodeBlock x (ps_rest st) (length (ps_roots st) + 1)")
    case (Inl err)
    then show ?thesis by (subst parseBlocks.simps) auto
  next
    case (Inr cr)
    then have "length (snd cr) < length (ps_rest st)"
      using decodeBlock_ok [of x "ps_rest st" _ "fst cr" "snd cr"] assms
      unfolding pem_consumes_def by auto
    then have "length (ps_rest (next_state st (fst cr) (snd cr))) < length (ps_rest st)"
      using length_TrimSpace le_less_trans unfolding next_state_def by fastforce
    from less.hyps [OF this] Inr show ?thesis by (subst parseBlocks.simps) auto
  qed
qed

text \<open>What the loop variable \<open>earliestExpiry\<close> holds after reading some roots.\<close>

fun expiry_of :: "int \<Rightarrow> certificate list \<Rightarrow> int" where
  "expiry_of e [] = e"
| "expiry_of e (c # cs) =
     expiry_of (if e = zero_time \<or> cert_notAfter c < e then cert_notAfter c else e) cs"

lemma expiry_of_append: "expiry_of e (cs @ ds) = expiry_of (expiry_of e cs) ds"
  by (induction cs arbitrary: e) auto

text \<open>
  The invariant of the loop: the roots so far are admissible and distinct, \<open>seen\<close> holds them, and
  the expiry is theirs.
\<close>

definition bundle_inv :: "parse_state \<Rightarrow> bool" where
  "bundle_inv st \<longleftrightarrow> (\<forall>c\<in>set (ps_roots st). admissible_root c)
     \<and> distinct (map cert_raw (ps_roots st)) \<and> set (ps_seen st) = set (map cert_raw (ps_roots st))
     \<and> ps_earliestExpiry st = expiry_of zero_time (ps_roots st)"

lemma bundle_inv_next:
  assumes "bundle_inv st" and "cert_raw c \<notin> set (ps_seen st)" and "admissible_root c"
  shows "bundle_inv (next_state st c remainder)"
  using assms by (auto simp: bundle_inv_def next_state_def expiry_of_append)

lemma parseBlocks_inv:
  assumes ret: "parseBlocks x st = Some r" and inv: "bundle_inv st"
  shows "case r of Inl e \<Rightarrow> True | Inr st' \<Rightarrow> bundle_inv st'"
proof -
  have "bundle_inv st \<longrightarrow> (case r of Inl e \<Rightarrow> True | Inr st' \<Rightarrow> bundle_inv st')"
  proof (rule parseBlocks.raw_induct [where
        P = "\<lambda>x st r. bundle_inv st \<longrightarrow> (case r of Inl e \<Rightarrow> True | Inr st' \<Rightarrow> bundle_inv st')", OF _ ret])
    fix f x st r
    assume IH: "\<And>x st r. f x st = Some r \<Longrightarrow>
        bundle_inv st \<longrightarrow> (case r of Inl e \<Rightarrow> True | Inr st' \<Rightarrow> bundle_inv st')"
      and eq: "(if ps_rest st = '''' then Some (Inr st)
      else
        (case decodeBlock x (ps_rest st) (length (ps_roots st) + 1) of
           Inl e \<Rightarrow> Some (Inl (Wrap1 ''parse trust bundle: '' e))
         | Inr cr \<Rightarrow>
             if cert_raw (fst cr) \<in> set (ps_seen st)
             then Some (Inl (Wrap1 (''parse trust bundle: block '' @ show_nat (length (ps_roots st) + 1)
                     @ '' [serial '' @ serialNumber (fst cr) @ '']: '')
                    (Sentinel (SAuthn ErrBundleDuplicateCertificate))))
             else f x (next_state st (fst cr) (snd cr)))) = Some r"
    show "bundle_inv st \<longrightarrow> (case r of Inl e \<Rightarrow> True | Inr st' \<Rightarrow> bundle_inv st')"
    proof (cases "ps_rest st = '''' \<or> (\<exists>err. decodeBlock x (ps_rest st) (length (ps_roots st) + 1) = Inl err)
        \<or> (\<exists>cr. decodeBlock x (ps_rest st) (length (ps_roots st) + 1) = Inr cr
             \<and> cert_raw (fst cr) \<in> set (ps_seen st))")
      case True
      with eq show ?thesis by (auto split: if_splits)
    next
      case False
      then obtain c rem where d: "decodeBlock x (ps_rest st) (length (ps_roots st) + 1) = Inr (c, rem)"
        and new: "cert_raw c \<notin> set (ps_seen st)"
        by (cases "decodeBlock x (ps_rest st) (length (ps_roots st) + 1)") fastforce+
      from eq False d have "f x (next_state st c rem) = Some r" by simp
      from IH [OF this] show ?thesis
        using bundle_inv_next [OF _ new] decodeBlock_ok [OF d] by blast
    qed
  qed
  with inv show ?thesis by blast
qed

lemma parseTrustBundle_sound:
  assumes "parseTrustBundle x raw = Some (Inr b)"
  shows "bundle_roots b \<noteq> []" "distinct (map cert_raw (bundle_roots b))"
    "\<forall>c\<in>set (bundle_roots b). admissible_root c"
    "length (bundle_roots b) = beginMarkers (TrimSpace raw)"
    "bundle_earliestExpiry b = expiry_of zero_time (bundle_roots b)"
proof -
  let ?st = "\<lparr>ps_rest = TrimSpace raw, ps_roots = [], ps_earliestExpiry = zero_time, ps_seen = []\<rparr>"
  from assms obtain st where r: "parseBlocks x ?st = Some (Inr st)"
    and chk: "fail_if (length (ps_roots st) = 0)
               (Wrap1 ''parse trust bundle: '' (Sentinel (SAuthn ErrEmptyTrustBundle)))
             (fail_if (length (ps_roots st) \<noteq> beginMarkers (TrimSpace raw))
               (Wrap1 (''parse trust bundle: read '' @ show_nat (length (ps_roots st)) @ '' of ''
                    @ show_nat (beginMarkers (TrimSpace raw)) @ '' blocks: '')
                  (Sentinel (SAuthn ErrBundleBlockDropped)))
             (Inr \<lparr>bundle_roots = ps_roots st, bundle_earliestExpiry = ps_earliestExpiry st\<rparr>)) = Inr b"
    unfolding parseTrustBundle_def Let_def
    by (auto simp del: fail_if_Inr split: option.splits sum.splits)
  from chk have len: "ps_roots st \<noteq> []" "length (ps_roots st) = beginMarkers (TrimSpace raw)"
    and b: "b = \<lparr>bundle_roots = ps_roots st, bundle_earliestExpiry = ps_earliestExpiry st\<rparr>"
    by auto
  have "bundle_inv ?st" by (simp add: bundle_inv_def)
  with parseBlocks_inv [OF r] have "bundle_inv st" by simp
  then show "bundle_roots b \<noteq> []" "distinct (map cert_raw (bundle_roots b))"
    "\<forall>c\<in>set (bundle_roots b). admissible_root c"
    "length (bundle_roots b) = beginMarkers (TrimSpace raw)"
    "bundle_earliestExpiry b = expiry_of zero_time (bundle_roots b)"
    using b len by (auto simp: bundle_inv_def)
qed

lemma expiry_of_Min_insert:
  assumes "\<forall>c\<in>set cs. cert_notAfter c \<noteq> zero_time" and "e \<noteq> zero_time"
  shows "expiry_of e cs = Min (insert e (cert_notAfter ` set cs))"
  using assms
proof (induction cs arbitrary: e)
  case (Cons c cs)
  let ?e = "if cert_notAfter c < e then cert_notAfter c else e"
  have "expiry_of e (c # cs) = expiry_of ?e cs" using Cons.prems by simp
  also have "\<dots> = Min (insert ?e (cert_notAfter ` set cs))" using Cons by auto
  also have "\<dots> = Min (insert e (cert_notAfter ` set (c # cs)))"
    by (cases "cs = []") (auto simp: min_def)
  finally show ?case .
qed simp

lemma expiry_of_Min:
  assumes "\<forall>c\<in>set cs. cert_notAfter c \<noteq> zero_time" and "cs \<noteq> []"
  shows "expiry_of zero_time cs = Min (cert_notAfter ` set cs)"
  using assms expiry_of_Min_insert by (cases cs) auto

section \<open>A concrete instance of the parameters\<close>

text \<open>
  One function per parameter, for the witnesses: a PEM block is its begin marker and one byte, and
  the byte names a certificate. The chain check accepts a leaf issued within its validity window
  when some root of the bundle shares the leaf's extended signer, here the serial number 7.
\<close>

definition sample_root :: "string \<Rightarrow> certificate" where
  "sample_root raw =
     \<lparr>cert_raw = raw, cert_serial = 7, cert_isCA = True, cert_keyUsage = 32, cert_extKeyUsage = [],
      cert_uris = [], cert_notBefore = 0, cert_notAfter = 5000,
      cert_publicKey = ECDSAKey P256\<rparr>"

definition sample_leaf :: "string \<Rightarrow> certificate" where
  "sample_leaf uri =
     \<lparr>cert_raw = ''leaf'', cert_serial = 26, cert_isCA = False, cert_keyUsage = 1,
      cert_extKeyUsage = [ExtKeyUsageServerAuth, ExtKeyUsageClientAuth],
      cert_uris = [uri], cert_notBefore = 0, cert_notAfter = 4000,
      cert_publicKey = ECDSAKey P256\<rparr>"

definition sample_verify :: x509_verify where
  "sample_verify c opts =
     (if 7 \<in> set (map cert_serial (opt_Roots opts)) \<and> cert_notBefore c \<le> opt_CurrentTime opts
        \<and> opt_CurrentTime opts \<le> cert_notAfter c
      then None else Some (Foreign ''x509: certificate signed by unknown authority''))"

definition sample_pem_decode :: "string \<Rightarrow> (pem_block \<times> string) option" where
  "sample_pem_decode s =
     (if has_prefix pemBeginMarker s \<and> length pemBeginMarker < length s
      then Some (\<lparr>pem_type = ''CERTIFICATE'', pem_headers = [],
                  pem_bytes = [s ! length pemBeginMarker]\<rparr>,
                 drop (Suc (length pemBeginMarker)) s)
      else None)"

definition sample_externals :: externals where
  "sample_externals =
     \<lparr>ext_read_file = (\<lambda>p. if p = ''ca.crt'' then Inr ''-----BEGIN A''
         else if p = ''roles.json'' then Inr ''{}'' else Inl (Foreign ''no such file'')),
      ext_load_key_pair = (\<lambda>c k. Inr [c]),
      ext_parse_certificate =
        (\<lambda>der. if der = ''agent.crt'' then Inr (sample_leaf (agent_uri ''smith''))
               else if der = ''server.crt'' then Inr (sample_leaf server_uri)
               else Inr (sample_root der)),
      ext_pem_decode = sample_pem_decode,
      ext_x509_verify = sample_verify,
      ext_json_members = (\<lambda>s. Inr [(''smith'', ''USER''), (''jones'', ''USER'')]),
      ext_json_string = Inr\<rparr>"

lemma sample_pem_consumes: "pem_consumes sample_externals"
  by (auto simp: pem_consumes_def sample_externals_def sample_pem_decode_def split: if_splits)

lemma sample_trim: "TrimSpace ''-----BEGIN A'' = ''-----BEGIN A''"
  by code_simp

lemma sample_markers: "beginMarkers ''-----BEGIN A'' = 1"
  by code_simp

lemma sample_decode: "decodeBlock sample_externals ''-----BEGIN A'' (Suc 0) = Inr (sample_root ''A'', '''')"
  by code_simp

lemma sample_trim_Nil: "TrimSpace '''' = ''''"
  by code_simp

lemma sample_blocks:
  "parseBlocks sample_externals \<lparr>ps_rest = ''-----BEGIN A'', ps_roots = [],
      ps_earliestExpiry = zero_time, ps_seen = []\<rparr> =
   Some (Inr \<lparr>ps_rest = '''', ps_roots = [sample_root ''A''], ps_earliestExpiry = 5000,
      ps_seen = [''A'']\<rparr>)"
proof -
  let ?last = "\<lparr>ps_rest = '''', ps_roots = [sample_root ''A''], ps_earliestExpiry = 5000,
      ps_seen = [''A'']\<rparr>"
  have "next_state \<lparr>ps_rest = ''-----BEGIN A'', ps_roots = [], ps_earliestExpiry = zero_time,
      ps_seen = []\<rparr> (sample_root ''A'') '''' = ?last"
    by (simp add: next_state_def sample_trim_Nil sample_root_def)
  moreover have "parseBlocks sample_externals ?last = Some (Inr ?last)"
    by (subst parseBlocks.simps) simp
  ultimately show ?thesis by (subst parseBlocks.simps) (simp add: sample_decode)
qed

lemma sample_bundle:
  "parseTrustBundle sample_externals ''-----BEGIN A'' =
     Some (Inr \<lparr>bundle_roots = [sample_root ''A''], bundle_earliestExpiry = 5000\<rparr>)"
  by (simp add: parseTrustBundle_def sample_trim sample_markers sample_blocks)

section \<open>Properties\<close>

text \<open>
  C34. Reading a trust bundle returns, with a bundle or an error, whatever the file holds: the loop
  over the PEM blocks ends because \<open>pem.Decode\<close> consumes the block it reads.
\<close>

theorem loadTrustBundle_returns:
  assumes "pem_consumes x"
  shows "\<exists>r. loadTrustBundle x path = Some r"
proof -
  have "\<exists>r. parseTrustBundle x raw = Some r" for raw
    using parseBlocks_returns [OF assms, of "\<lparr>ps_rest = TrimSpace raw, ps_roots = [],
        ps_earliestExpiry = zero_time, ps_seen = []\<rparr>"]
    unfolding parseTrustBundle_def Let_def by (auto split: sum.splits)
  then show ?thesis unfolding loadTrustBundle_def by (auto split: sum.splits)
qed

theorem loadTrustBundle_returns_witness: "\<exists>r. loadTrustBundle sample_externals ''ca.crt'' = Some r"
  by (rule loadTrustBundle_returns [OF sample_pem_consumes])

text \<open>
  C35. A bundle that is accepted names at least one root, no root twice, one root for every PEM block
  the file opens, and only certificates the handshake would accept as signers: CAs with keyCertSign
  whose URI SAN, if any, is the path-less ID of this trust domain. The expiry it reports is the
  earliest among its roots, where none expires at the zero instant of \<open>time.Time\<close>.
\<close>

theorem parseTrustBundle_admits:
  assumes "parseTrustBundle x raw = Some (Inr b)"
  shows "bundle_roots b \<noteq> [] \<and> distinct (map cert_raw (bundle_roots b))
    \<and> list_all admissible_root (bundle_roots b)
    \<and> length (bundle_roots b) = beginMarkers (TrimSpace raw)
    \<and> (list_all (\<lambda>c. cert_notAfter c \<noteq> zero_time) (bundle_roots b) \<longrightarrow>
         bundle_earliestExpiry b = Min (cert_notAfter ` set (bundle_roots b)))"
  using parseTrustBundle_sound [OF assms] expiry_of_Min by (auto simp: list_all_iff)

theorem parseTrustBundle_admits_witness:
  "admissible_root (sample_root ''A'') \<and> beginMarkers (TrimSpace ''-----BEGIN A'') = 1"
  using parseTrustBundle_admits [OF sample_bundle] by simp

end
