(* ===== verification/Authenticator.thy ===== *)
theory Authenticator
  imports Trust_Bundle
begin

text \<open>
  \<open>internal/authn/authenticator.go\<close> and \<open>tlsconfig.go\<close>: the \<open>Authenticator\<close>, which resolves a peer's
  identity, builds both sides' TLS configuration and audits every connection. The steps shared by
  the two identities take the chain verifier they call as an argument, so that what they promise
  rests on the interface \<open>chain_verifier\<close> alone; \<open>auth_verify\<close> is the verifier the code passes.
  Functions that audit return the log records beside their result.
\<close>

section \<open>Resolving an identity\<close>

text \<open>The tolerance \<open>skew\<close>: two minutes.\<close>

definition skew :: int where "skew = 2 * 60 * 1000000000"

datatype peerSide = peerClient | peerServer

primrec peer_text :: "peerSide \<Rightarrow> string" where
  "peer_text peerClient = ''client''"
| "peer_text peerServer = ''server''"

record authenticator =
  auth_verifier :: verifier
  auth_logger :: logger

type_synonym chain = "certificate option list"

text \<open>The part of \<open>tls.ConnectionState\<close> the code reads.\<close>

record connection_state =
  PeerCertificates :: chain

definition auth_leaf :: "(chain \<Rightarrow> leaf result) \<Rightarrow> chain \<Rightarrow> leaf result" where
  "auth_leaf verify certificates =
     wrapping ''leaf: '' (verify certificates) (\<lambda>l.
     wrapping ''leaf: '' (leafPolicy (Certificate l)) (\<lambda>_.
     Inr l))"

definition clientSVID :: "(chain \<Rightarrow> leaf result) \<Rightarrow> chain \<Rightarrow> (leaf \<times> agent_id) result" where
  "clientSVID verify chain =
     wrapping ''client svid: '' (auth_leaf verify chain) (\<lambda>l.
     wrapping ''client svid: '' (clientAgentID (ID l)) (\<lambda>agentID.
     Inr (l, agentID)))"

definition serverSVID :: "(chain \<Rightarrow> leaf result) \<Rightarrow> chain \<Rightarrow> leaf result" where
  "serverSVID verify chain =
     wrapping ''server svid: '' (auth_leaf verify chain) (\<lambda>l.
     wrapping ''server svid: '' (serverIdentity (ID l)) (\<lambda>_.
     Inr l))"

definition auth_verify :: "externals \<Rightarrow> int \<Rightarrow> authenticator \<Rightarrow> chain \<Rightarrow> leaf result" where
  "auth_verify x now a = Verify (ext_x509_verify x) now (auth_verifier a)"

definition Authenticate :: "externals \<Rightarrow> int \<Rightarrow> authenticator \<Rightarrow> connection_state \<Rightarrow> agent_id result" where
  "Authenticate x now a state =
     wrapping ''authenticate: '' (clientSVID (auth_verify x now a) (PeerCertificates state)) (\<lambda>la.
     Inr (snd la))"

section \<open>The audit log\<close>

definition auditTrustBundle :: "authenticator \<Rightarrow> string \<Rightarrow> loadedBundle \<Rightarrow> log_record list" where
  "auditTrustBundle a path loaded =
     log_attrs (auth_logger a) LevelInfo ''trust bundle loaded''
       [(''path'', AStr path),
        (''roots'', AInt (int (length (bundle_roots loaded)))),
        (''expires'', ATime (bundle_earliestExpiry loaded))]"

definition auditAccept :: "authenticator \<Rightarrow> peerSide \<Rightarrow> leaf \<Rightarrow> attrs \<Rightarrow> log_record list" where
  "auditAccept a peer l extra =
     log_attrs (auth_logger a) LevelInfo ''peer authenticated''
       ([(''peer'', AStr (peer_text peer)),
         (''spiffe_id'', AStr (String (ID l))),
         (''serial'', AStr (serialNumber (Certificate l)))] @ extra)"

text \<open>
  \<open>serialNumber\<close> of a nil certificate panics; no connection of \<open>crypto/tls\<close> presents one. The result
  is \<open>None\<close> in that case.
\<close>

definition auditReject :: "authenticator \<Rightarrow> peerSide \<Rightarrow> connection_state \<Rightarrow> go_error
    \<Rightarrow> log_record list option" where
  "auditReject a peer state err =
     (let attributes = [(''peer'', AStr (peer_text peer)), (''error'', AErr err)];
          emit = (\<lambda>as. log_attrs (auth_logger a) LevelWarn ''peer rejected'' as)
      in case PeerCertificates state of
           [] \<Rightarrow> Some (emit attributes)
         | None # _ \<Rightarrow> None
         | Some c # _ \<Rightarrow> Some (emit (attributes @ [(''presented_serial'', AStr (serialNumber c))])))"

text \<open>The two \<open>VerifyConnection\<close> callbacks: the records of the audit and the verdict.\<close>

definition verifyClientPeer :: "externals \<Rightarrow> int \<Rightarrow> authenticator \<Rightarrow> connection_state
    \<Rightarrow> log_record list option \<times> unit result" where
  "verifyClientPeer x now a state =
     (case clientSVID (auth_verify x now a) (PeerCertificates state) of
        Inl err \<Rightarrow> (auditReject a peerClient state err, Inl (Wrap1 ''verify client peer: '' err))
      | Inr (l, agentID) \<Rightarrow>
          (Some (auditAccept a peerClient l [(''agent_id'', AStr agentID)]), Inr ()))"

definition verifyServerPeer :: "externals \<Rightarrow> int \<Rightarrow> authenticator \<Rightarrow> connection_state
    \<Rightarrow> log_record list option \<times> unit result" where
  "verifyServerPeer x now a state =
     (case serverSVID (auth_verify x now a) (PeerCertificates state) of
        Inl err \<Rightarrow> (auditReject a peerServer state err, Inl (Wrap1 ''verify server peer: '' err))
      | Inr l \<Rightarrow> (Some (auditAccept a peerServer l []), Inr ()))"

section \<open>TLS configurations\<close>

datatype tls_version = VersionTLS10 | VersionTLS11 | VersionTLS12 | VersionTLS13

datatype cipher_suite =
    TLS_ECDHE_ECDSA_WITH_AES_128_GCM_SHA256
  | TLS_ECDHE_ECDSA_WITH_AES_256_GCM_SHA384
  | OtherSuite nat

datatype renegotiation = RenegotiateNever | RenegotiateOnceAsClient | RenegotiateFreelyAsClient

datatype client_auth = NoClientCert | RequestClientCert | RequireAnyClientCert
  | VerifyClientCertIfGiven | RequireAndVerifyClientCert

text \<open>
  The fields \<open>baseTLSConfig\<close> gives a value that is not its type's zero value, and the two the sides
  set differently; all others are nil or zero. \<open>VerifyConnection\<close> takes the instant of the
  handshake as well, which the callback reads from the clock.
\<close>

record tls_config =
  Certificates :: "string list list"
  MinVersion :: tls_version
  MaxVersion :: tls_version
  CipherSuites :: "cipher_suite list"
  Renegotiation :: renegotiation
  ClientAuth :: client_auth
  VerifyConnection :: "(int \<Rightarrow> connection_state \<Rightarrow> log_record list option \<times> unit result) option"
  InsecureSkipVerify :: bool
  SessionTicketsDisabled :: bool
  HasClientSessionCache :: bool
  PreferServerCipherSuites :: bool

type_synonym verify_callback = "int \<Rightarrow> connection_state \<Rightarrow> log_record list option \<times> unit result"

definition baseTLSConfig :: "string list \<Rightarrow> verify_callback \<Rightarrow> tls_config" where
  "baseTLSConfig identity verify =
     \<lparr>Certificates = [identity],
      MinVersion = VersionTLS12,
      MaxVersion = VersionTLS13,
      CipherSuites = [TLS_ECDHE_ECDSA_WITH_AES_128_GCM_SHA256, TLS_ECDHE_ECDSA_WITH_AES_256_GCM_SHA384],
      Renegotiation = RenegotiateNever,
      ClientAuth = NoClientCert,
      VerifyConnection = Some verify,
      InsecureSkipVerify = False,
      SessionTicketsDisabled = False,
      HasClientSessionCache = False,
      PreferServerCipherSuites = True\<rparr>"

definition newClientTLSConfig :: "string list \<Rightarrow> verify_callback \<Rightarrow> tls_config" where
  "newClientTLSConfig identity verify = (baseTLSConfig identity verify)\<lparr>InsecureSkipVerify := True\<rparr>"

definition newServerTLSConfig :: "string list \<Rightarrow> verify_callback \<Rightarrow> tls_config" where
  "newServerTLSConfig identity verify =
     (baseTLSConfig identity verify)\<lparr>ClientAuth := RequireAnyClientCert, SessionTicketsDisabled := True\<rparr>"

section \<open>Building an authenticator and its configurations\<close>

text \<open>\<open>None\<close> when reading the bundle does not return.\<close>

definition NewAuthenticator :: "externals \<Rightarrow> string \<Rightarrow> logger option
    \<Rightarrow> (log_record list \<times> authenticator result) option" where
  "NewAuthenticator x caPath lg =
     (case loadTrustBundle x caPath of
        None \<Rightarrow> None
      | Some (Inl err) \<Rightarrow> Some ([], Inl (Wrap1 ''new authenticator: '' err))
      | Some (Inr bundle) \<Rightarrow>
          (case NewVerifier (map Some (bundle_roots bundle)) skew of
             Inl err \<Rightarrow> Some ([], Inl (Wrap1 ''new authenticator: '' err))
           | Inr verifier \<Rightarrow>
               (let a = \<lparr>auth_verifier = verifier, auth_logger = OrDiscard lg\<rparr>
                in Some (auditTrustBundle a caPath bundle, Inr a))))"

definition ClientConfig :: "externals \<Rightarrow> int \<Rightarrow> authenticator \<Rightarrow> string \<Rightarrow> string \<Rightarrow> tls_config result" where
  "ClientConfig x now a certPath keyPath =
     wrapping ''client config: '' (loadIdentity x certPath keyPath) (\<lambda>ic.
     wrapping ''client config: '' (clientSVID (auth_verify x now a) (snd ic)) (\<lambda>_.
     Inr (newClientTLSConfig (fst ic) (\<lambda>t. verifyServerPeer x t a))))"

definition ServerConfig :: "externals \<Rightarrow> int \<Rightarrow> authenticator \<Rightarrow> string \<Rightarrow> string \<Rightarrow> tls_config result" where
  "ServerConfig x now a certPath keyPath =
     wrapping ''server config: '' (loadIdentity x certPath keyPath) (\<lambda>ic.
     wrapping ''server config: '' (serverSVID (auth_verify x now a) (snd ic)) (\<lambda>_.
     Inr (newServerTLSConfig (fst ic) (\<lambda>t. verifyClientPeer x t a))))"

section \<open>What the shared steps promise of any chain verifier\<close>

context chain_verifier
begin

lemma auth_leaf_ok: "auth_leaf verify chain = Inr l \<longleftrightarrow> verify chain = Inr l \<and> issued_by_policy (Certificate l)"
  by (auto simp: auth_leaf_def leafPolicy_ok)

lemma clientSVID_ok:
  "clientSVID verify chain = Inr (l, a) \<longleftrightarrow>
     verify chain = Inr l \<and> issued_by_policy (Certificate l) \<and> clientAgentID (ID l) = Inr a"
  by (auto simp: clientSVID_def auth_leaf_ok)

lemma serverSVID_ok:
  "serverSVID verify chain = Inr l \<longleftrightarrow>
     verify chain = Inr l \<and> issued_by_policy (Certificate l) \<and> serverIdentity (ID l) = Inr ()"
  by (auto simp: serverSVID_def auth_leaf_ok)

lemma client_leaf_uri:
  assumes "clientSVID verify chain = Inr (l, a)"
  shows "cert_uris (Certificate l) = [agent_uri a]" "valid_agent_id a"
    "TrustDomain (ID l) = fizzledTrustDomain"
proof -
  have v: "verify chain = Inr l" "clientAgentID (ID l) = Inr a"
    using assms by (simp_all add: clientSVID_ok)
  from verify_carries [OF v(1)] clientAgentID_uri [OF verify_id_parses [OF v(1)] v(2)]
  show "cert_uris (Certificate l) = [agent_uri a]" "valid_agent_id a" by (simp_all add: carries_def)
  show "TrustDomain (ID l) = fizzledTrustDomain" using v(2) by (simp add: clientAgentID_ok)
qed

lemma server_leaf_uri:
  assumes "serverSVID verify chain = Inr l"
  shows "cert_uris (Certificate l) = [server_uri]" "TrustDomain (ID l) = fizzledTrustDomain"
proof -
  have v: "verify chain = Inr l" "serverIdentity (ID l) = Inr ()"
    using assms by (simp_all add: serverSVID_ok)
  from verify_carries [OF v(1)] serverIdentity_uri [OF verify_id_parses [OF v(1)] v(2)]
  show "cert_uris (Certificate l) = [server_uri]" by (simp add: carries_def)
  show "TrustDomain (ID l) = fizzledTrustDomain" using v(2) by (simp add: serverIdentity_ok)
qed

text \<open>No chain resolves to both identities.\<close>

lemma client_not_server: "\<not> (is_ok (clientSVID verify chain) \<and> is_ok (serverSVID verify chain))"
proof
  assume "is_ok (clientSVID verify chain) \<and> is_ok (serverSVID verify chain)"
  then obtain l a l' where "clientSVID verify chain = Inr (l, a)" "serverSVID verify chain = Inr l'"
    by (auto simp: is_ok_conv)
  then have "l = l'" "clientAgentID (ID l) = Inr a" "serverIdentity (ID l') = Inr ()"
    by (auto simp: clientSVID_ok serverSVID_ok)
  then show False by (simp add: clientAgentID_ok serverIdentity_ok pathServer_def)
qed

end

section \<open>Peers accepted\<close>

text \<open>
  A chain a peer of this trust domain may present for the URI: it anchors to the authenticator's
  bundle at this instant, its leaf conforms to the standard and to the issuance policy and carries
  the URI alone, and its signers belong to the trust domain.
\<close>

definition accepted_chain :: "externals \<Rightarrow> int \<Rightarrow> authenticator \<Rightarrow> string \<Rightarrow> certificate
    \<Rightarrow> certificate list \<Rightarrow> bool" where
  "accepted_chain x now a uri c cs \<longleftrightarrow>
     anchors (ext_x509_verify x) now (auth_verifier a) c cs \<and> conformant_leaf c
     \<and> issued_by_policy c \<and> cert_uris c = [uri]
     \<and> list_all (signer_in_domain fizzledTrustDomain) cs"

lemma components_path: "PathComponents i \<noteq> [] \<Longrightarrow> Path i \<noteq> []"
  by (auto simp: PathComponents_def Path_def)

lemma clientSVID_chain:
  "clientSVID (auth_verify x now a) chain = Inr (l, agent) \<longleftrightarrow>
     (\<exists>cs. chain = Some (Certificate l) # map Some cs \<and> valid_agent_id agent
        \<and> accepted_chain x now a (agent_uri agent) (Certificate l) cs
        \<and> carries (Certificate l) (ID l))"
    (is "?L \<longleftrightarrow> ?R")
proof
  assume ?L
  note L = this [unfolded auth_verify_def]
  from svid.clientSVID_ok L have v: "Verify (ext_x509_verify x) now (auth_verifier a) chain = Inr l"
    and pol: "issued_by_policy (Certificate l)" by blast+
  from Verify_ok [OF v] svid.client_leaf_uri [OF L] pol show ?R
    unfolding accepted_chain_def by (auto simp: list_all_iff)
next
  assume ?R
  then obtain cs where chain: "chain = Some (Certificate l) # map Some cs"
    and valid: "valid_agent_id agent"
    and acc: "accepted_chain x now a (agent_uri agent) (Certificate l) cs"
    and car: "carries (Certificate l) (ID l)" by blast
  have "Parse (agent_uri agent) = Inr (ID l)"
    using car acc by (simp add: carries_def accepted_chain_def)
  then have cl: "clientAgentID (ID l) = Inr agent" using agent_uri_parses [OF valid] by auto
  then have "TrustDomain (ID l) = fizzledTrustDomain" "Path (ID l) \<noteq> []"
    using components_path by (auto simp: clientAgentID_ok)
  then have "Verify (ext_x509_verify x) now (auth_verifier a) chain = Inr l"
    unfolding chain using acc car
    by (intro Verify_complete) (auto simp: accepted_chain_def list_all_iff)
  then show ?L
    unfolding auth_verify_def svid.clientSVID_ok using acc cl by (simp add: accepted_chain_def)
qed

lemma serverSVID_chain:
  "serverSVID (auth_verify x now a) chain = Inr l \<longleftrightarrow>
     (\<exists>cs. chain = Some (Certificate l) # map Some cs
        \<and> accepted_chain x now a server_uri (Certificate l) cs
        \<and> carries (Certificate l) (ID l))"
    (is "?L \<longleftrightarrow> ?R")
proof
  assume ?L
  note L = this [unfolded auth_verify_def]
  from svid.serverSVID_ok L have v: "Verify (ext_x509_verify x) now (auth_verifier a) chain = Inr l"
    and pol: "issued_by_policy (Certificate l)" by blast+
  from Verify_ok [OF v] svid.server_leaf_uri [OF L] pol show ?R
    unfolding accepted_chain_def by (auto simp: list_all_iff)
next
  assume ?R
  then obtain cs where chain: "chain = Some (Certificate l) # map Some cs"
    and acc: "accepted_chain x now a server_uri (Certificate l) cs"
    and car: "carries (Certificate l) (ID l)" by blast
  have "Parse server_uri = Inr (ID l)"
    using car acc by (simp add: carries_def accepted_chain_def)
  then have sl: "serverIdentity (ID l) = Inr ()" using server_uri_parses by auto
  then have "TrustDomain (ID l) = fizzledTrustDomain" "Path (ID l) \<noteq> []"
    using components_path by (auto simp: serverIdentity_ok)
  then have "Verify (ext_x509_verify x) now (auth_verifier a) chain = Inr l"
    unfolding chain using acc car
    by (intro Verify_complete) (auto simp: accepted_chain_def list_all_iff)
  then show ?L
    unfolding auth_verify_def svid.serverSVID_ok using acc sl by (simp add: accepted_chain_def)
qed

lemma carries_agent:
  assumes "valid_agent_id agent" and "cert_uris c = [agent_uri agent]"
  shows "\<exists>i. carries c i"
  using agent_uri_parses [OF assms(1)] assms(2) by (metis carries_def)

lemma carries_server: "cert_uris c = [server_uri] \<Longrightarrow> \<exists>i. carries c i"
  using server_uri_parses Parse_sound(1) by (metis carries_def)

lemma Authenticate_ok:
  "Authenticate x now a st = Inr agent \<longleftrightarrow>
     (\<exists>l. clientSVID (auth_verify x now a) (PeerCertificates st) = Inr (l, agent))"
  by (auto simp: Authenticate_def)

lemma verifyServerPeer_ok:
  "snd (verifyServerPeer x now a st) = Inr () \<longleftrightarrow>
     (\<exists>l. serverSVID (auth_verify x now a) (PeerCertificates st) = Inr l)"
  by (auto simp: verifyServerPeer_def split: sum.split)

text \<open>Which connections authenticate, and as whom.\<close>

lemma Authenticate_chain:
  "Authenticate x now a st = Inr agent \<longleftrightarrow>
     (\<exists>c cs. PeerCertificates st = Some c # map Some cs \<and> valid_agent_id agent
        \<and> accepted_chain x now a (agent_uri agent) c cs)"
proof
  assume "Authenticate x now a st = Inr agent"
  then show "\<exists>c cs. PeerCertificates st = Some c # map Some cs \<and> valid_agent_id agent
        \<and> accepted_chain x now a (agent_uri agent) c cs"
    unfolding Authenticate_ok clientSVID_chain by blast
next
  assume "\<exists>c cs. PeerCertificates st = Some c # map Some cs \<and> valid_agent_id agent
        \<and> accepted_chain x now a (agent_uri agent) c cs"
  then obtain c cs where c: "PeerCertificates st = Some c # map Some cs" "valid_agent_id agent"
    "accepted_chain x now a (agent_uri agent) c cs" by blast
  then obtain i where "carries c i" using carries_agent by (auto simp: accepted_chain_def)
  with c have "clientSVID (auth_verify x now a) (PeerCertificates st)
      = Inr (\<lparr>leaf_spiffeID = i, leaf_certificate = c\<rparr>, agent)"
    unfolding clientSVID_chain by (auto simp: Certificate_def ID_def)
  then show "Authenticate x now a st = Inr agent" unfolding Authenticate_ok by blast
qed

text \<open>An authenticator on the sample parameters, for the witnesses.\<close>

definition sample_auth :: "logger \<Rightarrow> authenticator" where
  "sample_auth lg =
     \<lparr>auth_verifier = \<lparr>verifier_bundle = Some [sample_root ''A''], verifier_skew = skew\<rparr>,
      auth_logger = lg\<rparr>"

lemma sample_authenticator:
  "NewAuthenticator sample_externals ''ca.crt'' lg =
     Some (auditTrustBundle (sample_auth (OrDiscard lg)) ''ca.crt''
             \<lparr>bundle_roots = [sample_root ''A''], bundle_earliestExpiry = 5000\<rparr>,
           Inr (sample_auth (OrDiscard lg)))"
proof -
  have "ext_read_file sample_externals (Clean ''ca.crt'') = Inr ''-----BEGIN A''" by code_simp
  then have "loadTrustBundle sample_externals ''ca.crt'' =
      Some (Inr \<lparr>bundle_roots = [sample_root ''A''], bundle_earliestExpiry = 5000\<rparr>)"
    by (simp add: loadTrustBundle_def sample_bundle)
  then show ?thesis
    by (simp add: NewAuthenticator_def NewVerifier_def skew_def Let_def sample_auth_def pool_of_def AddCert_def)
qed

lemma sample_tls_configs:
  "is_ok (ClientConfig sample_externals 10 (sample_auth lg) ''agent.crt'' ''agent.key'')"
  "is_ok (ServerConfig sample_externals 10 (sample_auth lg) ''server.crt'' ''server.key'')"
  by code_simp+

lemma audit_discarded: "discards lg \<Longrightarrow> auditTrustBundle (sample_auth lg) path loaded = []"
  by (simp add: auditTrustBundle_def sample_auth_def)

section \<open>Properties\<close>

text \<open>
  C26. A connection authenticates as an agent if and only if its peer presented a chain, without a
  nil, that anchors to the trust bundle within the clock-skew tolerance, whose leaf conforms to the
  SPIFFE standard and the issuance policy (both EKUs, ECDSA on P-256) and carries exactly the URI
  \<open>spiffe://fizzled.internal/client/agent/<agent>\<close> with a valid identifier, and whose other
  certificates are signers of this trust domain.
\<close>

theorem Authenticate_iff:
  "Authenticate x now a st = Inr agent \<longleftrightarrow>
     (\<exists>c cs. PeerCertificates st = Some c # map Some cs \<and> valid_agent_id agent
        \<and> accepted_chain x now a (agent_uri agent) c cs)"
  by (rule Authenticate_chain)

text \<open>
  C27. The two sides stay apart: the client accepts a server exactly when the presented leaf carries
  \<open>spiffe://fizzled.internal/server\<close> in an acceptable chain, and no connection is accepted both as
  an agent and as the server.
\<close>

theorem verifyServerPeer_iff:
  "(snd (verifyServerPeer x now a st) = Inr () \<longleftrightarrow>
      (\<exists>c cs. PeerCertificates st = Some c # map Some cs \<and> accepted_chain x now a server_uri c cs))
   \<and> \<not> (snd (verifyServerPeer x now a st) = Inr () \<and> is_ok (Authenticate x now a st))"
proof
  show "snd (verifyServerPeer x now a st) = Inr () \<longleftrightarrow>
      (\<exists>c cs. PeerCertificates st = Some c # map Some cs \<and> accepted_chain x now a server_uri c cs)"
  proof
    assume "\<exists>c cs. PeerCertificates st = Some c # map Some cs \<and> accepted_chain x now a server_uri c cs"
    then obtain c cs where c: "PeerCertificates st = Some c # map Some cs"
      "accepted_chain x now a server_uri c cs" by blast
    then obtain i where "carries c i" using carries_server by (auto simp: accepted_chain_def)
    with c have "serverSVID (auth_verify x now a) (PeerCertificates st)
        = Inr \<lparr>leaf_spiffeID = i, leaf_certificate = c\<rparr>"
      unfolding serverSVID_chain by (auto simp: Certificate_def ID_def)
    then show "snd (verifyServerPeer x now a st) = Inr ()" unfolding verifyServerPeer_ok by blast
  qed (auto simp: verifyServerPeer_ok serverSVID_chain)
  show "\<not> (snd (verifyServerPeer x now a st) = Inr () \<and> is_ok (Authenticate x now a st))"
    using svid.client_not_server unfolding verifyServerPeer_ok is_ok_conv Authenticate_ok auth_verify_def
    by blast
qed

text \<open>
  The server's handshake callback admits a connection exactly when \<open>Authenticate\<close> later resolves
  it at the same instant, and audits it once: an accepted peer at level Info with its verified
  SPIFFE ID, serial number and agent id, a rejected one at level Warn with the error and no SPIFFE
  ID.
\<close>

lemma verifyClientPeer_audit:
  "(case Authenticate x now a st of
      Inr agent \<Rightarrow> (\<exists>c. hd (PeerCertificates st) = Some c \<and>
        verifyClientPeer x now a st =
          (Some (log_attrs (auth_logger a) LevelInfo ''peer authenticated''
             [(''peer'', AStr ''client''), (''spiffe_id'', AStr (agent_uri agent)),
              (''serial'', AStr (serialNumber c)), (''agent_id'', AStr agent)]), Inr ()))
    | Inl e \<Rightarrow> (\<exists>err presented. e = Wrap1 ''authenticate: '' err
        \<and> verifyClientPeer x now a st =
            (if None \<in> set (take 1 (PeerCertificates st)) then None
             else Some (log_attrs (auth_logger a) LevelWarn ''peer rejected''
               ([(''peer'', AStr ''client''), (''error'', AErr err)] @ presented)),
             Inl (Wrap1 ''verify client peer: '' err))
        \<and> fst ` set presented \<subseteq> {''presented_serial''}))"
proof (cases "clientSVID (auth_verify x now a) (PeerCertificates st)")
  case (Inl err)
  have "\<exists>presented. auditReject a peerClient st err =
      (if None \<in> set (take 1 (PeerCertificates st)) then None
       else Some (log_attrs (auth_logger a) LevelWarn ''peer rejected''
               ([(''peer'', AStr ''client''), (''error'', AErr err)] @ presented)))
      \<and> fst ` set presented \<subseteq> {''presented_serial''}"
  proof (cases "PeerCertificates st")
    case Nil
    then show ?thesis by (intro exI [of _ "[]"]) (simp add: auditReject_def)
  next
    case (Cons c cs)
    then show ?thesis
      by (cases c) (auto simp: auditReject_def Let_def
          intro: exI [of _ "[(''presented_serial'', AStr (serialNumber (the c)))]"])
  qed
  with Inl show ?thesis by (auto simp: Authenticate_def verifyClientPeer_def)
next
  case (Inr la)
  obtain l agent where la: "la = (l, agent)" by (cases la)
  with Inr have c: "clientSVID (auth_verify x now a) (PeerCertificates st) = Inr (l, agent)" by simp
  then obtain cs where "PeerCertificates st = Some (Certificate l) # map Some cs"
    and "accepted_chain x now a (agent_uri agent) (Certificate l) cs" "carries (Certificate l) (ID l)"
    unfolding clientSVID_chain by blast
  then have "hd (PeerCertificates st) = Some (Certificate l)" "String (ID l) = agent_uri agent"
    by (auto simp: accepted_chain_def carries_def)
  with c show ?thesis by (simp add: Authenticate_def verifyClientPeer_def auditAccept_def)
qed

text \<open>
  A client that can be built is one the server accepts: if \<open>ClientConfig\<close> succeeds, the chain it
  will present authenticates, at that instant, at any authenticator with the same verifier; and the
  configuration presents exactly that identity, speaks TLS 1.2 or 1.3 only, never renegotiates, and
  replaces Go's verification (which it disables) by the callback that checks the server's SVID.
\<close>

lemma ClientConfig_accepted_by_server:
  assumes "ClientConfig x now a certPath keyPath = Inr cfg"
    and "auth_verifier server = auth_verifier a"
  shows "\<exists>ders chain. loadIdentity x certPath keyPath = Inr (ders, chain)
    \<and> is_ok (Authenticate x now server \<lparr>PeerCertificates = chain\<rparr>)
    \<and> Certificates cfg = [ders] \<and> MinVersion cfg = VersionTLS12 \<and> MaxVersion cfg = VersionTLS13
    \<and> Renegotiation cfg = RenegotiateNever \<and> InsecureSkipVerify cfg
    \<and> (\<exists>verify. VerifyConnection cfg = Some verify
         \<and> (\<forall>t st. snd (verify t st) = Inr () \<longrightarrow>
              (\<exists>l. serverSVID (auth_verify x t a) (PeerCertificates st) = Inr l)))"
proof -
  have "auth_verify x now server = auth_verify x now a" using assms(2) by (simp add: auth_verify_def)
  with assms(1) show ?thesis
    by (auto simp: ClientConfig_def newClientTLSConfig_def baseTLSConfig_def Authenticate_def
        verifyServerPeer_ok)
qed

text \<open>
  The server side likewise: if \<open>ServerConfig\<close> succeeds, the chain it will present is accepted by
  a client with the same verifier at that instant; every client must present a certificate, session
  tickets are disabled, Go's verification is not, and the callback admits exactly the connections
  that \<open>Authenticate\<close> resolves.
\<close>

lemma ServerConfig_accepted_by_client:
  assumes "ServerConfig x now a certPath keyPath = Inr cfg"
    and "auth_verifier client = auth_verifier a"
  shows "\<exists>ders chain. loadIdentity x certPath keyPath = Inr (ders, chain)
    \<and> snd (verifyServerPeer x now client \<lparr>PeerCertificates = chain\<rparr>) = Inr ()
    \<and> Certificates cfg = [ders] \<and> MinVersion cfg = VersionTLS12 \<and> MaxVersion cfg = VersionTLS13
    \<and> ClientAuth cfg = RequireAnyClientCert \<and> SessionTicketsDisabled cfg \<and> \<not> InsecureSkipVerify cfg
    \<and> (\<exists>verify. VerifyConnection cfg = Some verify
         \<and> (\<forall>t st. (snd (verify t st) = Inr ()) = is_ok (Authenticate x t a st)))"
proof -
  have v: "auth_verify x now client = auth_verify x now a" using assms(2) by (simp add: auth_verify_def)
  have "(snd (verifyClientPeer x t a st) = Inr ()) = is_ok (Authenticate x t a st)" for t st
    by (auto simp: verifyClientPeer_def Authenticate_def is_ok_def split: sum.splits)
  with assms(1) v show ?thesis
    by (auto simp: ServerConfig_def newServerTLSConfig_def baseTLSConfig_def verifyServerPeer_ok)
qed

text \<open>
  C28. Neither side can be built only for the other to turn it away. When \<open>ClientConfig\<close> succeeds, the chain it
  will present authenticates at that instant at any authenticator with the same verifier, and when
  \<open>ServerConfig\<close> does, any client with the same verifier accepts its chain. Either configuration presents exactly
  that identity over TLS 1.2 or 1.3; the client's replaces Go's verification by the callback that asks for
  the server's SVID, and the server's demands a certificate, issues no session tickets and admits
  exactly the connections that \<open>Authenticate\<close> resolves.
\<close>

theorem configs_accepted_by_peer:
  assumes "auth_verifier peer = auth_verifier a"
  shows "(ClientConfig x now a certPath keyPath = Inr cfg \<longrightarrow>
      (\<exists>ders chain. loadIdentity x certPath keyPath = Inr (ders, chain)
        \<and> is_ok (Authenticate x now peer \<lparr>PeerCertificates = chain\<rparr>)
        \<and> Certificates cfg = [ders] \<and> MinVersion cfg = VersionTLS12 \<and> MaxVersion cfg = VersionTLS13
        \<and> Renegotiation cfg = RenegotiateNever \<and> InsecureSkipVerify cfg
        \<and> (\<exists>verify. VerifyConnection cfg = Some verify
             \<and> (\<forall>t st. snd (verify t st) = Inr () \<longrightarrow>
                  (\<exists>l. serverSVID (auth_verify x t a) (PeerCertificates st) = Inr l)))))
    \<and> (ServerConfig x now a certPath keyPath = Inr cfg \<longrightarrow>
      (\<exists>ders chain. loadIdentity x certPath keyPath = Inr (ders, chain)
        \<and> snd (verifyServerPeer x now peer \<lparr>PeerCertificates = chain\<rparr>) = Inr ()
        \<and> Certificates cfg = [ders] \<and> MinVersion cfg = VersionTLS12 \<and> MaxVersion cfg = VersionTLS13
        \<and> ClientAuth cfg = RequireAnyClientCert \<and> SessionTicketsDisabled cfg \<and> \<not> InsecureSkipVerify cfg
        \<and> (\<exists>verify. VerifyConnection cfg = Some verify
             \<and> (\<forall>t st. (snd (verify t st) = Inr ()) = is_ok (Authenticate x t a st)))))"
  using ClientConfig_accepted_by_server [OF _ assms] ServerConfig_accepted_by_client [OF _ assms] by blast

theorem configs_accepted_by_peer_witness:
  "(\<exists>ders chain. loadIdentity sample_externals ''agent.crt'' ''agent.key'' = Inr (ders, chain)
     \<and> is_ok (Authenticate sample_externals 10 (sample_auth discard_logger) \<lparr>PeerCertificates = chain\<rparr>))
   \<and> (\<exists>ders chain. loadIdentity sample_externals ''server.crt'' ''server.key'' = Inr (ders, chain)
     \<and> snd (verifyServerPeer sample_externals 10 (sample_auth discard_logger) \<lparr>PeerCertificates = chain\<rparr>) = Inr ())"
proof -
  obtain cfg where c: "ClientConfig sample_externals 10 (sample_auth discard_logger) ''agent.crt'' ''agent.key'' = Inr cfg"
    using sample_tls_configs by (auto simp: is_ok_conv)
  obtain cfg' where s: "ServerConfig sample_externals 10 (sample_auth discard_logger) ''server.crt'' ''server.key'' = Inr cfg'"
    using sample_tls_configs by (auto simp: is_ok_conv)
  show ?thesis using c s configs_accepted_by_peer [OF refl] by blast
qed

text \<open>
  Building an authenticator fails only if loading the bundle does: a bundle that loads never
  trips the verifier's own checks. The authenticator it yields trusts certificates of that bundle
  only, tolerates two minutes of clock skew, and its construction is audited once, with the number
  of roots and their expiry.
\<close>

lemma NewAuthenticator_from_bundle:
  "NewAuthenticator x caPath lg =
     (case loadTrustBundle x caPath of
        None \<Rightarrow> None
      | Some (Inl err) \<Rightarrow> Some ([], Inl (Wrap1 ''new authenticator: '' err))
      | Some (Inr bundle) \<Rightarrow> Some (
          log_attrs (OrDiscard lg) LevelInfo ''trust bundle loaded''
            [(''path'', AStr caPath), (''roots'', AInt (int (length (bundle_roots bundle)))),
             (''expires'', ATime (bundle_earliestExpiry bundle))],
          Inr \<lparr>auth_verifier = \<lparr>verifier_bundle = Some (pool_of (bundle_roots bundle)),
                 verifier_skew = 120000000000\<rparr>,
               auth_logger = OrDiscard lg\<rparr>))"
  by (auto simp: NewAuthenticator_def NewVerifier_def skew_def auditTrustBundle_def Let_def comp_def
      split: option.split sum.split)

end
