(* ===== verification/Authz.thy ===== *)
theory Authz
  imports Trust_Bundle "HOL-Library.List_Lexorder" "HOL-Library.Char_ord"
begin

text \<open>
  The package \<open>internal/authz\<close>: actions, roles, loading the agent-to-role mapping and deciding. Go's
  maps are association lists with distinct keys; strings are ordered byte by byte, as
  \<open>slices.Sorted\<close> does.
\<close>

section \<open>Actions and roles\<close>

text \<open>Actions are an open type: any string is one, and the package names four of them.\<close>

type_synonym action = string

definition ActionStart :: action where "ActionStart = ''Start''"
definition ActionStop :: action where "ActionStop = ''Stop''"
definition ActionGetStatus :: action where "ActionGetStatus = ''GetStatus''"
definition ActionStreamOutput :: action where "ActionStreamOutput = ''StreamOutput''"

lemmas action_consts = ActionStart_def ActionStop_def ActionGetStatus_def ActionStreamOutput_def

type_synonym role = string

definition RoleUser :: role where "RoleUser = ''USER''"

text \<open>The nil slice of an unknown role is \<open>None\<close>.\<close>

definition actions :: "role \<Rightarrow> action list option" where
  "actions r =
     (if r = RoleUser then Some [ActionStart, ActionStop, ActionGetStatus, ActionStreamOutput]
      else None)"

definition isKnown :: "role \<Rightarrow> bool" where
  "isKnown r \<longleftrightarrow> actions r \<noteq> None"

definition isAuthorizedTo :: "role \<Rightarrow> action \<Rightarrow> bool" where
  "isAuthorizedTo r act \<longleftrightarrow> (case actions r of None \<Rightarrow> False | Some as \<Rightarrow> act \<in> set as)"

definition UnmarshalJSON :: "externals \<Rightarrow> string \<Rightarrow> role result" where
  "UnmarshalJSON x data =
     wrapping ''unmarshal role: '' (ext_json_string x data) (\<lambda>input.
     fail_if (\<not> isKnown input)
       (Wrap1 (''unmarshal role ['' @ data @ '']: '') (Sentinel (SAuthz ErrUnknownRole)))
     (Inr input))"

section \<open>The authorizer\<close>

record authorizer =
  roles :: "(agent_id \<times> role) list"

text \<open>The members of a JSON object decoded into a map: a repeated key keeps its last value.\<close>

definition decode_map :: "(string \<times> 'v) list \<Rightarrow> (string \<times> 'v) list" where
  "decode_map members = foldl (\<lambda>m kv. AList.update (fst kv) (snd kv) m) [] members"

fun loadRoles :: "externals \<Rightarrow> string \<Rightarrow> (string \<times> string) list \<Rightarrow> agent_id list
    \<Rightarrow> (agent_id \<times> role) list \<Rightarrow> (agent_id \<times> role) list result" where
  "loadRoles x path entries [] rs = Inr rs"
| "loadRoles x path entries (agentID # rest) rs =
     (let rawRole = the (map_of entries agentID);
          context = ''load ['' @ path @ ''] agent ['' @ agentID @ '']: ''
      in wrapping context (Validate agentID) (\<lambda>_.
         wrapping context (UnmarshalJSON x rawRole) (\<lambda>role.
         loadRoles x path entries rest (AList.update agentID role rs))))"

definition Load :: "externals \<Rightarrow> string \<Rightarrow> authorizer result" where
  "Load x path =
     (let context = ''load ['' @ path @ '']: ''
      in wrapping context (ext_read_file x (Clean path)) (\<lambda>content.
         wrapping context (ext_json_members x content) (\<lambda>members.
         (let entries = decode_map members
          in fail_if (length entries = 0) (Wrap1 context (Sentinel (SAuthz ErrEmptyRoles)))
             (case loadRoles x path entries (sort (map fst entries)) [] of
                Inl e \<Rightarrow> Inl e
              | Inr rs \<Rightarrow> Inr \<lparr>roles = rs\<rparr>)))))"

definition Authorize :: "authorizer \<Rightarrow> agent_id \<Rightarrow> action \<Rightarrow> unit result" where
  "Authorize a agent act =
     (let denied = Inl (Wrap1 (''authorize [agent '' @ agent @ '' action '' @ act @ '']: '')
                    (Sentinel (SAuthz ErrActionUnauthorized)))
      in case map_of (roles a) agent of
           None \<Rightarrow> denied
         | Some role \<Rightarrow> if \<not> isAuthorizedTo role act then denied else Inr ())"

section \<open>Lemmas\<close>

lemma actions_in_role:
  "isAuthorizedTo r act \<longleftrightarrow> r = RoleUser \<and> act \<in> {ActionStart, ActionStop, ActionGetStatus, ActionStreamOutput}"
  by (simp add: isAuthorizedTo_def actions_def)

lemma isKnown_role: "isKnown r \<longleftrightarrow> r = RoleUser"
  by (simp add: isKnown_def actions_def)

lemma UnmarshalJSON_ok: "UnmarshalJSON x data = Inr r \<longleftrightarrow> ext_json_string x data = Inr r \<and> r = RoleUser"
  by (auto simp: UnmarshalJSON_def isKnown_role)

lemma map_of_foldl_update:
  "map_of (foldl (\<lambda>m kv. AList.update (fst kv) (snd kv) m) m kvs) = map_of m ++ map_of (rev kvs)"
proof (induction kvs arbitrary: m)
  case (Cons kv kvs)
  show ?case
    by (cases kv) (simp add: Cons.IH update_conv' map_add_upd_left fun_eq_iff map_add_def
        split: option.splits)
qed simp

text \<open>The last value of a repeated key.\<close>

lemma map_of_decode_map: "map_of (decode_map members) = map_of (rev members)"
  by (simp add: decode_map_def map_of_foldl_update)

lemma dom_map_of_rev: "dom (map_of (rev kvs)) = fst ` set kvs"
  by (simp add: dom_map_of_conv_image_fst)

lemma keys_decode_map: "set (map fst (decode_map members)) = fst ` set members"
  using dom_map_of_conv_image_fst [of "decode_map members"] map_of_decode_map [of members]
    dom_map_of_rev [of members] by simp

lemma distinct_decode_map: "distinct (map fst (decode_map members))"
proof -
  have "distinct (map fst (foldl (\<lambda>m kv. AList.update (fst kv) (snd kv) m) m members))"
    if "distinct (map fst m)" for m :: "(string \<times> 'a) list"
    using that by (induction members arbitrary: m) (auto simp: distinct_update)
  then show ?thesis by (simp add: decode_map_def)
qed

lemma decode_map_Nil: "decode_map members = [] \<longleftrightarrow> members = []"
  using keys_decode_map [of members] by auto

definition admits :: "externals \<Rightarrow> (string \<times> string) list \<Rightarrow> agent_id \<Rightarrow> bool" where
  "admits x entries agent \<longleftrightarrow> valid_agent_id agent
     \<and> ext_json_string x (the (map_of entries agent)) = Inr RoleUser"

lemma loadRoles_ok:
  "loadRoles x path entries agents rs = Inr rs' \<longleftrightarrow>
     (\<forall>agent\<in>set agents. admits x entries agent)
     \<and> rs' = foldl (\<lambda>m agent. AList.update agent RoleUser m) rs agents"
  by (induction x path entries agents rs rule: loadRoles.induct)
     (auto simp: Let_def Validate_ok UnmarshalJSON_ok admits_def)

lemma map_of_foldl_user:
  "map_of (foldl (\<lambda>m agent. AList.update agent RoleUser m) rs agents) agent =
     (if agent \<in> set agents then Some RoleUser else map_of rs agent)"
  by (induction agents arbitrary: rs) (auto simp: update_conv')

lemma Load_ok:
  "Load x path = Inr a \<longleftrightarrow>
     (\<exists>content members. ext_read_file x (Clean path) = Inr content
        \<and> ext_json_members x content = Inr members \<and> members \<noteq> []
        \<and> (\<forall>agent\<in>fst ` set members. admits x (decode_map members) agent)
        \<and> a = \<lparr>roles = foldl (\<lambda>m agent. AList.update agent RoleUser m) []
                 (sort (map fst (decode_map members)))\<rparr>)"
  unfolding Load_def Let_def
  by (simp add: loadRoles_ok decode_map_Nil keys_decode_map [simplified] propagate_Inr) blast

lemma Authorize_ok:
  "Authorize a agent act = Inr () \<longleftrightarrow> map_of (roles a) agent = Some RoleUser
     \<and> act \<in> {ActionStart, ActionStop, ActionGetStatus, ActionStreamOutput}"
  by (auto simp: Authorize_def Let_def actions_in_role split: option.splits)

lemma Authorize_refuses:
  "fails_with (Authorize a agent act) (SAuthz ErrActionUnauthorized) \<longleftrightarrow> Authorize a agent act \<noteq> Inr ()"
  by (auto simp: Authorize_def Let_def split: option.splits)

lemma Load_authorizes:
  assumes "Load x path = Inr a" and "ext_read_file x (Clean path) = Inr content"
    and "ext_json_members x content = Inr members"
  shows "Authorize a agent act = Inr () \<longleftrightarrow> agent \<in> fst ` set members
    \<and> act \<in> {ActionStart, ActionStop, ActionGetStatus, ActionStreamOutput}"
proof -
  have "roles a = foldl (\<lambda>m agent. AList.update agent RoleUser m) []
      (sort (map fst (decode_map members)))"
    using assms by (auto simp: Load_ok)
  moreover have "agent \<in> set (sort (map fst (decode_map members))) \<longleftrightarrow> agent \<in> fst ` set members"
    using keys_decode_map [of members] by (simp only: set_sort)
  ultimately show ?thesis by (simp only: Authorize_ok map_of_foldl_user) simp
qed

section \<open>Properties\<close>

text \<open>
  Deny by default: an action is authorized if and only if the agent has a role and that role
  grants it; everything else is refused with ErrActionUnauthorized.
\<close>

lemma Authorize_denies_by_default:
  "(Authorize a agent act = Inr () \<longleftrightarrow>
      (\<exists>role as. map_of (roles a) agent = Some role \<and> actions role = Some as \<and> act \<in> set as))
   \<and> (is_ok (Authorize a agent act) \<noteq> fails_with (Authorize a agent act) (SAuthz ErrActionUnauthorized))"
  by (auto simp: Authorize_def Let_def isAuthorizedTo_def split: option.splits)

text \<open>
  C36. A roles file loads if and only if it can be read, is a JSON object with at least one member,
  every key is a valid agent identifier and the last value given for it is a known role. What loads
  authorizes exactly the agents the file names, each for the actions Start, Stop, GetStatus and
  StreamOutput and for no other: any other agent or action is refused with ErrActionUnauthorized.
\<close>

theorem Load_authorizes_named_agents:
  "(is_ok (Load x path) \<longleftrightarrow>
      (\<exists>content members. ext_read_file x (Clean path) = Inr content
         \<and> ext_json_members x content = Inr members \<and> members \<noteq> []
         \<and> list_all (\<lambda>agent. valid_agent_id agent
              \<and> ext_json_string x (the (map_of (rev members) agent)) = Inr RoleUser) (map fst members)))
   \<and> (\<forall>a content members. Load x path = Inr a \<longrightarrow> ext_read_file x (Clean path) = Inr content
        \<longrightarrow> ext_json_members x content = Inr members
        \<longrightarrow> (if agent \<in> fst ` set members \<and> act \<in> {''Start'', ''Stop'', ''GetStatus'', ''StreamOutput''}
             then Authorize a agent act = Inr ()
             else fails_with (Authorize a agent act) (SAuthz ErrActionUnauthorized)))"
proof
  have adm: "admits x (decode_map members) agent \<longleftrightarrow> valid_agent_id agent
      \<and> ext_json_string x (the (map_of (rev members) agent)) = Inr RoleUser" for members agent
    by (simp add: admits_def map_of_decode_map)
  show "is_ok (Load x path) \<longleftrightarrow>
      (\<exists>content members. ext_read_file x (Clean path) = Inr content
         \<and> ext_json_members x content = Inr members \<and> members \<noteq> []
         \<and> list_all (\<lambda>agent. valid_agent_id agent
              \<and> ext_json_string x (the (map_of (rev members) agent)) = Inr RoleUser) (map fst members))"
    unfolding is_ok_conv Load_ok by (auto simp: adm list_all_iff)
  show "\<forall>a content members. Load x path = Inr a \<longrightarrow> ext_read_file x (Clean path) = Inr content
        \<longrightarrow> ext_json_members x content = Inr members
        \<longrightarrow> (if agent \<in> fst ` set members \<and> act \<in> {''Start'', ''Stop'', ''GetStatus'', ''StreamOutput''}
             then Authorize a agent act = Inr ()
             else fails_with (Authorize a agent act) (SAuthz ErrActionUnauthorized))"
    using Load_authorizes [where agent = agent and act = act, unfolded action_consts]
    by (simp add: Authorize_refuses)
qed

theorem Load_authorizes_named_agents_witness:
  "\<exists>a. Load sample_externals ''roles.json'' = Inr a \<and> Authorize a ''jones'' ActionStop = Inr ()
     \<and> \<not> is_ok (Authorize a ''jones'' ''Unknown'') \<and> \<not> is_ok (Authorize a ''brown'' ActionStop)"
proof -
  have m: "ext_read_file sample_externals (Clean ''roles.json'') = Inr ''{}''"
    "ext_json_members sample_externals ''{}'' = Inr [(''smith'', ''USER''), (''jones'', ''USER'')]"
    by code_simp+
  have "is_ok (Load sample_externals ''roles.json'')" by code_simp
  then obtain a where a: "Load sample_externals ''roles.json'' = Inr a" by (auto simp: is_ok_conv)
  have auth: "if agent \<in> {''smith'', ''jones''} \<and> act \<in> {''Start'', ''Stop'', ''GetStatus'', ''StreamOutput''}
      then Authorize a agent act = Inr () else fails_with (Authorize a agent act) (SAuthz ErrActionUnauthorized)"
    for agent act
    using Load_authorizes_named_agents [of sample_externals "''roles.json''" agent act] a m by simp
  have "Authorize a ''jones'' ActionStop = Inr ()" using auth [of "''jones''" ActionStop] by (simp add: ActionStop_def)
  moreover have "\<not> is_ok (Authorize a ''jones'' ''Unknown'')" "\<not> is_ok (Authorize a ''brown'' ActionStop)"
    using auth [of "''jones''" "''Unknown''"] auth [of "''brown''" ActionStop] by (simp_all add: fails_with_not_ok)
  ultimately show ?thesis using a by blast
qed

end
