(* ===== verification/Registry.thy ===== *)
theory Registry
  imports Agent_Identity Worker_Props
begin

text \<open>
  The package \<open>internal/registry\<close>: one record per agent with its jobs and the counter that mints their
  ids, and the registry over the records. A \<open>*worker.Job\<close> is an index into the list of all jobs ever
  started; a critical section of the registry's mutex is one function. Counters are unbounded
  integers: \<open>2^63\<close> creations by one agent are out of reach.

  \<open>Shutdown\<close> is a machine: a snapshot under the mutex, one goroutine per job that calls \<open>Stop\<close>, and
  the wait for all of them.
\<close>

section \<open>Records\<close>

record job_record =
  rec_agentID :: agent_id
  rec_counter :: int
  rec_jobs :: "(job_id \<times> nat) list"
  rec_logger :: logger

definition newRecord :: "agent_id \<Rightarrow> logger \<Rightarrow> job_record" where
  "newRecord agentID lg =
     \<lparr>rec_agentID = agentID, rec_counter = 0, rec_jobs = [],
      rec_logger = with_attrs lg [(''agent_id'', AStr agentID)]\<rparr>"

definition mint :: "agent_id \<Rightarrow> int \<Rightarrow> job_id" where
  "mint agentID counter = agentID @ ''/'' @ show_int counter"

text \<open>The new job takes the next index of the list of all jobs.\<close>

definition record_create :: "std_sentinel option \<Rightarrow> int \<Rightarrow> int \<Rightarrow> job_record \<Rightarrow> job_sys list
    \<Rightarrow> (job_id \<times> job_record \<times> job_sys list) result" where
  "record_create ctxErr now count r jobs =
     (let jobID = mint (rec_agentID r) (rec_counter r)
      in wrapping (''record-create [agent '' @ rec_agentID r @ '']: '')
           (NewJob ctxErr now jobID count MeanTickInterval (Some (rec_logger r)))
         (\<lambda>job. Inr (jobID,
            r\<lparr>rec_counter := rec_counter r + 1,
              rec_jobs := AList.update jobID (length jobs) (rec_jobs r)\<rparr>,
            jobs @ [job])))"

definition record_find :: "job_id \<Rightarrow> job_record \<Rightarrow> nat option" where
  "record_find jobID r = map_of (rec_jobs r) jobID"

definition allJobs :: "job_record \<Rightarrow> nat list" where
  "allJobs r = map snd (rec_jobs r)"

section \<open>The registry\<close>

record registry =
  reg_records :: "(agent_id \<times> job_record) list"
  reg_logger :: logger
  reg_isAcceptingJobs :: bool

text \<open>The registry and the jobs its records point to.\<close>

record store =
  st_registry :: registry
  st_jobs :: "job_sys list"

definition New_registry :: "logger option \<Rightarrow> store" where
  "New_registry lg =
     \<lparr>st_registry = \<lparr>reg_records = [], reg_logger = OrDiscard lg, reg_isAcceptingJobs = True\<rparr>,
      st_jobs = []\<rparr>"

text \<open>The agent's record, or a fresh one that is stored only once a job is created.\<close>

definition record_for :: "agent_id \<Rightarrow> registry \<Rightarrow> job_record" where
  "record_for agentID r =
     (case map_of (reg_records r) agentID of
        None \<Rightarrow> newRecord agentID (reg_logger r)
      | Some found \<Rightarrow> found)"

definition Create :: "std_sentinel option \<Rightarrow> int \<Rightarrow> agent_id \<Rightarrow> int \<Rightarrow> store
    \<Rightarrow> store \<times> job_id result" where
  "Create ctxErr now agentID count s =
     (let r = st_registry s
      in if \<not> reg_isAcceptingJobs r
         then (s, Inl (Wrap1 ''registry-create: '' (Sentinel (SRegistry ErrNotAcceptingJobs))))
         else
           (case record_create ctxErr now count (record_for agentID r) (st_jobs s) of
              Inl err \<Rightarrow> (s, Inl (Wrap1 ''registry-create: '' err))
            | Inr (jobID, rec, jobs) \<Rightarrow>
                (\<lparr>st_registry = r\<lparr>reg_records := AList.update agentID rec (reg_records r)\<rparr>,
                  st_jobs = jobs\<rparr>,
                 Inr jobID)))"

definition Find :: "agent_id \<Rightarrow> job_id \<Rightarrow> registry \<Rightarrow> nat option" where
  "Find agentID jobID r =
     (case map_of (reg_records r) agentID of
        None \<Rightarrow> None
      | Some rec \<Rightarrow> record_find jobID rec)"

text \<open>The critical section of \<open>Shutdown\<close>: no job from here on, and the jobs there are.\<close>

definition Shutdown_snapshot :: "registry \<Rightarrow> registry \<times> nat list" where
  "Shutdown_snapshot r =
     (r\<lparr>reg_isAcceptingJobs := False\<rparr>, concat (map (\<lambda>rec. allJobs (snd rec)) (reg_records r)))"

text \<open>To evaluate creations on concrete values.\<close>

lemmas create_evals = New_registry_def Create_def record_create_def record_for_def newRecord_def
  mint_def NewJob_def MaxCount_def MeanTickInterval_def wrapping_def fail_if_def Let_def with_attrs_def
  OrDiscard_def discard_logger_def show_int_base_def show_base.simps digit_char_values

section \<open>The invariant\<close>

definition rec_inv :: "job_sys list \<Rightarrow> agent_id \<Rightarrow> job_record \<Rightarrow> bool" where
  "rec_inv jobs a rec \<longleftrightarrow> rec_agentID rec = a \<and> 0 \<le> rec_counter rec \<and> distinct (map fst (rec_jobs rec))
     \<and> (\<forall>jobID p. map_of (rec_jobs rec) jobID = Some p \<longrightarrow>
          (\<exists>k\<ge>0. k < rec_counter rec \<and> jobID = mint a k)
          \<and> p < length jobs \<and> job_ID (js_job (jobs ! p)) = jobID)"

definition store_inv :: "store \<Rightarrow> bool" where
  "store_inv s \<longleftrightarrow> distinct (map fst (reg_records (st_registry s)))
     \<and> (\<forall>a rec. map_of (reg_records (st_registry s)) a = Some rec \<longrightarrow> rec_inv (st_jobs s) a rec)
     \<and> (\<forall>p<length (st_jobs s). sys_inv (st_jobs s ! p)
          \<and> (\<exists>a jobID. Find a jobID (st_registry s) = Some p))"

lemma mint_inj: "mint a i = mint b j \<longleftrightarrow> a = b \<and> i = j"
proof
  assume "mint a i = mint b j"
  then have "a @ CHR ''/'' # show_int i = b @ CHR ''/'' # show_int j" by (simp only: mint_def append.simps)
  from append_sep_inj [OF show_int_no_slash show_int_no_slash this] show "a = b \<and> i = j"
    by (simp only: show_int_inj)
qed simp

lemma New_registry_inv: "store_inv (New_registry lg)"
  by (simp add: store_inv_def New_registry_def)

lemma Find_Some:
  assumes "store_inv s" and "Find a jobID (st_registry s) = Some p"
  shows "\<exists>rec. map_of (reg_records (st_registry s)) a = Some rec \<and> map_of (rec_jobs rec) jobID = Some p
    \<and> rec_inv (st_jobs s) a rec \<and> p < length (st_jobs s) \<and> job_ID (js_job (st_jobs s ! p)) = jobID
    \<and> (\<exists>k\<ge>0. k < rec_counter rec \<and> jobID = mint a k)"
proof -
  obtain rec where rec: "map_of (reg_records (st_registry s)) a = Some rec"
    "map_of (rec_jobs rec) jobID = Some p"
    using assms(2) by (auto simp: Find_def record_find_def split: option.splits)
  then have "rec_inv (st_jobs s) a rec" using assms(1) by (simp add: store_inv_def)
  moreover from this rec(2) have "(\<exists>k\<ge>0. k < rec_counter rec \<and> jobID = mint a k)
      \<and> p < length (st_jobs s) \<and> job_ID (js_job (st_jobs s ! p)) = jobID"
    unfolding rec_inv_def by blast
  ultimately show ?thesis using rec by blast
qed

lemma Find_owner:
  assumes "store_inv s" and "Find a jobID (st_registry s) = Some p" and "Find b jobID' (st_registry s) = Some q"
  shows "jobID = jobID' \<Longrightarrow> a = b \<and> p = q" and "p = q \<Longrightarrow> a = b \<and> jobID = jobID'"
proof -
  obtain i where i: "jobID = mint a i" "job_ID (js_job (st_jobs s ! p)) = jobID"
    using Find_Some [OF assms(1,2)] by blast
  obtain j where j: "jobID' = mint b j" "job_ID (js_job (st_jobs s ! q)) = jobID'"
    using Find_Some [OF assms(1,3)] by blast
  show "a = b \<and> p = q" if "jobID = jobID'" using that i(1) j(1) assms(2,3) by (auto simp: mint_inj)
  show "a = b \<and> jobID = jobID'" if "p = q" using that i j by (auto simp: mint_inj)
qed

section \<open>Create\<close>

lemma Create_cases:
  assumes "Create ctxErr now a count s = (s', r)"
  obtains (refused) "\<not> reg_isAcceptingJobs (st_registry s)" "s' = s"
      "r = Inl (Wrap1 ''registry-create: '' (Sentinel (SRegistry ErrNotAcceptingJobs)))"
    | (invalid) p q where "reg_isAcceptingJobs (st_registry s)" "s' = s"
      "\<not> (1 \<le> count \<and> count \<le> MaxCount)"
      "r = Inl (Wrap1 ''registry-create: '' (Wrap1 p (Wrap1 q (Sentinel (SWorker ErrInvalidCount)))))"
    | (created) rec job where "reg_isAcceptingJobs (st_registry s)" "rec = record_for a (st_registry s)"
      "NewJob ctxErr now (mint (rec_agentID rec) (rec_counter rec)) count MeanTickInterval
         (Some (rec_logger rec)) = Inr job"
      "r = Inr (mint (rec_agentID rec) (rec_counter rec))"
      "s' = \<lparr>st_registry = (st_registry s)\<lparr>reg_records := AList.update a
               (rec\<lparr>rec_counter := rec_counter rec + 1,
                    rec_jobs := AList.update (mint (rec_agentID rec) (rec_counter rec))
                       (length (st_jobs s)) (rec_jobs rec)\<rparr>) (reg_records (st_registry s))\<rparr>,
             st_jobs = st_jobs s @ [job]\<rparr>"
proof (cases "reg_isAcceptingJobs (st_registry s)")
  case False
  with assms show ?thesis by (intro refused) (simp_all add: Create_def)
next
  case True
  let ?rec = "record_for a (st_registry s)"
  let ?new = "NewJob ctxErr now (mint (rec_agentID ?rec) (rec_counter ?rec)) count MeanTickInterval
         (Some (rec_logger ?rec))"
  show ?thesis
  proof (cases ?new)
    case (Inl e)
    then have bad: "\<not> (1 \<le> count \<and> count \<le> MaxCount)"
      and e: "\<exists>q. e = Wrap1 q (Sentinel (SWorker ErrInvalidCount))"
      by (auto simp: NewJob_def fail_if_def MeanTickInterval_def split: if_splits)
    have "r = Inl (Wrap1 ''registry-create: ''
        (Wrap1 (''record-create [agent '' @ rec_agentID ?rec @ '']: '') e))" "s' = s"
      using assms True Inl by (auto simp: Create_def record_create_def Let_def)
    with e bad True show ?thesis using invalid by blast
  next
    case (Inr job)
    with True assms show ?thesis
      by (intro created [of ?rec job]) (simp_all add: Create_def record_create_def Let_def)
  qed
qed

lemma record_for_inv: "store_inv s \<Longrightarrow> rec_inv (st_jobs s) a (record_for a (st_registry s))"
  by (auto simp: record_for_def store_inv_def rec_inv_def newRecord_def split: option.split)

lemma Find_record_for: "Find a jobID r = map_of (rec_jobs (record_for a r)) jobID"
  by (simp add: Find_def record_for_def record_find_def newRecord_def split: option.split)

lemma rec_inv_append: "rec_inv jobs a rec \<Longrightarrow> rec_inv (jobs @ [job]) a rec"
  unfolding rec_inv_def by (fastforce simp: nth_append)

text \<open>The next id of a record names no job, and the record with it is well formed.\<close>

lemma minted_fresh:
  assumes inv: "store_inv s" and found: "rec = record_for a (st_registry s)"
  shows "Find b (mint a (rec_counter rec)) (st_registry s) = None"
proof (rule ccontr)
  let ?i = "mint a (rec_counter rec)"
  have rec: "rec_inv (st_jobs s) a rec" using record_for_inv [OF inv] found by simp
  then have pos: "0 \<le> rec_counter rec" by (simp add: rec_inv_def)
  assume "Find b ?i (st_registry s) \<noteq> None"
  then obtain p where p: "Find b ?i (st_registry s) = Some p" by auto
  then obtain k where "?i = mint b k" using Find_Some [OF inv] by blast
  with pos have "b = a" by (simp add: mint_inj)
  with p found have "map_of (rec_jobs rec) ?i = Some p" by (simp add: Find_record_for)
  with rec obtain l where "l < rec_counter rec" "?i = mint a l" unfolding rec_inv_def by blast
  with pos show False by (simp add: mint_inj)
qed

lemma minted_record:
  assumes rec: "rec_inv jobs a rec" and job: "job_ID (js_job job) = mint a (rec_counter rec)"
  shows "rec_inv (jobs @ [job]) a (rec\<lparr>rec_counter := rec_counter rec + 1,
      rec_jobs := AList.update (mint a (rec_counter rec)) (length jobs) (rec_jobs rec)\<rparr>)"
    (is "rec_inv _ a ?rec")
proof -
  have "rec_agentID rec = a" "0 \<le> rec_counter rec" "distinct (map fst (rec_jobs rec))"
    using rec by (simp_all add: rec_inv_def)
  moreover have "(\<exists>k\<ge>0. k < rec_counter rec + 1 \<and> i = mint a k) \<and> p < Suc (length jobs)
      \<and> job_ID (js_job ((jobs @ [job]) ! p)) = i"
    if "map_of (rec_jobs ?rec) i = Some p" for i p
  proof (cases "i = mint a (rec_counter rec)")
    case True
    with that have "p = length jobs" by (simp add: update_conv')
    with True \<open>0 \<le> rec_counter rec\<close> job show ?thesis by (auto simp: nth_append)
  next
    case False
    with that have "map_of (rec_jobs rec) i = Some p" by (simp add: update_conv')
    with rec have "(\<exists>k\<ge>0. k < rec_counter rec \<and> i = mint a k) \<and> p < length jobs
        \<and> job_ID (js_job (jobs ! p)) = i" unfolding rec_inv_def by blast
    then show ?thesis by (auto simp: nth_append)
  qed
  ultimately show ?thesis by (simp add: rec_inv_def distinct_update)
qed

text \<open>What a successful creation changes.\<close>

text \<open>A store with one more job, found under a fresh id in the record of its owner.\<close>

lemma store_inv_extend:
  assumes inv: "store_inv s" and rec: "rec_inv (st_jobs s @ [job]) a rec" and job: "sys_inv job"
    and s': "s' = \<lparr>st_registry = (st_registry s)\<lparr>reg_records := AList.update a rec (reg_records (st_registry s))\<rparr>,
        st_jobs = st_jobs s @ [job]\<rparr>"
    and fresh: "\<And>b. Find b jobID (st_registry s) = None"
    and find: "\<And>b i. Find b i (st_registry s') =
        (if b = a \<and> i = jobID then Some (length (st_jobs s)) else Find b i (st_registry s))"
  shows "store_inv s'"
  unfolding store_inv_def
proof (intro conjI allI impI)
  show "distinct (map fst (reg_records (st_registry s')))"
    using inv by (simp add: s' store_inv_def distinct_update)
next
  fix b r assume "map_of (reg_records (st_registry s')) b = Some r"
  then show "rec_inv (st_jobs s') b r"
    using rec inv rec_inv_append by (auto simp: s' store_inv_def update_conv' split: if_splits)
next
  fix p assume p: "p < length (st_jobs s')"
  show "sys_inv (st_jobs s' ! p)"
    using p inv job by (auto simp: s' store_inv_def nth_append less_Suc_eq)
  show "\<exists>b i. Find b i (st_registry s') = Some p"
  proof (cases "p = length (st_jobs s)")
    case True
    then have "Find a jobID (st_registry s') = Some p" by (simp add: find)
    then show ?thesis by blast
  next
    case False
    with p have "p < length (st_jobs s)" by (simp add: s')
    with inv obtain b i where "Find b i (st_registry s) = Some p" unfolding store_inv_def by blast
    moreover from this fresh have "i \<noteq> jobID" by auto
    ultimately have "Find b i (st_registry s') = Some p" by (simp add: find)
    then show ?thesis by blast
  qed
qed

lemma Create_ok:
  assumes inv: "store_inv s" and ok: "Create ctxErr now a count s = (s', Inr jobID)"
  obtains job k where "reg_isAcceptingJobs (st_registry s)" "1 \<le> count" "count \<le> MaxCount"
    "0 \<le> k" "jobID = mint a k" "st_jobs s' = st_jobs s @ [job]" "sys_inv job"
    "job_status (js_job job) = StatusRunning" "job_ID (js_job job) = jobID"
    "\<And>b. Find b jobID (st_registry s) = None"
    "\<And>b i. Find b i (st_registry s') = (if b = a \<and> i = jobID then Some (length (st_jobs s))
                                   else Find b i (st_registry s))"
    "reg_isAcceptingJobs (st_registry s')" "reg_logger (st_registry s') = reg_logger (st_registry s)"
    "job_ctx (js_job job) = ctxErr" "cd_count (js_countdown job) = count"
    "store_inv s'"
  using ok
proof (cases rule: Create_cases)
  case (created rec job)
  have rec: "rec_inv (st_jobs s) a rec" using record_for_inv [OF inv] created(2) by simp
  then have id: "jobID = mint a (rec_counter rec)" "0 \<le> rec_counter rec"
    using created(4) by (simp_all add: rec_inv_def)
  have job: "sys_inv job" "1 \<le> count" "count \<le> MaxCount" "job_status (js_job job) = StatusRunning"
    "job_ID (js_job job) = jobID" "job_ctx (js_job job) = ctxErr" "cd_count (js_countdown job) = count"
    using NewJob_ok [OF created(3)] created(4) by auto
  have fresh: "Find b jobID (st_registry s) = None" for b
    using minted_fresh [OF inv created(2)] by (simp add: id(1))
  let ?rec = "rec\<lparr>rec_counter := rec_counter rec + 1,
      rec_jobs := AList.update jobID (length (st_jobs s)) (rec_jobs rec)\<rparr>"
  have s': "s' = \<lparr>st_registry = (st_registry s)\<lparr>reg_records :=
        AList.update a ?rec (reg_records (st_registry s))\<rparr>, st_jobs = st_jobs s @ [job]\<rparr>"
    using created(4,5) by simp
  have find: "Find b i (st_registry s') = (if b = a \<and> i = jobID then Some (length (st_jobs s))
                                   else Find b i (st_registry s))" for b i
    using created(2) by (simp add: s' Find_record_for record_for_def update_conv' split: option.split)
  have rec': "rec_inv (st_jobs s @ [job]) a ?rec"
    unfolding id(1) by (rule minted_record [OF rec]) (use job(5) id(1) in simp)
  have "store_inv s'" by (rule store_inv_extend [OF inv rec' job(1) s' fresh find])
  with created(1) id job fresh find show ?thesis
    by (intro that [of "rec_counter rec" job]) (simp_all add: s')
qed simp_all

lemma Create_fails: "Create ctxErr now a count s = (s', Inl e) \<Longrightarrow> s' = s"
  by (erule Create_cases) auto

lemma Create_keeps: "store_inv s \<Longrightarrow> Create ctxErr now a count s = (s', r) \<Longrightarrow> store_inv s'"
  by (cases r) (auto dest: Create_fails elim: Create_ok)

section \<open>A store of jobs by owner\<close>

text \<open>A sequence of creations, each by an agent, and the keys it yields.\<close>

fun create_all :: "('a \<Rightarrow> 'c \<Rightarrow> 's \<Rightarrow> 's \<times> ('e + 'k)) \<Rightarrow> ('a \<times> 'c) list \<Rightarrow> 's \<Rightarrow> 's \<times> ('a \<times> 'k) list" where
  "create_all create [] s = (s, [])"
| "create_all create ((a, c) # cs) s =
     (case create a c s of
        (s', r) \<Rightarrow> (case create_all create cs s' of
           (s'', ks) \<Rightarrow> (s'', (case r of Inl e \<Rightarrow> ks | Inr k \<Rightarrow> (a, k) # ks))))"

text \<open>
  What the users of the registry rely on: a creation that fails changes nothing, one that succeeds
  makes a key nobody held, found by its owner and by nobody else, and leaves every other lookup as it
  was. Its laws give that owners never reach each other's entries, whatever is created in between.
\<close>

locale owned_store =
  fixes inv :: "'s \<Rightarrow> bool"
    and create :: "'a \<Rightarrow> 'c \<Rightarrow> 's \<Rightarrow> 's \<times> ('e + 'k)"
    and lookup :: "'a \<Rightarrow> 'k \<Rightarrow> 's \<Rightarrow> 'p option"
  assumes create_inv: "inv s \<Longrightarrow> create a c s = (s', r) \<Longrightarrow> inv s'"
    and create_fails: "create a c s = (s', Inl e) \<Longrightarrow> s' = s"
    and create_fresh: "inv s \<Longrightarrow> create a c s = (s', Inr k) \<Longrightarrow> lookup b k s = None"
    and create_found: "inv s \<Longrightarrow> create a c s = (s', Inr k) \<Longrightarrow> lookup a k s' \<noteq> None"
    and create_frame: "inv s \<Longrightarrow> create a c s = (s', Inr k) \<Longrightarrow> (b, l) \<noteq> (a, k) \<Longrightarrow> lookup b l s' = lookup b l s"
begin

lemma create_lookup_mono:
  assumes "inv s" and "create a c s = (s', r)" and "lookup b l s = Some p"
  shows "lookup b l s' = Some p"
proof (cases r)
  case (Inl e)
  with create_fails [of a c s s' e] assms show ?thesis by simp
next
  case (Inr k)
  with create_fresh [of s a c s' k b] assms have "l \<noteq> k" by auto
  with create_frame [of s a c s' k b l] assms Inr show ?thesis by simp
qed

lemma create_all_facts:
  assumes "inv s" and "create_all create cs s = (s', ks)"
  shows "inv s' \<and> distinct (map snd ks)
    \<and> (\<forall>b l p. lookup b l s = Some p \<longrightarrow> lookup b l s' = Some p \<and> l \<notin> set (map snd ks))
    \<and> (\<forall>b l. lookup b l s' \<noteq> None \<longleftrightarrow> lookup b l s \<noteq> None \<or> (b, l) \<in> set ks)"
  using assms
proof (induction cs arbitrary: s ks)
  case (Cons ac cs)
  obtain a c where ac: "ac = (a, c)" by force
  obtain t r where t: "create a c s = (t, r)" by force
  obtain ks' where ks': "create_all create cs t = (s', ks')"
    and ks: "ks = (case r of Inl e \<Rightarrow> ks' | Inr k \<Rightarrow> (a, k) # ks')"
    using Cons.prems(2) ac t by (auto split: prod.splits)
  note IH = Cons.IH [OF create_inv [OF Cons.prems(1) t] ks']
  show ?case
  proof (cases r)
    case (Inl e)
    with t create_fails [of a c s t e] have "t = s" by simp
    with IH ks Inl show ?thesis by simp
  next
    case (Inr k)
    note frame = create_frame [OF Cons.prems(1) t [unfolded Inr]]
    have new: "lookup a k t \<noteq> None" by (rule create_found [OF Cons.prems(1) t [unfolded Inr]])
    then have k: "k \<notin> set (map snd ks')" using IH by blast
    have iff: "lookup b l t \<noteq> None \<longleftrightarrow> lookup b l s \<noteq> None \<or> (b, l) = (a, k)" for b l
      using frame [of b l] new by (cases "(b, l) = (a, k)") auto
    have keep: "lookup b l t = Some p \<and> l \<noteq> k" if "lookup b l s = Some p" for b l p
      using create_lookup_mono [OF Cons.prems(1) t that] create_fresh [OF Cons.prems(1) t [unfolded Inr], of b]
        that by auto
    have "lookup b l s' = Some p \<and> l \<notin> set (map snd ks)" if "lookup b l s = Some p" for b l p
    proof -
      from keep [OF that] have l: "lookup b l t = Some p" "l \<noteq> k" by blast+
      from IH l(1) have "lookup b l s' = Some p \<and> l \<notin> set (map snd ks')" by blast
      with l(2) ks Inr show ?thesis by simp
    qed
    moreover have "lookup b l s' \<noteq> None \<longleftrightarrow> lookup b l s \<noteq> None \<or> (b, l) \<in> set ks" for b l
      using IH iff [of b l] ks Inr by auto
    ultimately show ?thesis using IH k ks Inr by simp
  qed
qed simp

end

interpretation owned: owned_store store_inv "\<lambda>a (ctxErr, now, count). Create ctxErr now a count"
  "\<lambda>a jobID s. Find a jobID (st_registry s)"
proof unfold_locales
  fix s s' :: store and a and c :: "std_sentinel option \<times> int \<times> int" and r
  assume "store_inv s" and "(case c of (ctxErr, now, count) \<Rightarrow> Create ctxErr now a count) s = (s', r)"
  then show "store_inv s'" by (cases c) (auto dest: Create_keeps)
next
  fix s s' :: store and a and c :: "std_sentinel option \<times> int \<times> int" and e
  assume "(case c of (ctxErr, now, count) \<Rightarrow> Create ctxErr now a count) s = (s', Inl e)"
  then show "s' = s" by (cases c) (auto dest: Create_fails)
next
  fix s s' :: store and a b and c :: "std_sentinel option \<times> int \<times> int" and k
  assume inv: "store_inv s" and ok: "(case c of (ctxErr, now, count) \<Rightarrow> Create ctxErr now a count) s = (s', Inr k)"
  obtain ctxErr now count where "Create ctxErr now a count s = (s', Inr k)" using ok by (cases c) auto
  note facts = Create_ok [OF inv this]
  show "Find b k (st_registry s) = None" by (rule facts) simp
  show "Find a k (st_registry s') \<noteq> None" by (rule facts) simp
  show "Find b l (st_registry s') = Find b l (st_registry s)" if "(b, l) \<noteq> (a, k)" for l
    by (rule facts) (use that in auto)
qed

end
