(* ===== verification/Registry_Shutdown.thy ===== *)
theory Registry_Shutdown
  imports Registry
begin

text \<open>
  \<open>Registry.Shutdown\<close> as a machine over a registry whose jobs run: after its critical section it starts
  one goroutine per job of its snapshot, each of which calls \<open>Job.Stop\<close>, and waits for all of them.
  The events of every job, creations and several shutdowns interleave; a process one of whose jobs has
  crashed runs no further.
\<close>

section \<open>The machine\<close>

text \<open>
  A waiting shutdown holds the jobs of its snapshot, each with the number of the \<open>Stop\<close> call made on
  it, once its goroutine has called.
\<close>

datatype shutdown_pc = ShutWaiting "(nat \<times> nat option) list" | ShutReturned

record shop =
  sh_store :: store
  sh_shutdowns :: "nat \<Rightarrow> shutdown_pc option"

datatype shop_event =
    EvCreate "std_sentinel option" int agent_id int
  | EvJob nat job_event
  | EvShutdown nat
  | EvGo nat nat nat
  | EvWait nat

abbreviation sh_jobs :: "shop \<Rightarrow> job_sys list" where
  "sh_jobs s \<equiv> st_jobs (sh_store s)"

abbreviation sh_registry :: "shop \<Rightarrow> registry" where
  "sh_registry s \<equiv> st_registry (sh_store s)"

definition live_jobs :: "job_sys list \<Rightarrow> bool" where
  "live_jobs jobs \<longleftrightarrow> list_all (\<lambda>j. cd_pc (js_countdown j) \<noteq> CCrashed) jobs"

definition set_job :: "nat \<Rightarrow> job_sys \<Rightarrow> shop \<Rightarrow> shop" where
  "set_job p j s = s\<lparr>sh_store := (sh_store s)\<lparr>st_jobs := (sh_jobs s)[p := j]\<rparr>\<rparr>"

fun stop_returned :: "job_sys list \<Rightarrow> nat \<times> nat option \<Rightarrow> bool" where
  "stop_returned jobs (p, None) \<longleftrightarrow> False"
| "stop_returned jobs (p, Some i) \<longleftrightarrow>
     (case js_stops (jobs ! p) i of Some (StopReturned st) \<Rightarrow> True | _ \<Rightarrow> False)"

fun shop_move :: "shop_event \<Rightarrow> shop \<Rightarrow> shop option" where
  "shop_move (EvCreate ctxErr now a count) s =
     Some (s\<lparr>sh_store := fst (Create ctxErr now a count (sh_store s))\<rparr>)"
| "shop_move (EvJob p e) s =
     (if p < length (sh_jobs s)
      then map_option (\<lambda>j. set_job p j s) (job_step e (sh_jobs s ! p))
      else None)"
| "shop_move (EvShutdown k) s =
     (case sh_shutdowns s k of
        None \<Rightarrow>
          (case Shutdown_snapshot (sh_registry s) of
             (r, jobs) \<Rightarrow>
               Some (s\<lparr>sh_store := (sh_store s)\<lparr>st_registry := r\<rparr>,
                       sh_shutdowns := (sh_shutdowns s)(k \<mapsto> ShutWaiting (map (\<lambda>p. (p, None)) jobs))\<rparr>))
      | Some pc \<Rightarrow> None)"
| "shop_move (EvGo k n i) s =
     (case sh_shutdowns s k of
        Some (ShutWaiting ps) \<Rightarrow>
          if n < length ps \<and> snd (ps ! n) = None then
            map_option (\<lambda>j. (set_job (fst (ps ! n)) j s)
                \<lparr>sh_shutdowns := (sh_shutdowns s)(k \<mapsto> ShutWaiting (ps[n := (fst (ps ! n), Some i)]))\<rparr>)
              (job_step (CallStop i) (sh_jobs s ! fst (ps ! n)))
          else None
      | _ \<Rightarrow> None)"
| "shop_move (EvWait k) s =
     (case sh_shutdowns s k of
        Some (ShutWaiting ps) \<Rightarrow>
          if list_all (stop_returned (sh_jobs s)) ps
          then Some (s\<lparr>sh_shutdowns := (sh_shutdowns s)(k \<mapsto> ShutReturned)\<rparr>)
          else None
      | _ \<Rightarrow> None)"

definition shop_step :: "shop_event \<Rightarrow> shop \<Rightarrow> shop option" where
  "shop_step e s = (if live_jobs (sh_jobs s) then shop_move e s else None)"

definition open_shop :: "logger option \<Rightarrow> shop" where
  "open_shop lg = \<lparr>sh_store = New_registry lg, sh_shutdowns = Map.empty\<rparr>"

abbreviation shop_run :: "shop_event list \<Rightarrow> shop \<Rightarrow> shop option" where
  "shop_run \<equiv> run_events shop_step"

section \<open>The invariant\<close>

definition shut_inv :: "shop \<Rightarrow> shutdown_pc \<Rightarrow> bool" where
  "shut_inv s pc \<longleftrightarrow> \<not> reg_isAcceptingJobs (sh_registry s) \<and>
     (case pc of
        ShutWaiting ps \<Rightarrow> fst ` set ps = {..<length (sh_jobs s)}
          \<and> (\<forall>p i. (p, Some i) \<in> set ps \<longrightarrow> js_stops (sh_jobs s ! p) i \<noteq> None)
      | ShutReturned \<Rightarrow> (\<forall>p<length (sh_jobs s). job_status (js_job (sh_jobs s ! p)) \<noteq> StatusRunning))"

definition shop_inv :: "shop \<Rightarrow> bool" where
  "shop_inv s \<longleftrightarrow> store_inv (sh_store s)
     \<and> (\<forall>p<length (sh_jobs s). finite (dom (js_stops (sh_jobs s ! p))))
     \<and> (\<forall>k pc. sh_shutdowns s k = Some pc \<longrightarrow> shut_inv s pc)"

lemma open_shop_inv: "shop_inv (open_shop lg)"
  by (simp add: shop_inv_def open_shop_def New_registry_inv) (simp add: New_registry_def)

lemma snapshot_jobs:
  assumes "store_inv s"
  shows "set (snd (Shutdown_snapshot (st_registry s))) = {..<length (st_jobs s)}"
proof -
  let ?recs = "reg_records (st_registry s)"
  have d: "distinct (map fst ?recs)" using assms by (simp add: store_inv_def)
  have key: "map_of (rec_jobs rec) jobID = Some p \<longleftrightarrow> (jobID, p) \<in> set (rec_jobs rec)"
    if "map_of ?recs a = Some rec" for a rec jobID p
    using assms that by (auto simp: store_inv_def rec_inv_def map_of_eq_Some_iff)
  have "p \<in> set (snd (Shutdown_snapshot (st_registry s))) \<longleftrightarrow>
      (\<exists>a jobID. Find a jobID (st_registry s) = Some p)" for p
  proof
    assume "p \<in> set (snd (Shutdown_snapshot (st_registry s)))"
    then obtain a rec jobID where "(a, rec) \<in> set ?recs" "(jobID, p) \<in> set (rec_jobs rec)"
      by (auto simp: Shutdown_snapshot_def allJobs_def)
    with d key have "Find a jobID (st_registry s) = Some p"
      by (auto simp: Find_def record_find_def map_of_eq_Some_iff)
    then show "\<exists>a jobID. Find a jobID (st_registry s) = Some p" by blast
  next
    assume "\<exists>a jobID. Find a jobID (st_registry s) = Some p"
    then obtain a jobID rec where "map_of ?recs a = Some rec" "map_of (rec_jobs rec) jobID = Some p"
      by (auto simp: Find_def record_find_def split: option.splits)
    then have "(a, rec) \<in> set ?recs" "(jobID, p) \<in> set (rec_jobs rec)" using map_of_SomeD by fast+
    then show "p \<in> set (snd (Shutdown_snapshot (st_registry s)))"
      by (force simp: Shutdown_snapshot_def allJobs_def)
  qed
  moreover have "(\<exists>a jobID. Find a jobID (st_registry s) = Some p) \<longleftrightarrow> p < length (st_jobs s)" for p
    using assms Find_Some unfolding store_inv_def by blast
  ultimately show ?thesis by blast
qed

text \<open>A job that moves under the registry.\<close>

lemma store_inv_job:
  assumes inv: "store_inv s" and p: "p < length (st_jobs s)" and j: "sys_inv j"
    "job_ID (js_job j) = job_ID (js_job (st_jobs s ! p))"
  shows "store_inv (s\<lparr>st_jobs := (st_jobs s)[p := j]\<rparr>)"
proof -
  have "job_ID (js_job ((st_jobs s)[p := j] ! q)) = job_ID (js_job (st_jobs s ! q))" for q
    using j(2) p by (cases "q = p") auto
  then have "rec_inv ((st_jobs s)[p := j]) a rec" if "rec_inv (st_jobs s) a rec" for a rec
    using that by (simp add: rec_inv_def)
  moreover have "sys_inv ((st_jobs s)[p := j] ! q)" if "q < length (st_jobs s)" for q
    using inv j(1) that by (cases "q = p") (auto simp: store_inv_def)
  ultimately show ?thesis using inv by (simp add: store_inv_def)
qed

text \<open>What one job's step keeps for a shutdown that waits for it.\<close>

definition job_moves :: "job_sys \<Rightarrow> job_sys \<Rightarrow> bool" where
  "job_moves j j' \<longleftrightarrow> sys_inv j' \<and> job_ID (js_job j') = job_ID (js_job j)
     \<and> (job_status (js_job j) \<noteq> StatusRunning \<longrightarrow> job_status (js_job j') = job_status (js_job j))
     \<and> (\<forall>i. js_stops j i \<noteq> None \<longrightarrow> js_stops j' i \<noteq> None)
     \<and> (finite (dom (js_stops j)) \<longrightarrow> finite (dom (js_stops j')))"

lemma job_step_moves:
  assumes "sys_inv j" and "job_step e j = Some j'"
  shows "job_moves j j'"
  using job_step_inv [OF assms] stop_called_step [OF assms(2)] finite_stops_step [OF assms(2)]
  unfolding job_moves_def evolves_def by blast

lemma shut_inv_set_job:
  assumes "shut_inv s pc" and "job_moves (sh_jobs s ! p) j" and "p < length (sh_jobs s)"
  shows "shut_inv (set_job p j s) pc"
proof -
  have st: "job_status (js_job ((sh_jobs s)[p := j] ! q)) \<noteq> StatusRunning"
    if "job_status (js_job (sh_jobs s ! q)) \<noteq> StatusRunning" for q
    using that assms(2,3) by (cases "q = p") (auto simp: job_moves_def)
  have call: "js_stops ((sh_jobs s)[p := j] ! q) i \<noteq> None" if "js_stops (sh_jobs s ! q) i \<noteq> None" for q i
    using that assms(2,3) by (cases "q = p") (auto simp: job_moves_def)
  show ?thesis
    using assms(1) st call by (cases pc) (auto simp: shut_inv_def set_job_def)
qed

lemma set_job_inv:
  assumes inv: "shop_inv s" and p: "p < length (sh_jobs s)" and mv: "job_moves (sh_jobs s ! p) j"
  shows "shop_inv (set_job p j s)"
proof -
  have "store_inv ((sh_store s)\<lparr>st_jobs := (sh_jobs s)[p := j]\<rparr>)"
    by (rule store_inv_job) (use inv p mv in \<open>auto simp: shop_inv_def job_moves_def\<close>)
  moreover have "finite (dom (js_stops ((sh_jobs s)[p := j] ! q)))" if "q < length (sh_jobs s)" for q
    using inv mv p that by (cases "q = p") (auto simp: shop_inv_def job_moves_def)
  moreover have "shut_inv (set_job p j s) pc" if "sh_shutdowns s k = Some pc" for k pc
    using inv shut_inv_set_job [OF _ mv p] that by (auto simp: shop_inv_def)
  ultimately show ?thesis by (simp add: shop_inv_def set_job_def)
qed

lemma returned_status:
  assumes "shop_inv s" and "p < length (sh_jobs s)" and "stop_returned (sh_jobs s) (p, oi)"
  shows "job_status (js_job (sh_jobs s ! p)) \<noteq> StatusRunning"
proof -
  obtain i st where i: "js_stops (sh_jobs s ! p) i = Some (StopReturned st)"
    using assms(3) by (cases oi) (auto split: option.splits stop_pc.splits)
  have "sys_inv (sh_jobs s ! p)" using assms(1,2) by (simp add: shop_inv_def store_inv_def)
  from sys_invD(3) [OF this i] show ?thesis by (auto simp: stop_inv_def)
qed

lemma create_inv:
  assumes inv: "shop_inv s" and step: "shop_move (EvCreate ctxErr now a count) s = Some s'"
  shows "shop_inv s'"
proof -
  obtain t r where t: "Create ctxErr now a count (sh_store s) = (t, r)" by force
  have st: "store_inv (sh_store s)" using inv by (simp add: shop_inv_def)
  show ?thesis
  proof (cases r)
    case (Inl err)
    with t Create_fails [of ctxErr now a count] have "t = sh_store s" by auto
    with step t inv show ?thesis by (simp add: shop_inv_def shut_inv_def)
  next
    case (Inr jobID)
    note created = t [unfolded Inr]
    from created have acc: "reg_isAcceptingJobs (sh_registry s)" by (rule Create_ok [OF st])
    then have none: "sh_shutdowns s k = None" for k
      using inv by (cases "sh_shutdowns s k") (auto simp: shop_inv_def shut_inv_def)
    obtain job where job: "st_jobs t = sh_jobs s @ [job]" "js_stops job = Map.empty"
      using created by (cases rule: Create_cases) (auto dest: NewJob_stops)
    have "finite (dom (js_stops (st_jobs t ! p)))" if "p < length (st_jobs t)" for p
      using that inv job by (auto simp: shop_inv_def nth_append less_Suc_eq)
    with Create_keeps [OF st t] step t none show ?thesis by (auto simp: shop_inv_def)
  qed
qed

lemma shutdown_inv:
  assumes inv: "shop_inv s" and step: "shop_move (EvShutdown k) s = Some s'"
  shows "shop_inv s'"
proof -
  have st: "store_inv (sh_store s)" using inv by (simp add: shop_inv_def)
  let ?r = "fst (Shutdown_snapshot (sh_registry s))" and ?ps = "snd (Shutdown_snapshot (sh_registry s))"
  have s': "s' = s\<lparr>sh_store := (sh_store s)\<lparr>st_registry := ?r\<rparr>,
      sh_shutdowns := (sh_shutdowns s)(k \<mapsto> ShutWaiting (map (\<lambda>p. (p, None)) ?ps))\<rparr>"
    using step by (auto split: option.splits prod.splits)
  have r: "?r = (sh_registry s)\<lparr>reg_isAcceptingJobs := False\<rparr>" by (simp add: Shutdown_snapshot_def)
  have find: "Find a jobID ?r = Find a jobID (sh_registry s)" for a jobID by (simp add: r Find_def)
  have "store_inv (sh_store s')" using st by (simp add: s' store_inv_def find) (simp add: r)
  moreover have "fst ` set (map (\<lambda>p. (p, None :: nat option)) ?ps) = {..<length (sh_jobs s)}"
    using snapshot_jobs [OF st] by (simp add: image_image)
  then have "shut_inv s' (ShutWaiting (map (\<lambda>p. (p, None)) ?ps))"
    by (auto simp: shut_inv_def s' r)
  moreover have "shut_inv s' pc" if "sh_shutdowns s l = Some pc" for l pc
    using inv that by (auto simp: shop_inv_def shut_inv_def s' r split: shutdown_pc.splits)
  ultimately show ?thesis using inv by (auto simp: shop_inv_def s')
qed

lemma go_inv:
  assumes inv: "shop_inv s" and step: "shop_move (EvGo k n i) s = Some s'"
  shows "shop_inv s'"
proof -
  obtain ps where ps: "sh_shutdowns s k = Some (ShutWaiting ps)"
    using step by (auto split: option.splits shutdown_pc.splits)
  define p where "p = fst (ps ! n)"
  obtain j where n: "n < length ps" and j: "job_step (CallStop i) (sh_jobs s ! p) = Some j"
    and s': "s' = (set_job p j s)\<lparr>sh_shutdowns := (sh_shutdowns s)(k \<mapsto> ShutWaiting (ps[n := (p, Some i)]))\<rparr>"
    using step ps by (auto simp: p_def split: if_splits)
  have shut: "shut_inv s (ShutWaiting ps)" using inv ps by (simp add: shop_inv_def)
  moreover have "p \<in> fst ` set ps" using n by (simp add: p_def)
  ultimately have p: "p < length (sh_jobs s)" by (auto simp: shut_inv_def)
  have sys: "sys_inv (sh_jobs s ! p)" using inv p by (simp add: shop_inv_def store_inv_def)
  note mv = job_step_moves [OF sys j]
  have inv': "shop_inv (set_job p j s)" by (rule set_job_inv [OF inv p mv])
  have "js_stops j i \<noteq> None" using j by (auto simp: job_step_def split: if_splits option.splits)
  moreover have "shut_inv (set_job p j s) (ShutWaiting ps)" by (rule shut_inv_set_job [OF shut mv p])
  moreover have "set (ps[n := (p, Some i)]) \<subseteq> insert (p, Some i) (set ps)" by (rule set_update_subset_insert)
  moreover have "fst ` set (ps[n := (p, Some i)]) = fst ` set ps"
  proof -
    have "map fst (ps[n := (p, Some i)]) = map fst ps" using n by (simp add: map_update p_def list_update_same_conv)
    then show ?thesis by (metis set_map)
  qed
  ultimately have "shut_inv s' (ShutWaiting (ps[n := (p, Some i)]))"
    using p by (auto simp: shut_inv_def s' set_job_def)
  moreover have "shut_inv s' pc" if "sh_shutdowns s l = Some pc" for l pc
    using inv' that by (auto simp: shop_inv_def shut_inv_def s' set_job_def split: shutdown_pc.splits)
  ultimately show ?thesis using inv' by (auto simp: shop_inv_def s' set_job_def)
qed

lemma wait_inv:
  assumes inv: "shop_inv s" and step: "shop_move (EvWait k) s = Some s'"
  shows "shop_inv s'"
proof -
  obtain ps where ps: "sh_shutdowns s k = Some (ShutWaiting ps)"
    "list_all (stop_returned (sh_jobs s)) ps" "s' = s\<lparr>sh_shutdowns := (sh_shutdowns s)(k \<mapsto> ShutReturned)\<rparr>"
    using step by (auto split: option.splits shutdown_pc.splits if_splits)
  have shut: "shut_inv s (ShutWaiting ps)" using inv ps(1) by (simp add: shop_inv_def)
  have "job_status (js_job (sh_jobs s ! p)) \<noteq> StatusRunning" if "p < length (sh_jobs s)" for p
  proof -
    have "p \<in> fst ` set ps" using shut that by (simp add: shut_inv_def)
    then obtain oi where "(p, oi) \<in> set ps" by auto
    with ps(2) returned_status [OF inv that] show ?thesis by (auto simp: list_all_iff)
  qed
  with shut have "shut_inv s' ShutReturned" by (auto simp: shut_inv_def ps(3))
  moreover have "shut_inv s' pc" if "sh_shutdowns s l = Some pc" for l pc
    using inv that by (auto simp: shop_inv_def shut_inv_def ps(3) split: shutdown_pc.splits)
  ultimately show ?thesis using inv by (auto simp: shop_inv_def ps(3))
qed

lemma job_event_inv:
  assumes inv: "shop_inv s" and step: "shop_move (EvJob p je) s = Some s'"
  shows "shop_inv s'"
proof -
  from step obtain j where p: "p < length (sh_jobs s)" and j: "job_step je (sh_jobs s ! p) = Some j"
    "s' = set_job p j s" by (auto split: if_splits)
  have "sys_inv (sh_jobs s ! p)" using inv p by (simp add: shop_inv_def store_inv_def)
  from set_job_inv [OF inv p job_step_moves [OF this j(1)]] j(2) show ?thesis by simp
qed

lemma shop_move_inv: "shop_inv s \<Longrightarrow> shop_move e s = Some s' \<Longrightarrow> shop_inv s'"
  by (cases e; hypsubst; erule (1) create_inv job_event_inv shutdown_inv go_inv wait_inv)

section \<open>How a registry moves on\<close>

text \<open>
  Lookups and jobs are kept, every job only moves on, and a registry that refuses jobs does so for
  good.
\<close>

definition shop_evolves :: "shop \<Rightarrow> shop \<Rightarrow> bool" where
  "shop_evolves s t \<longleftrightarrow>
     (\<not> reg_isAcceptingJobs (sh_registry s) \<longrightarrow>
        \<not> reg_isAcceptingJobs (sh_registry t) \<and> length (sh_jobs t) = length (sh_jobs s))
     \<and> length (sh_jobs s) \<le> length (sh_jobs t)
     \<and> (\<forall>a jobID p. Find a jobID (sh_registry s) = Some p \<longrightarrow> Find a jobID (sh_registry t) = Some p)
     \<and> (\<forall>p<length (sh_jobs s). evolves (js_job (sh_jobs s ! p)) (js_job (sh_jobs t ! p)))"

lemma shop_evolves_refl: "shop_evolves s s"
  by (simp add: shop_evolves_def evolves_refl)

lemma shop_evolves_trans:
  assumes "shop_evolves s t" and "shop_evolves t u"
  shows "shop_evolves s u"
proof -
  have "evolves (js_job (sh_jobs s ! p)) (js_job (sh_jobs u ! p))" if "p < length (sh_jobs s)" for p
    using assms that evolves_trans [of "js_job (sh_jobs s ! p)" "js_job (sh_jobs t ! p)"]
    unfolding shop_evolves_def by (meson less_le_trans)
  with assms show ?thesis unfolding shop_evolves_def by auto
qed

lemma set_job_evolves:
  assumes "p < length (sh_jobs s)" and "evolves (js_job (sh_jobs s ! p)) (js_job j)"
  shows "shop_evolves s (set_job p j s)"
proof -
  have "evolves (js_job (sh_jobs s ! q)) (js_job ((sh_jobs s)[p := j] ! q))" for q
    using assms evolves_refl by (cases "q = p") auto
  then show ?thesis by (simp add: shop_evolves_def set_job_def)
qed

lemma Create_evolves:
  assumes "store_inv (sh_store s)"
  shows "shop_evolves s (s\<lparr>sh_store := fst (Create ctxErr now a count (sh_store s))\<rparr>)"
proof -
  obtain t r where t: "Create ctxErr now a count (sh_store s) = (t, r)" by force
  show ?thesis
  proof (cases r)
    case (Inl e)
    with t have "t = sh_store s" by (auto dest: Create_fails)
    then show ?thesis by (simp add: t shop_evolves_refl)
  next
    case (Inr jobID)
    show ?thesis
    proof (rule Create_ok [OF assms t [unfolded Inr]])
      fix job k
      assume c: "reg_isAcceptingJobs (sh_registry s)" "st_jobs t = sh_jobs s @ [job]"
        "\<And>b. Find b jobID (sh_registry s) = None"
        "\<And>b i. Find b i (st_registry t) = (if b = a \<and> i = jobID then Some (length (sh_jobs s))
                                   else Find b i (sh_registry s))"
      then show ?thesis by (auto simp: shop_evolves_def t nth_append evolves_refl)
    qed
  qed
qed

lemma shop_move_evolves:
  assumes inv: "shop_inv s" and step: "shop_move e s = Some s'"
  shows "shop_evolves s s'"
proof (cases e)
  case (EvCreate ctxErr now a count)
  with inv step Create_evolves show ?thesis by (auto simp: shop_inv_def)
next
  case (EvJob p je)
  with step obtain j where p: "p < length (sh_jobs s)" and j: "job_step je (sh_jobs s ! p) = Some j"
    "s' = set_job p j s" by (auto split: if_splits)
  have "sys_inv (sh_jobs s ! p)" using inv p by (simp add: shop_inv_def store_inv_def)
  with j p job_step_inv show ?thesis by (auto intro: set_job_evolves)
next
  case (EvShutdown k)
  then obtain r js where "Shutdown_snapshot (sh_registry s) = (r, js)" by force
  then have r: "r = (sh_registry s)\<lparr>reg_isAcceptingJobs := False\<rparr>" by (auto simp: Shutdown_snapshot_def)
  have "Find a i r = Find a i (sh_registry s)" for a i by (simp add: r Find_def)
  with EvShutdown step \<open>Shutdown_snapshot (sh_registry s) = (r, js)\<close> show ?thesis
    by (auto simp: shop_evolves_def evolves_refl r split: option.splits)
next
  case (EvGo k n i)
  then obtain ps where ps: "sh_shutdowns s k = Some (ShutWaiting ps)"
    using step by (auto split: option.splits shutdown_pc.splits)
  define p where "p = fst (ps ! n)"
  obtain j where n: "n < length ps" and j: "job_step (CallStop i) (sh_jobs s ! p) = Some j"
    and s': "s' = (set_job p j s)\<lparr>sh_shutdowns := (sh_shutdowns s)(k \<mapsto> ShutWaiting (ps[n := (p, Some i)]))\<rparr>"
    using EvGo step ps by (auto simp: p_def split: if_splits)
  have "shut_inv s (ShutWaiting ps)" using inv ps by (simp add: shop_inv_def)
  moreover have "p \<in> fst ` set ps" using n by (simp add: p_def)
  ultimately have p: "p < length (sh_jobs s)" by (auto simp: shut_inv_def)
  have "sys_inv (sh_jobs s ! p)" using inv p by (simp add: shop_inv_def store_inv_def)
  then have "shop_evolves s (set_job p j s)" using j p job_step_inv by (auto intro: set_job_evolves)
  then show ?thesis by (simp add: s' shop_evolves_def)
next
  case (EvWait k)
  with step show ?thesis
    by (auto simp: shop_evolves_def evolves_refl split: option.splits shutdown_pc.splits if_splits)
qed

interpretation shop: evolving_steps shop_step shop_inv shop_evolves
proof unfold_locales
  show "shop_inv s'" if "shop_inv s" "shop_step e s = Some s'" for s e s'
    using that shop_move_inv by (auto simp: shop_step_def split: if_splits)
  show "shop_evolves s s" for s by (rule shop_evolves_refl)
  show "shop_evolves s u" if "shop_evolves s t" "shop_evolves t u" for s t u
    using that by (rule shop_evolves_trans)
  show "shop_evolves s s'" if "shop_inv s" "shop_step e s = Some s'" for s e s'
    using that shop_move_evolves by (auto simp: shop_step_def split: if_splits)
qed

section \<open>Shutdown returns\<close>

lemma set_job_same: "set_job p (sh_jobs s ! p) s = s"
  by (cases s; cases "sh_store s") (simp add: set_job_def)

text \<open>Nothing but the goroutines that are there already: no panic, no cancellation, no new call.\<close>

fun shop_goes_on :: "shop_event \<Rightarrow> bool" where
  "shop_goes_on (EvJob p e) \<longleftrightarrow> own_event e"
| "shop_goes_on (EvGo k n i) \<longleftrightarrow> True"
| "shop_goes_on (EvWait k) \<longleftrightarrow> True"
| "shop_goes_on e \<longleftrightarrow> False"

abbreviation shop_comes :: "shop \<Rightarrow> shop \<Rightarrow> bool" where
  "shop_comes \<equiv> comes_to shop_step shop_goes_on"

lemma live_job: "live_jobs jobs \<Longrightarrow> p < length jobs \<Longrightarrow> cd_pc (js_countdown (jobs ! p)) \<noteq> CCrashed"
  by (simp add: live_jobs_def list_all_length)

lemma live_set_job:
  assumes "live_jobs (sh_jobs s)" and "cd_pc (js_countdown j) \<noteq> CCrashed"
  shows "live_jobs (sh_jobs (set_job p j s))"
  using assms by (auto simp: live_jobs_def set_job_def list_all_iff dest!: set_update_subset_insert [THEN subsetD])

interpretation job_in_shop: embedded_steps job_step own_event shop_step shop_goes_on
    "\<lambda>j. cd_pc (js_countdown j) \<noteq> CCrashed" "\<lambda>s. p < length (sh_jobs s) \<and> live_jobs (sh_jobs s)"
    "\<lambda>s. sh_jobs s ! p" "set_job p" for p
proof unfold_locales
  fix e t w
  assume "p < length (sh_jobs w) \<and> live_jobs (sh_jobs w)" and "job_step e (sh_jobs w ! p) = Some t"
    and "own_event e" and "cd_pc (js_countdown t) \<noteq> CCrashed"
  then show "(p < length (sh_jobs (set_job p t w)) \<and> live_jobs (sh_jobs (set_job p t w)))
      \<and> (\<exists>f. shop_goes_on f \<and> shop_step f w = Some (set_job p t w))"
    by (intro conjI exI [of _ "EvJob p e"] live_set_job) (simp_all add: shop_step_def set_job_def)
qed (auto simp: set_job_same job_step_def set_job_def split: if_splits)

text \<open>The goroutine of an entry of the snapshot has called \<open>Stop\<close>, if it had not.\<close>

lemma entry_called:
  assumes inv: "shop_inv s" and live: "live_jobs (sh_jobs s)"
    and ps: "sh_shutdowns s k = Some (ShutWaiting ps)" and n: "n < length ps" and p: "p = fst (ps ! n)"
  obtains i j where "shop_comes s (set_job p j s\<lparr>sh_shutdowns := (sh_shutdowns s)(k \<mapsto>
        ShutWaiting (ps[n := (p, Some i)]))\<rparr>)"
    and "sys_inv j" "cd_pc (js_countdown j) \<noteq> CCrashed" "js_stops j i \<noteq> None"
      "\<forall>i st. js_stops (sh_jobs s ! p) i = Some (StopReturned st) \<longrightarrow> js_stops j i = Some (StopReturned st)"
proof -
  let ?j = "sh_jobs s ! p"
  have "shut_inv s (ShutWaiting ps)" using inv ps by (simp add: shop_inv_def)
  then have pl: "p < length (sh_jobs s)" and called: "\<And>i. (p, Some i) \<in> set ps \<Longrightarrow> js_stops ?j i \<noteq> None"
    using n by (auto simp: shut_inv_def p)
  have sys: "sys_inv ?j" using inv pl by (simp add: shop_inv_def store_inv_def)
  have jl: "cd_pc (js_countdown ?j) \<noteq> CCrashed" by (rule live_job [OF live pl])
  show ?thesis
  proof (cases "snd (ps ! n)")
    case (Some i)
    then have e: "ps ! n = (p, Some i)" by (simp add: p prod_eq_iff)
    then have "js_stops ?j i \<noteq> None" using called n by (metis nth_mem)
    moreover have "(sh_shutdowns s)(k \<mapsto> ShutWaiting (ps[n := (p, Some i)])) = sh_shutdowns s"
      using ps e n by (metis fun_upd_triv list_update_id)
    ultimately show ?thesis
      using that [where j = ?j and i = i] sys jl by (simp add: set_job_same)
  next
    case None
    have "finite (dom (js_stops ?j))" using inv pl by (simp add: shop_inv_def)
    then obtain i where i: "i \<notin> dom (js_stops ?j)" using ex_new_if_finite infinite_UNIV_nat by blast
    then obtain j where j: "job_step (CallStop i) ?j = Some j" using jl
      by (auto simp: job_step_def domIff)
    have "js_stops j i \<noteq> None" "cd_pc (js_countdown j) \<noteq> CCrashed"
      using j by (auto simp: job_step_def split: if_splits option.splits)
    moreover have "sys_inv j" using job_step_inv [OF sys j] by blast
    moreover have "shop_step (EvGo k n i) s = Some (set_job p j s\<lparr>sh_shutdowns := (sh_shutdowns s)(k \<mapsto>
        ShutWaiting (ps[n := (p, Some i)]))\<rparr>)"
      using live ps n None j by (simp add: shop_step_def p)
    then have "shop_comes s (set_job p j s\<lparr>sh_shutdowns := (sh_shutdowns s)(k \<mapsto>
        ShutWaiting (ps[n := (p, Some i)]))\<rparr>)" by (rule comes_step) simp
    ultimately show ?thesis using that [where j = j and i = i] stop_returned_step [OF _ j] by blast
  qed
qed

text \<open>One entry of the snapshot is settled, and the others stay as they are.\<close>

lemma settle_entry:
  assumes inv: "shop_inv s" and live: "live_jobs (sh_jobs s)"
    and ps: "sh_shutdowns s k = Some (ShutWaiting ps)" and n: "n < length ps"
  shows "\<exists>t qs. shop_comes s t \<and> live_jobs (sh_jobs t)
    \<and> sh_shutdowns t k = Some (ShutWaiting qs) \<and> length qs = length ps
    \<and> stop_returned (sh_jobs t) (qs ! n)
    \<and> (\<forall>m<length ps. stop_returned (sh_jobs s) (ps ! m) \<longrightarrow> stop_returned (sh_jobs t) (qs ! m))"
proof -
  define p where "p = fst (ps ! n)"
  let ?j = "sh_jobs s ! p"
  have "shut_inv s (ShutWaiting ps)" using inv ps by (simp add: shop_inv_def)
  then have p: "p < length (sh_jobs s)" using n by (auto simp: shut_inv_def p_def)
  have others: "stop_returned ((sh_jobs s)[p := t]) e"
    if "stop_returned (sh_jobs s) e" and "\<And>i st. js_stops ?j i = Some (StopReturned st) \<Longrightarrow>
      js_stops t i = Some (StopReturned st)" for e t
    using that p by (cases e; cases "snd e"; cases "fst e = p") (auto split: option.splits stop_pc.splits)
  obtain i j where go: "shop_comes s (set_job p j s\<lparr>sh_shutdowns := (sh_shutdowns s)(k \<mapsto>
        ShutWaiting (ps[n := (p, Some i)]))\<rparr>)"
    and j: "sys_inv j" "cd_pc (js_countdown j) \<noteq> CCrashed" "js_stops j i \<noteq> None"
      "\<forall>i st. js_stops ?j i = Some (StopReturned st) \<longrightarrow> js_stops j i = Some (StopReturned st)"
    by (rule entry_called [OF inv live ps n p_def])
  let ?s = "set_job p j s\<lparr>sh_shutdowns := (sh_shutdowns s)(k \<mapsto> ShutWaiting (ps[n := (p, Some i)]))\<rparr>"
  obtain pc where "js_stops j i = Some pc" using j(3) by auto
  from stop_completes [OF j(1,2) this] obtain t where t: "job_comes j t" "cd_pc (js_countdown t) = CDone"
    "js_stops t i = Some (StopReturned (job_status (js_job t)))" by blast
  have "p < length (sh_jobs ?s) \<and> live_jobs (sh_jobs ?s)"
    using p live_set_job [OF live j(2)] by (simp add: set_job_def)
  moreover have "sh_jobs ?s ! p = j" using p by (simp add: set_job_def)
  ultimately have run: "shop_comes ?s (set_job p t ?s)" and livet: "live_jobs (sh_jobs (set_job p t ?s))"
    using job_in_shop.comes_lifts [where w = ?s and p = p and t = t] t(1,2) by auto
  have keep: "js_stops ?j l = Some (StopReturned st) \<Longrightarrow> js_stops t l = Some (StopReturned st)" for l st
    using j(4) stop_returned_comes [OF t(1)] by blast
  have jobs: "sh_jobs (set_job p t ?s) = (sh_jobs s)[p := t]" by (simp add: set_job_def)
  have "stop_returned ((sh_jobs s)[p := t]) (ps[n := (p, Some i)] ! m)"
    if "m < length ps" "m = n \<or> stop_returned (sh_jobs s) (ps ! m)" for m
    using that others [OF _ keep, of "ps ! m"] t(3) p n by (cases "m = n") auto
  moreover have "sh_shutdowns (set_job p t ?s) k = Some (ShutWaiting (ps[n := (p, Some i)]))"
    by (simp add: set_job_def)
  moreover have "js_stops ((sh_jobs s)[p := t] ! p) i = Some (StopReturned (job_status (js_job t)))"
    using t(3) p by simp
  ultimately show ?thesis using comes_trans [OF go run] livet n
    by (intro exI [of _ "set_job p t ?s"] exI [of _ "ps[n := (p, Some i)]"]) (simp add: jobs)
qed

text \<open>Every waiting shutdown can return, without a panic.\<close>

lemma unsettled_less:
  assumes "length qs = length ps" and "n < length ps" and "\<not> P (ps ! n)" and "Q (qs ! n)"
    and "\<And>m. m < length ps \<Longrightarrow> P (ps ! m) \<Longrightarrow> Q (qs ! m)"
  shows "card {m. m < length qs \<and> \<not> Q (qs ! m)} < card {m. m < length ps \<and> \<not> P (ps ! m)}"
proof (rule psubset_card_mono)
  show "{m. m < length qs \<and> \<not> Q (qs ! m)} \<subset> {m. m < length ps \<and> \<not> P (ps ! m)}"
    using assms by auto
qed simp

lemma shutdown_completes:
  assumes "shop_inv s" and "live_jobs (sh_jobs s)" and "sh_shutdowns s k = Some (ShutWaiting ps)"
  shows "\<exists>t. shop_comes s t \<and> live_jobs (sh_jobs t) \<and> sh_shutdowns t k = Some ShutReturned"
  using assms
proof (induction "card {m. m < length ps \<and> \<not> stop_returned (sh_jobs s) (ps ! m)}"
    arbitrary: s ps rule: less_induct)
  case less
  show ?case
  proof (cases "list_all (stop_returned (sh_jobs s)) ps")
    case True
    with less.prems have "shop_step (EvWait k) s = Some (s\<lparr>sh_shutdowns := (sh_shutdowns s)(k \<mapsto> ShutReturned)\<rparr>)"
      by (simp add: shop_step_def)
    then have "shop_comes s (s\<lparr>sh_shutdowns := (sh_shutdowns s)(k \<mapsto> ShutReturned)\<rparr>)" by (rule comes_step) simp
    with less.prems(2) show ?thesis by (intro exI [of _ "s\<lparr>sh_shutdowns := (sh_shutdowns s)(k \<mapsto> ShutReturned)\<rparr>"]) simp
  next
    case False
    then obtain n where n: "n < length ps" "\<not> stop_returned (sh_jobs s) (ps ! n)"
      by (auto simp: list_all_length)
    from settle_entry [OF less.prems n(1)] obtain t qs where t: "shop_comes s t" "live_jobs (sh_jobs t)"
      "sh_shutdowns t k = Some (ShutWaiting qs)" "length qs = length ps" "stop_returned (sh_jobs t) (qs ! n)"
      "\<And>m. m < length ps \<Longrightarrow> stop_returned (sh_jobs s) (ps ! m) \<Longrightarrow> stop_returned (sh_jobs t) (qs ! m)"
      by blast
    note fewer = unsettled_less [where P = "stop_returned (sh_jobs s)" and Q = "stop_returned (sh_jobs t)",
        OF t(4) n t(5,6)]
    from less.hyps [OF fewer shop.reaches_keeps [OF comes_reaches [OF t(1)] less.prems(1)] t(2,3)]
    show ?thesis using comes_trans [OF t(1)] by blast
  qed
qed

section \<open>Properties\<close>

lemma reachable_shop: "reaches shop_step (open_shop lg) w \<Longrightarrow> shop_inv w"
  by (rule shop.reaches_keeps [OF _ open_shop_inv])

lemma Create_outcome:
  assumes "store_inv s"
  shows "case Create ctxErr now a count s of
      (s', Inl e) \<Rightarrow> s' = s
        \<and> (if reg_isAcceptingJobs (st_registry s)
           then errors_is e (SWorker ErrInvalidCount) \<and> (count < 1 \<or> 100 < count)
           else errors_is e (SRegistry ErrNotAcceptingJobs))
    | (s', Inr jobID) \<Rightarrow> reg_isAcceptingJobs (st_registry s) \<and> 1 \<le> count \<and> count \<le> 100
        \<and> (\<exists>k\<ge>0. jobID = a @ ''/'' @ show_int k)
        \<and> (\<forall>b. Find b jobID (st_registry s) = None)
        \<and> (\<forall>b i. Find b i (st_registry s') = (if b = a \<and> i = jobID then Some (length (st_jobs s))
                                              else Find b i (st_registry s)))
        \<and> (\<exists>job. st_jobs s' = st_jobs s @ [job] \<and> Status (js_job job) = StatusRunning
             \<and> job_ID (js_job job) = jobID)"
proof -
  obtain s' r where c: "Create ctxErr now a count s = (s', r)" by force
  show ?thesis
  proof (cases r)
    case (Inl e)
    from c [unfolded Inl] show ?thesis
      by (cases rule: Create_cases) (auto simp: c [unfolded Inl] MaxCount_def)
  next
    case (Inr jobID)
    show ?thesis
      by (rule Create_ok [OF assms c [unfolded Inr]])
         (auto simp: c [unfolded Inr] MaxCount_def Status_def mint_def)
  qed
qed

text \<open>
  C21. Creating a job, in every state a registry can reach. A refusal leaves the registry untouched
  and says why: it accepts no jobs any more, or the count is outside 1 to 100. A creation mints an id
  \<open><agent>/<counter>\<close> that names no job of any agent, registers a running job under it for that agent,
  and changes no other lookup of any agent.
\<close>

theorem registry_Create:
  assumes "reaches shop_step (open_shop lg) w"
  shows "case Create ctxErr now a count (sh_store w) of
      (s', Inl e) \<Rightarrow> s' = sh_store w
        \<and> (if reg_isAcceptingJobs (sh_registry w)
           then errors_is e (SWorker ErrInvalidCount) \<and> (count < 1 \<or> 100 < count)
           else errors_is e (SRegistry ErrNotAcceptingJobs))
    | (s', Inr jobID) \<Rightarrow> reg_isAcceptingJobs (sh_registry w) \<and> 1 \<le> count \<and> count \<le> 100
        \<and> (\<exists>k\<ge>0. jobID = a @ ''/'' @ show_int k)
        \<and> (\<forall>b. Find b jobID (sh_registry w) = None)
        \<and> (\<forall>b i. Find b i (st_registry s') = (if b = a \<and> i = jobID then Some (length (sh_jobs w))
                                              else Find b i (sh_registry w)))
        \<and> (\<exists>job. st_jobs s' = sh_jobs w @ [job] \<and> Status (js_job job) = StatusRunning
             \<and> job_ID (js_job job) = jobID)"
  using Create_outcome reachable_shop [OF assms] by (simp add: shop_inv_def)

definition sample_shop :: shop where
  "sample_shop = the (shop_run [EvCreate None 0 ''ann'' 3, EvCreate None 0 ''bob'' 200,
     EvCreate None 0 ''bob'' 2, EvShutdown 0] (open_shop None))"

lemmas shop_evals = create_evals shop_step_def live_jobs_def open_shop_def Shutdown_snapshot_def allJobs_def

lemma sample_shop_run:
  "shop_run [EvCreate None 0 ''ann'' 3, EvCreate None 0 ''bob'' 200, EvCreate None 0 ''bob'' 2,
     EvShutdown 0] (open_shop None) = Some sample_shop"
  by (simp add: sample_shop_def shop_evals)

lemma sample_shop_facts:
  "sh_shutdowns sample_shop 0 = Some (ShutWaiting [(0, None), (1, None)])"
  "\<not> reg_isAcceptingJobs (sh_registry sample_shop)" "length (sh_jobs sample_shop) = 2"
  "live_jobs (sh_jobs sample_shop)"
  by (simp_all add: sample_shop_def shop_evals)

lemma sample_shop_reaches: "reaches shop_step (open_shop None) sample_shop"
  by (rule reaches_run [OF reaches_start sample_shop_run])

theorem registry_Create_witness:
  "is_ok (snd (Create None 0 ''eve'' 1 (sh_store sample_shop))) = False
   \<and> fst (Create None 0 ''eve'' 1 (sh_store sample_shop)) = sh_store sample_shop"
  using registry_Create [OF sample_shop_reaches, where ctxErr = None and now = 0 and a = "''eve''" and count = 1] sample_shop_facts(2)
  by (auto split: prod.splits sum.splits)

text \<open>
  C22. The jobs of a registry are exactly the ones that were created, each for its owner: after any
  sequence of creations by any agents, the ids handed out are pairwise different, and an agent finds
  a job under an id exactly when that agent was handed that id.
\<close>

theorem registry_owners:
  assumes "create_all (\<lambda>a (ctxErr, now, count). Create ctxErr now a count) cs (New_registry lg) = (s, ks)"
  shows "distinct (map snd ks) \<and> (\<forall>a jobID. Find a jobID (st_registry s) \<noteq> None \<longleftrightarrow> (a, jobID) \<in> set ks)"
proof -
  have "Find a jobID (st_registry (New_registry lg)) = None" for a jobID
    by (simp add: New_registry_def Find_def)
  with owned.create_all_facts [OF New_registry_inv assms] show ?thesis by simp
qed

theorem registry_owners_witness:
  "\<exists>s. create_all (\<lambda>a (ctxErr, now, count). Create ctxErr now a count)
       [(''ann'', (None, 0, 3)), (''bob'', (None, 0, 0)), (''ann'', (None, 0, 5))] (New_registry None)
     = (s, [(''ann'', ''ann/0''), (''ann'', ''ann/1'')])
   \<and> Find ''ann'' ''ann/1'' (st_registry s) \<noteq> None \<and> Find ''bob'' ''ann/1'' (st_registry s) = None"
proof -
  let ?c = "\<lambda>a (ctxErr, now, count). Create ctxErr now a count"
  let ?cs = "[(''ann'', (None, 0, 3)), (''bob'', (None, 0, 0)), (''ann'', (None, 0, 5))]"
  have keys: "snd (create_all ?c ?cs (New_registry None)) = [(''ann'', ''ann/0''), (''ann'', ''ann/1'')]"
    by (simp add: create_evals)
  obtain s where run: "create_all ?c ?cs (New_registry None) = (s, [(''ann'', ''ann/0''), (''ann'', ''ann/1'')])"
    using keys by (metis prod.collapse)
  have f: "Find a jobID (st_registry s) \<noteq> None \<longleftrightarrow> (a, jobID) \<in> set [(''ann'', ''ann/0''), (''ann'', ''ann/1'')]"
    for a jobID using registry_owners [OF run] by blast
  show ?thesis
    by (rule exI [of _ s], intro conjI, rule run) (use f [of "''ann''" "''ann/1''"] f [of "''bob''" "''ann/1''"] in simp_all)
qed

text \<open>
  C20. A shutdown is for good and complete: once one has been called, no later state of the registry
  creates a job, and once one has returned, every job ever created has reached its end, in that state
  and in every later one.
\<close>

theorem Shutdown_ends_every_job:
  assumes "reaches shop_step (open_shop lg) w" and "sh_shutdowns w k = Some pc" and "reaches shop_step w w'"
  shows "fails_with (snd (Create ctxErr now a count (sh_store w'))) (SRegistry ErrNotAcceptingJobs)
    \<and> (pc = ShutReturned \<longrightarrow>
         (\<forall>p<length (sh_jobs w'). Status (js_job (sh_jobs w' ! p)) \<noteq> StatusRunning))"
proof -
  have inv: "shop_inv w" by (rule reachable_shop [OF assms(1)])
  then have shut: "shut_inv w pc" using assms(2) by (simp add: shop_inv_def)
  have ev: "shop_evolves w w'" by (rule shop.reaches_rel [OF assms(3) inv])
  have "\<not> reg_isAcceptingJobs (sh_registry w')" and len: "length (sh_jobs w') = length (sh_jobs w)"
    using ev shut by (auto simp: shop_evolves_def shut_inv_def)
  moreover have "job_status (js_job (sh_jobs w' ! p)) \<noteq> StatusRunning"
    if "pc = ShutReturned" "p < length (sh_jobs w)" for p
    using ev shut that unfolding shop_evolves_def shut_inv_def evolves_def by auto
  ultimately show ?thesis by (simp add: Create_def Status_def)
qed

theorem Shutdown_ends_every_job_witness:
  "fails_with (snd (Create None 0 ''ann'' 1 (sh_store sample_shop))) (SRegistry ErrNotAcceptingJobs)"
  using Shutdown_ends_every_job [OF sample_shop_reaches sample_shop_facts(1) reaches_start] by blast

text \<open>
  A shutdown returns: from any reachable state in which one waits, unless the process has crashed,
  the jobs and the calls of \<open>Stop\<close> that it makes come by themselves to a state in which it has returned,
  without a panic, a cancellation from outside or any further call.
\<close>

lemma Shutdown_returns:
  assumes "reaches shop_step (open_shop lg) w" and "live_jobs (sh_jobs w)"
    and "sh_shutdowns w k = Some (ShutWaiting ps)"
  shows "\<exists>w'. shop_comes w w' \<and> sh_shutdowns w' k = Some ShutReturned"
  using shutdown_completes [OF reachable_shop [OF assms(1)] assms(2,3)] by blast

end
