(* ===== verification/Wire.thy ===== *)
theory Wire
  imports Registry_Shutdown
begin

text \<open>
  What travels between client and server: the method names, requests and replies of
  \<open>proto/fizzled/v1/fizzled.proto\<close> as the code generated from it presents them. A protobuf enum is
  open, so a status may be a number the program has no name for. How \<open>durationpb\<close> splits a duration
  is a parameter of the conversions that use it.
\<close>

section \<open>Methods\<close>

definition FizzledService_Start_FullMethodName :: string where
  "FizzledService_Start_FullMethodName = ''/fizzled.v1.FizzledService/Start''"

definition FizzledService_Stop_FullMethodName :: string where
  "FizzledService_Stop_FullMethodName = ''/fizzled.v1.FizzledService/Stop''"

definition FizzledService_GetStatus_FullMethodName :: string where
  "FizzledService_GetStatus_FullMethodName = ''/fizzled.v1.FizzledService/GetStatus''"

definition FizzledService_StreamOutput_FullMethodName :: string where
  "FizzledService_StreamOutput_FullMethodName = ''/fizzled.v1.FizzledService/StreamOutput''"

lemmas method_names = FizzledService_Start_FullMethodName_def FizzledService_Stop_FullMethodName_def
  FizzledService_GetStatus_FullMethodName_def FizzledService_StreamOutput_FullMethodName_def

section \<open>Messages\<close>

datatype rpc_request =
    StartRequest "32 word"
  | StopRequest string
  | GetStatusRequest string
  | StreamOutputRequest string

datatype wire_status =
    STATUS_UNSPECIFIED
  | STATUS_RUNNING
  | STATUS_COMPLETED
  | STATUS_STOPPED
  | STATUS_FAILED
  | STATUS_OTHER int

datatype unary_response =
    StartResponse string
  | StopResponse wire_status
  | GetStatusResponse wire_status

record wire_duration =
  wire_seconds :: int
  wire_nanos :: int

datatype tick_kind =
    Tick_Progress wire_duration "32 word"
  | Tick_Stopped
  | Tick_Failure string

text \<open>A tick message whose kind is not set is \<open>None\<close>.\<close>

type_synonym wire_tick = "tick_kind option"

section \<open>Fixed messages\<close>

definition internalErrorMessage :: string where
  "internalErrorMessage = ''internal error''"

definition unexpectedErrorMessage :: string where
  "unexpectedErrorMessage = ''unexpected error''"

end
