(* ===== verification/Interceptor.thy ===== *)
theory Interceptor
  imports Authenticator Authz Wire
begin

text \<open>
  \<open>internal/server/interceptor.go\<close>: what stands between an RPC and its handler. A context is the part
  of it the code reads: the peer, and the agent id a handler gets. A handler takes the agent, changes
  a state of any type, logs, and returns or panics; the stack trace of a panic is a parameter.
\<close>

section \<open>Methods and requests\<close>

definition actionFor :: "string \<Rightarrow> action option" where
  "actionFor fullMethod =
     (if fullMethod = FizzledService_Start_FullMethodName then Some ActionStart
      else if fullMethod = FizzledService_Stop_FullMethodName then Some ActionStop
      else if fullMethod = FizzledService_GetStatus_FullMethodName then Some ActionGetStatus
      else if fullMethod = FizzledService_StreamOutput_FullMethodName then Some ActionStreamOutput
      else None)"

text \<open>\<open>GetJobId\<close> of the requests that satisfy \<open>jobIDCarrier\<close>.\<close>

definition jobIDCarrier :: "rpc_request \<Rightarrow> string option" where [simp]:
  "jobIDCarrier request =
     (case request of
        StartRequest count \<Rightarrow> None
      | StopRequest jobID \<Rightarrow> Some jobID
      | GetStatusRequest jobID \<Rightarrow> Some jobID
      | StreamOutputRequest jobID \<Rightarrow> Some jobID)"

definition targetJobID :: "rpc_request \<Rightarrow> string" where
  "targetJobID request =
     (case jobIDCarrier request of None \<Rightarrow> '''' | Some jobID \<Rightarrow> jobID)"

section \<open>The interceptor\<close>

record interceptor =
  ic_authenticator :: authenticator
  ic_authorizer :: authorizer
  ic_logger :: logger

definition NewInterceptor :: "authenticator \<Rightarrow> authorizer \<Rightarrow> logger option \<Rightarrow> interceptor" where
  "NewInterceptor authenticator authorizer lg =
     \<lparr>ic_authenticator = authenticator, ic_authorizer = authorizer, ic_logger = OrDiscard lg\<rparr>"

text \<open>
  \<open>peerInfo.AuthInfo\<close>: the state of a TLS connection, or something else, by its rendering. \<open>None\<close> is
  a context without a peer.
\<close>

datatype auth_info = TLSInfo connection_state | OtherAuthInfo string

type_synonym rpc_peer = "auth_info option"

definition ic_authenticate :: "externals \<Rightarrow> int \<Rightarrow> interceptor \<Rightarrow> rpc_peer
    \<Rightarrow> log_record list \<times> agent_id result" where
  "ic_authenticate x now ic peer =
     (case peer of
        None \<Rightarrow>
          (log_attrs (ic_logger ic) LevelInfo ''no peer is found'' [],
           Inl (StatusErr CodeUnauthenticated ''no peer''))
      | Some (OtherAuthInfo shown) \<Rightarrow>
          (log_attrs (ic_logger ic) LevelInfo ''connection is not mTLS'' [(''auth_info'', AAny shown)],
           Inl (StatusErr CodeUnauthenticated ''connection is not mTLS''))
      | Some (TLSInfo state) \<Rightarrow>
          (case Authenticate x now (ic_authenticator ic) state of
             Inl err \<Rightarrow> ([], Inl (StatusErr CodeUnauthenticated ''unauthenticated''))
           | Inr agentID \<Rightarrow> ([], Inr agentID)))"

definition auditDecision :: "interceptor \<Rightarrow> agent_id \<Rightarrow> action \<Rightarrow> string \<Rightarrow> string \<Rightarrow> attrs
    \<Rightarrow> log_record list" where
  "auditDecision ic agentID act jobID decision extra =
     log_attrs (ic_logger ic) LevelInfo ''authorization decision''
       ([(''agent_id'', AStr agentID), (''action'', AStr act), (''decision'', AStr decision)]
        @ (if jobID \<noteq> '''' then [(''job_id'', AStr jobID)] else [])
        @ extra)"

text \<open>What a handler reads of its context: the agent id, and whether there is one.\<close>

definition agentIDFrom :: "agent_id option \<Rightarrow> agent_id \<times> bool" where [simp]:
  "agentIDFrom ctx = (case ctx of None \<Rightarrow> ('''', False) | Some agentID \<Rightarrow> (agentID, True))"

text \<open>The context an allowed RPC goes on with carries the agent.\<close>

definition authorize :: "externals \<Rightarrow> int \<Rightarrow> interceptor \<Rightarrow> rpc_peer \<Rightarrow> string \<Rightarrow> string
    \<Rightarrow> log_record list \<times> agent_id result" where
  "authorize x now ic peer fullMethod jobID =
     (case actionFor fullMethod of
        None \<Rightarrow>
          (log_attrs (ic_logger ic) LevelError ''no action is mapped to the method''
             [(''method'', AStr fullMethod)],
           Inl (StatusErr CodeInternal internalErrorMessage))
      | Some act \<Rightarrow>
          (case ic_authenticate x now ic peer of
             (logged, Inl err) \<Rightarrow> (logged, Inl err)
           | (logged, Inr agentID) \<Rightarrow>
               (case Authorize (ic_authorizer ic) agentID act of
                  Inl err \<Rightarrow>
                    (logged @ auditDecision ic agentID act jobID ''deny'' [(''reason'', AErr err)],
                     Inl (StatusErr CodePermissionDenied ''permission denied''))
                | Inr _ \<Rightarrow> (logged @ auditDecision ic agentID act jobID ''allow'' [], Inr agentID))))"

text \<open>A panic of what runs under the guard becomes an error of the RPC.\<close>

primrec panic_attr :: "panic_value \<Rightarrow> attr_value" where
  "panic_attr (PanicErr e) = AErr e"
| "panic_attr (PanicVal shown) = AAny shown"

definition guard :: "interceptor \<Rightarrow> string \<Rightarrow> string \<Rightarrow> 's \<times> log_record list \<times> 'a result outcome
    \<Rightarrow> 's \<times> log_record list \<times> 'a result" where
  "guard ic stack fullMethod run =
     (case run of
        (s, logged, Returned r) \<Rightarrow> (s, logged, r)
      | (s, logged, Panicked recovered) \<Rightarrow>
          (s, logged @ log_attrs (ic_logger ic) LevelError ''panic in handler''
                [(''method'', AStr fullMethod), (''panic'', panic_attr recovered), (''stack'', AStr stack)],
           Inl (StatusErr CodeInternal internalErrorMessage)))"

type_synonym ('s, 'a) handler = "agent_id \<Rightarrow> 's \<Rightarrow> 's \<times> log_record list \<times> 'a result outcome"

definition intercept :: "externals \<Rightarrow> int \<Rightarrow> string \<Rightarrow> interceptor \<Rightarrow> rpc_peer \<Rightarrow> string \<Rightarrow> string
    \<Rightarrow> ('s, 'a) handler \<Rightarrow> 's \<Rightarrow> 's \<times> log_record list \<times> 'a result" where
  "intercept x now stack ic peer fullMethod jobID handler s =
     guard ic stack fullMethod
       (case authorize x now ic peer fullMethod jobID of
          (logged, Inl err) \<Rightarrow> (s, logged, Returned (Inl err))
        | (logged, Inr agentID) \<Rightarrow>
            (case handler agentID s of (s', logged', out) \<Rightarrow> (s', logged @ logged', out)))"

definition Unary :: "externals \<Rightarrow> int \<Rightarrow> string \<Rightarrow> interceptor \<Rightarrow> rpc_peer \<Rightarrow> string \<Rightarrow> rpc_request
    \<Rightarrow> ('s, 'a) handler \<Rightarrow> 's \<Rightarrow> 's \<times> log_record list \<times> 'a result" where
  "Unary x now stack ic peer fullMethod request handler s =
     intercept x now stack ic peer fullMethod (targetJobID request) handler s"

text \<open>
  A stream is authorized when it opens, before its request is read, so without a job id. Its handler gets
  a stream whose context is the one with the agent.
\<close>

record authenticatedStream =
  as_ctx :: agent_id

definition Context :: "authenticatedStream \<Rightarrow> agent_id" where [simp]: "Context s = as_ctx s"

definition Stream :: "externals \<Rightarrow> int \<Rightarrow> string \<Rightarrow> interceptor \<Rightarrow> rpc_peer \<Rightarrow> string
    \<Rightarrow> ('s, 'a) handler \<Rightarrow> 's \<Rightarrow> 's \<times> log_record list \<times> 'a result" where
  "Stream x now stack ic peer fullMethod handler s =
     intercept x now stack ic peer fullMethod ''''
       (\<lambda>authorized. handler (Context \<lparr>as_ctx = authorized\<rparr>)) s"

section \<open>Lemmas\<close>

text \<open>Who may do what behind a connection, and what an RPC that may not is told.\<close>

definition allowed :: "externals \<Rightarrow> int \<Rightarrow> interceptor \<Rightarrow> rpc_peer \<Rightarrow> action \<Rightarrow> agent_id \<Rightarrow> bool" where
  "allowed x now ic peer act agent \<longleftrightarrow>
     (\<exists>state. peer = Some (TLSInfo state)
        \<and> Authenticate x now (ic_authenticator ic) state = Inr agent
        \<and> Authorize (ic_authorizer ic) agent act = Inr ())"

lemma authorize_ok:
  "authorize x now ic peer fullMethod jobID = (logged, Inr agent) \<Longrightarrow>
     \<exists>act. actionFor fullMethod = Some act \<and> allowed x now ic peer act agent
       \<and> logged = auditDecision ic agent act jobID ''allow'' []"
  by (auto simp: authorize_def ic_authenticate_def allowed_def
      split: option.splits sum.splits auth_info.splits prod.splits)

lemma authorize_complete:
  "actionFor fullMethod = Some act \<Longrightarrow> allowed x now ic peer act agent \<Longrightarrow>
     authorize x now ic peer fullMethod jobID = (auditDecision ic agent act jobID ''allow'' [], Inr agent)"
  by (auto simp: authorize_def ic_authenticate_def allowed_def)

lemma authorize_refusal:
  "authorize x now ic peer fullMethod jobID = (logged, Inl e) \<Longrightarrow>
     (\<forall>act agent. actionFor fullMethod = Some act \<longrightarrow> \<not> allowed x now ic peer act agent)
     \<and> (e = StatusErr CodeInternal ''internal error'' \<and> actionFor fullMethod = None
        \<or> (\<exists>m. e = StatusErr CodeUnauthenticated m)
             \<and> (\<forall>state. peer = Some (TLSInfo state) \<longrightarrow> \<not> is_ok (Authenticate x now (ic_authenticator ic) state))
        \<or> e = StatusErr CodePermissionDenied ''permission denied''
             \<and> (\<exists>state. peer = Some (TLSInfo state) \<and> is_ok (Authenticate x now (ic_authenticator ic) state)))"
  by (auto simp: authorize_def ic_authenticate_def allowed_def internalErrorMessage_def
      split: option.splits sum.splits auth_info.splits prod.splits)

text \<open>The agent whose call of an action behind a connection is allowed, if any.\<close>

definition caller :: "externals \<Rightarrow> int \<Rightarrow> interceptor \<Rightarrow> rpc_peer \<Rightarrow> action \<Rightarrow> agent_id option" where
  "caller x now ic peer act =
     (case peer of
        Some (TLSInfo state) \<Rightarrow>
          (case Authenticate x now (ic_authenticator ic) state of
             Inl e \<Rightarrow> None
           | Inr agent \<Rightarrow> (if is_ok (Authorize (ic_authorizer ic) agent act) then Some agent else None))
      | _ \<Rightarrow> None)"

lemma caller_allowed: "caller x now ic peer act = Some agent \<longleftrightarrow> allowed x now ic peer act agent"
  by (auto simp: caller_def allowed_def is_ok_conv split: option.splits auth_info.splits sum.splits)

lemma caller_chain:
  "caller x now ic peer act = Some agent \<longleftrightarrow>
     (\<exists>state c cs. peer = Some (TLSInfo state) \<and> PeerCertificates state = Some c # map Some cs
        \<and> valid_agent_id agent
        \<and> accepted_chain x now (ic_authenticator ic) (agent_uri agent) c cs
        \<and> map_of (roles (ic_authorizer ic)) agent = Some RoleUser
        \<and> act \<in> {ActionStart, ActionStop, ActionGetStatus, ActionStreamOutput})"
  unfolding caller_allowed allowed_def Authenticate_chain Authorize_ok by blast

definition refusal_code :: "externals \<Rightarrow> int \<Rightarrow> interceptor \<Rightarrow> rpc_peer \<Rightarrow> string \<Rightarrow> grpc_code" where
  "refusal_code x now ic peer fullMethod =
     (if actionFor fullMethod = None then CodeInternal
      else (case peer of
              Some (TLSInfo state) \<Rightarrow>
                if is_ok (Authenticate x now (ic_authenticator ic) state) then CodePermissionDenied
                else CodeUnauthenticated
            | _ \<Rightarrow> CodeUnauthenticated))"

lemma authorize_none:
  assumes "Option.bind (actionFor fullMethod) (caller x now ic peer) = None"
  shows "\<exists>l m. authorize x now ic peer fullMethod jobID
    = (l, Inl (StatusErr (refusal_code x now ic peer fullMethod) m))"
  using assms
  by (auto simp: authorize_def ic_authenticate_def caller_def refusal_code_def
      split: option.splits sum.splits auth_info.splits prod.splits if_splits)

lemma authorize_some:
  assumes "Option.bind (actionFor fullMethod) (caller x now ic peer) = Some agent"
  shows "authorize x now ic peer fullMethod jobID
    = (auditDecision ic agent (the (actionFor fullMethod)) jobID ''allow'' [], Inr agent)"
proof -
  obtain act where "actionFor fullMethod = Some act" "allowed x now ic peer act agent"
    using assms by (auto simp: caller_allowed bind_eq_Some_conv)
  with authorize_complete show ?thesis by simp
qed

section \<open>Properties\<close>

text \<open>
  C1. What reaches a handler, end to end. An agent's call of an action is let through exactly when
  the connection is TLS, its peer's chain is accepted under that agent's client identity, the roles
  file gives the agent a role, and the action is one of the four that every method stands for; the handler then runs as that agent, and its result, or Internal
  if it panics, is the RPC's. Any other RPC leaves the service's state as it was, whatever the handler,
  and fails: Internal for a method without an action, else Unauthenticated, else PermissionDenied.
\<close>

theorem RPC_reaches_handler:
  "(caller x now ic peer act = Some agent \<longleftrightarrow>
      (\<exists>state c cs. peer = Some (TLSInfo state) \<and> PeerCertificates state = Some c # map Some cs
         \<and> valid_agent_id agent
         \<and> accepted_chain x now (ic_authenticator ic) (agent_uri agent) c cs
         \<and> map_of (roles (ic_authorizer ic)) agent = Some RoleUser
         \<and> act \<in> {ActionStart, ActionStop, ActionGetStatus, ActionStreamOutput}))
   \<and> set_option (actionFor fullMethod) \<subseteq> {ActionStart, ActionStop, ActionGetStatus, ActionStreamOutput}
   \<and> (case (Option.bind (actionFor fullMethod) (caller x now ic peer),
            Unary x now stack ic peer fullMethod request handler s) of
        (None, (s', logged, r)) \<Rightarrow> s' = s
          \<and> (\<exists>m. r = Inl (StatusErr (refusal_code x now ic peer fullMethod) m))
      | (Some caller_id, (s', logged, r)) \<Rightarrow> s' = fst (handler caller_id s)
          \<and> r = (case snd (snd (handler caller_id s)) of
                   Returned res \<Rightarrow> res
                 | Panicked v \<Rightarrow> Inl (StatusErr CodeInternal ''internal error'')))"
proof (intro conjI)
  show "case (Option.bind (actionFor fullMethod) (caller x now ic peer),
            Unary x now stack ic peer fullMethod request handler s) of
        (None, (s', logged, r)) \<Rightarrow> s' = s
          \<and> (\<exists>m. r = Inl (StatusErr (refusal_code x now ic peer fullMethod) m))
      | (Some caller_id, (s', logged, r)) \<Rightarrow> s' = fst (handler caller_id s)
          \<and> r = (case snd (snd (handler caller_id s)) of
                   Returned res \<Rightarrow> res
                 | Panicked v \<Rightarrow> Inl (StatusErr CodeInternal ''internal error''))"
  proof (cases "Option.bind (actionFor fullMethod) (caller x now ic peer)")
    case None
    from authorize_none [OF this, of "targetJobID request"] None show ?thesis
      by (auto simp: Unary_def intercept_def guard_def)
  next
    case (Some agent)
    then show ?thesis
      by (simp add: Unary_def intercept_def guard_def authorize_some internalErrorMessage_def
          split: prod.split outcome.split)
  qed
qed (rule caller_chain, auto simp: actionFor_def)


end
