(* ===== verification/Service.thy ===== *)
theory Service
  imports Interceptor
begin

text \<open>
  \<open>internal/server/service.go\<close>: the handlers of the four RPCs. What a handler does at one instant is a
  function; one that waits, \<open>Stop\<close> for the job to finish and \<open>StreamOutput\<close> for its ticks, is a call in
  a table, and the events of calls, of jobs and of shutdowns interleave. \<open>context.WithoutCancel\<close> hands
  a job a context that never ends, so \<open>Create\<close> gets none that has.
\<close>

section \<open>Conversions\<close>

text \<open>Over the status as a string, which is what the type is.\<close>

definition protoStatus :: "logger \<Rightarrow> string \<Rightarrow> log_record list \<times> wire_status" where
  "protoStatus lg jobStatus =
     (if jobStatus = status_text StatusRunning then ([], STATUS_RUNNING)
      else if jobStatus = status_text StatusCompleted then ([], STATUS_COMPLETED)
      else if jobStatus = status_text StatusStopped then ([], STATUS_STOPPED)
      else if jobStatus = status_text StatusFailed then ([], STATUS_FAILED)
      else (log_attrs lg LevelWarn ''unexpected job status'' [(''job_status'', AStr jobStatus)],
            STATUS_UNSPECIFIED))"

definition protoFailure :: tick_kind where
  "protoFailure = Tick_Failure unexpectedErrorMessage"

text \<open>\<open>None\<close> is a tick that is none of the three types, such as a nil interface.\<close>

definition protoTick :: "(int \<Rightarrow> wire_duration) \<Rightarrow> logger \<Rightarrow> tick option \<Rightarrow> log_record list \<times> wire_tick" where
  "protoTick dur lg t =
     (case t of
        Some (Progress elapsed remaining) \<Rightarrow> ([], Some (Tick_Progress (dur elapsed) (to_int32 remaining)))
      | Some (Stopped cause) \<Rightarrow> ([], Some Tick_Stopped)
      | Some (PanicError err) \<Rightarrow> ([], Some protoFailure)
      | None \<Rightarrow> (log_attrs lg LevelWarn ''unexpected tick'' [(''tick'', AAny ''<nil>'')], Some protoFailure))"

definition sent_tick :: "(int \<Rightarrow> wire_duration) \<Rightarrow> tick \<Rightarrow> wire_tick" where
  "sent_tick dur t = snd (protoTick dur discard_logger (Some t))"

section \<open>Handlers\<close>

text \<open>The agent the context carries, if any.\<close>

definition service_agentID :: "logger \<Rightarrow> agent_id option \<Rightarrow> log_record list \<times> agent_id result" where
  "service_agentID lg ctx =
     (case agentIDFrom ctx of
        (agentID, isFound) \<Rightarrow>
          if \<not> isFound
          then (log_attrs lg LevelError ''no authenticated agent id in the context'' [],
                Inl (StatusErr CodeInternal internalErrorMessage))
          else ([], Inr agentID))"

definition findJob :: "logger \<Rightarrow> agent_id option \<Rightarrow> string \<Rightarrow> registry
    \<Rightarrow> log_record list \<times> (nat \<times> agent_id) result" where
  "findJob lg ctx jobID r =
     (case service_agentID lg ctx of
        (logged, Inl err) \<Rightarrow> (logged, Inl err)
      | (logged, Inr agentID) \<Rightarrow>
          (case Find agentID jobID r of
             None \<Rightarrow>
               (logged @ log_attrs lg LevelInfo ''job not found''
                  [(''agent_id'', AStr agentID), (''job_id'', AStr jobID)],
                Inl (StatusErr CodeNotFound ''job not found''))
           | Some job \<Rightarrow> (logged, Inr (job, agentID))))"

definition Start :: "logger \<Rightarrow> int \<Rightarrow> agent_id option \<Rightarrow> 32 word \<Rightarrow> store
    \<Rightarrow> store \<times> log_record list \<times> unary_response result" where
  "Start lg now ctx count s =
     (case service_agentID lg ctx of
        (logged, Inl err) \<Rightarrow> (s, logged, Inl err)
      | (logged, Inr agentID) \<Rightarrow>
          (case Create None now agentID (of_int32 count) s of
             (s', Inr jobID) \<Rightarrow> (s', logged, Inr (StartResponse jobID))
           | (s', Inl err) \<Rightarrow>
               if errors_is err (SWorker ErrInvalidCount) then
                 (s', logged, Inl (StatusErr CodeInvalidArgument
                    (''count must be between 1 and '' @ show_int MaxCount)))
               else if errors_is err (SRegistry ErrNotAcceptingJobs) then
                 (s', logged, Inl (StatusErr CodeUnavailable ''unavailable''))
               else
                 (s', logged @ log_attrs lg LevelError ''internal error in creating a job''
                        [(''agent_id'', AStr agentID), (''error'', AErr err)],
                  Inl (StatusErr CodeInternal internalErrorMessage))))"

section \<open>Calls\<close>

text \<open>
  A call that waits: \<open>Stop\<close>, for call \<open>i\<close> of \<open>Job.Stop\<close> on a job; \<open>StreamOutput\<close>, with its agent, the
  job, the reader of its range and what it has sent. An answered call has sent ticks, when it streamed,
  and ended with a response (none for a stream) or an error.
\<close>

datatype call =
    Stopping nat nat
  | Streaming agent_id nat nat "wire_tick list"
  | Answered "wire_tick list" "unary_response option result"

record service =
  svc_shop :: shop
  svc_logger :: logger
  svc_calls :: "nat \<Rightarrow> call option"
  svc_log :: "log_record list"

definition NewService :: "logger option \<Rightarrow> service" where
  "NewService lg =
     \<lparr>svc_shop = open_shop (Some (OrDiscard lg)), svc_logger = OrDiscard lg, svc_calls = Map.empty,
      svc_log = []\<rparr>"

abbreviation svc_jobs :: "service \<Rightarrow> job_sys list" where
  "svc_jobs w \<equiv> sh_jobs (svc_shop w)"

abbreviation svc_registry :: "service \<Rightarrow> registry" where
  "svc_registry w \<equiv> sh_registry (svc_shop w)"

datatype service_event =
    OnShop shop_event
  | OnStart nat "agent_id option" int "32 word"
  | OnStop nat "agent_id option" string nat
  | OnStopAnswer nat
  | OnGetStatus nat "agent_id option" string
  | OnStream nat "agent_id option" string nat
  | OnRead nat revent
  | OnSend nat "go_error option"
  | OnStreamEnd nat

text \<open>
  What goes on without a call: the goroutines of the jobs, the calls of \<open>Stop\<close> on them, and shutdowns.
  Readers belong to calls, jobs are created by \<open>Start\<close>, and the context of a job does not end.
\<close>

fun background :: "shop_event \<Rightarrow> bool" where
  "background (EvCreate ctxErr now a count) \<longleftrightarrow> False"
| "background (EvJob p (Worker (EvParentDone why))) \<longleftrightarrow> False"
| "background (EvJob p (Worker e)) \<longleftrightarrow> True"
| "background (EvJob p (StepStop i)) \<longleftrightarrow> True"
| "background (EvJob p e) \<longleftrightarrow> False"
| "background e \<longleftrightarrow> True"

definition answer :: "nat \<Rightarrow> wire_tick list \<Rightarrow> unary_response option result \<Rightarrow> log_record list \<Rightarrow> service
    \<Rightarrow> service" where
  "answer k sent r logged w =
     w\<lparr>svc_calls := (svc_calls w)(k \<mapsto> Answered sent r), svc_log := svc_log w @ logged\<rparr>"

definition stream_line :: "logger \<Rightarrow> string \<Rightarrow> attrs \<Rightarrow> job_sys \<Rightarrow> attrs \<Rightarrow> log_record list" where
  "stream_line lg msg before job after =
     log_attrs lg LevelInfo msg (before @ [(''job_id'', AStr (Job_ID (js_job job)))] @ after)"

definition status_attr :: "job_sys \<Rightarrow> attrs" where
  "status_attr job = [(''job_status'', AStr (status_text (Status (js_job job))))]"

text \<open>The line the deferred function of \<open>StreamOutput\<close> writes on every way out.\<close>

definition stream_closed :: "logger \<Rightarrow> agent_id \<Rightarrow> job_sys \<Rightarrow> log_record list" where
  "stream_closed lg agentID job =
     stream_line lg ''stream closed'' [(''agent_id'', AStr agentID)] job (status_attr job)"

text \<open>The tick a reader is about to be yielded.\<close>

definition next_tick :: "job_sys \<Rightarrow> nat \<Rightarrow> tick option" where
  "next_tick job r =
     (case js_readers job r of
        None \<Rightarrow> None
      | Some rd \<Rightarrow>
          (case rd_pc rd of
             RBatch lo i hi wait \<Rightarrow> if i < hi then Some (job_ticks (js_job job) ! i) else None
           | _ \<Rightarrow> None))"

definition reader_ended :: "job_sys \<Rightarrow> nat \<Rightarrow> bool" where
  "reader_ended job r \<longleftrightarrow>
     (case js_readers job r of
        Some rd \<Rightarrow> rd_pc rd = RDone ByTerminal \<or> rd_pc rd = RDone ByContext
      | None \<Rightarrow> False)"

text \<open>
  \<open>OnStart\<close>, \<open>OnStop\<close>, \<open>OnGetStatus\<close> and \<open>OnStream\<close> are a handler's work up to its answer or to
  where it waits. \<open>OnSend\<close> is one turn of the range of \<open>StreamOutput\<close>: the tick is yielded, sent, and
  the range goes on unless \<open>Send\<close> has failed.
\<close>

fun call_step :: "(int \<Rightarrow> wire_duration) \<Rightarrow> service_event \<Rightarrow> service \<Rightarrow> service option" where
  "call_step dur (OnShop e) w =
     (if background e then map_option (\<lambda>s. w\<lparr>svc_shop := s\<rparr>) (shop_move e (svc_shop w)) else None)"
| "call_step dur (OnStart k ctx now count) w =
     (if svc_calls w k \<noteq> None then None
      else (case Start (svc_logger w) now ctx count (sh_store (svc_shop w)) of
              (s, logged, r) \<Rightarrow>
                Some (answer k [] (map_sum id Some r) logged
                        (w\<lparr>svc_shop := (svc_shop w)\<lparr>sh_store := s\<rparr>\<rparr>))))"
| "call_step dur (OnStop k ctx jobID i) w =
     (if svc_calls w k \<noteq> None then None
      else (case findJob (svc_logger w) ctx jobID (svc_registry w) of
              (logged, Inl err) \<Rightarrow> Some (answer k [] (Inl err) logged w)
            | (logged, Inr (p, agentID)) \<Rightarrow>
                map_option
                  (\<lambda>s. w\<lparr>svc_shop := s, svc_calls := (svc_calls w)(k \<mapsto> Stopping p i),
                         svc_log := svc_log w @ logged\<rparr>)
                  (shop_move (EvJob p (CallStop i)) (svc_shop w))))"
| "call_step dur (OnStopAnswer k) w =
     (case svc_calls w k of
        Some (Stopping p i) \<Rightarrow>
          (case js_stops (svc_jobs w ! p) i of
             Some (StopReturned st) \<Rightarrow>
               (case protoStatus (svc_logger w) (status_text st) of
                  (logged, ws) \<Rightarrow> Some (answer k [] (Inr (Some (StopResponse ws))) logged w))
           | _ \<Rightarrow> None)
      | _ \<Rightarrow> None)"
| "call_step dur (OnGetStatus k ctx jobID) w =
     (if svc_calls w k \<noteq> None then None
      else (case findJob (svc_logger w) ctx jobID (svc_registry w) of
              (logged, Inl err) \<Rightarrow> Some (answer k [] (Inl err) logged w)
            | (logged, Inr (p, agentID)) \<Rightarrow>
                (case protoStatus (svc_logger w) (status_text (Status (js_job (svc_jobs w ! p)))) of
                   (logged', ws) \<Rightarrow>
                     Some (answer k [] (Inr (Some (GetStatusResponse ws))) (logged @ logged') w))))"
| "call_step dur (OnStream k ctx jobID r) w =
     (if svc_calls w k \<noteq> None then None
      else (case findJob (svc_logger w) ctx jobID (svc_registry w) of
              (logged, Inl err) \<Rightarrow> Some (answer k [] (Inl err) logged w)
            | (logged, Inr (p, agentID)) \<Rightarrow>
                map_option
                  (\<lambda>s. w\<lparr>svc_shop := s, svc_calls := (svc_calls w)(k \<mapsto> Streaming agentID p r []),
                         svc_log := svc_log w @ logged
                           @ stream_line (svc_logger w) ''stream opened'' [(''agent_id'', AStr agentID)]
                               (svc_jobs w ! p) []\<rparr>)
                  (shop_move (EvJob p (OpenReader r)) (svc_shop w))))"
| "call_step dur (OnRead k e) w =
     (case svc_calls w k of
        Some (Streaming agentID p r sent) \<Rightarrow>
          (case e of
             RdYield b \<Rightarrow> None
           | _ \<Rightarrow> map_option (\<lambda>s. w\<lparr>svc_shop := s\<rparr>) (shop_move (EvJob p (Reader r e)) (svc_shop w)))
      | _ \<Rightarrow> None)"
| "call_step dur (OnSend k failure) w =
     (case svc_calls w k of
        Some (Streaming agentID p r sent) \<Rightarrow>
          (case next_tick (svc_jobs w ! p) r of
             None \<Rightarrow> None
           | Some t \<Rightarrow>
               (case (protoTick dur (svc_logger w) (Some t),
                      shop_move (EvJob p (Reader r (RdYield (failure = None)))) (svc_shop w)) of
                  (_, None) \<Rightarrow> None
                | ((logged, wt), Some s) \<Rightarrow>
                    (let w' = w\<lparr>svc_shop := s, svc_log := svc_log w @ logged\<rparr>; job = svc_jobs w ! p
                     in case failure of
                          None \<Rightarrow> Some (w'\<lparr>svc_calls := (svc_calls w)(k \<mapsto> Streaming agentID p r (sent @ [wt]))\<rparr>)
                        | Some err \<Rightarrow>
                            Some (answer k (sent @ [wt]) (Inl err)
                              (stream_line (svc_logger w) ''error in streaming output'' [] job
                                 (status_attr job @ [(''error'', AErr err)])
                               @ stream_closed (svc_logger w) agentID job) w'))))
      | _ \<Rightarrow> None)"
| "call_step dur (OnStreamEnd k) w =
     (case svc_calls w k of
        Some (Streaming agentID p r sent) \<Rightarrow>
          if reader_ended (svc_jobs w ! p) r
          then Some (answer k sent (Inr None) (stream_closed (svc_logger w) agentID (svc_jobs w ! p)) w)
          else None
      | _ \<Rightarrow> None)"

definition service_step :: "(int \<Rightarrow> wire_duration) \<Rightarrow> service_event \<Rightarrow> service \<Rightarrow> service option" where
  "service_step dur e w = (if live_jobs (svc_jobs w) then call_step dur e w else None)"

text \<open>
  \<open>Service.Shutdown\<close>, called as shutdown \<open>k\<close> of the registry; it returns when that has, which is the
  state \<open>ShutReturned\<close> of the shutdown.
\<close>

definition Shutdown_service :: "(int \<Rightarrow> wire_duration) \<Rightarrow> nat \<Rightarrow> service \<Rightarrow> service option" where [simp]:
  "Shutdown_service dur k w = service_step dur (OnShop (EvShutdown k)) w"

end
