(* ===== verification/Service_Inv.thy ===== *)
theory Service_Inv
  imports Service
begin

text \<open>
  The invariant of the service's calls: a pending \<open>Stop\<close> has called \<open>Job.Stop\<close>, a stream has handed to
  \<open>Send\<close> the ticks its own reader was yielded, no two streams share a reader, and an answer carries a
  status a client knows. Every step of the service keeps it.
\<close>

fun final_wire :: "wire_status \<Rightarrow> bool" where
  "final_wire STATUS_COMPLETED \<longleftrightarrow> True"
| "final_wire STATUS_STOPPED \<longleftrightarrow> True"
| "final_wire STATUS_FAILED \<longleftrightarrow> True"
| "final_wire ws \<longleftrightarrow> False"

fun response_ok :: "unary_response option result \<Rightarrow> bool" where
  "response_ok (Inr (Some (StopResponse ws))) \<longleftrightarrow> final_wire ws"
| "response_ok (Inr (Some (GetStatusResponse ws))) \<longleftrightarrow> final_wire ws \<or> ws = STATUS_RUNNING"
| "response_ok r \<longleftrightarrow> True"

definition call_inv :: "(int \<Rightarrow> wire_duration) \<Rightarrow> shop \<Rightarrow> call \<Rightarrow> bool" where
  "call_inv dur s c \<longleftrightarrow>
     (case c of
        Stopping p i \<Rightarrow> p < length (sh_jobs s) \<and> js_stops (sh_jobs s ! p) i \<noteq> None
      | Streaming a p r sent \<Rightarrow> p < length (sh_jobs s) \<and> (\<exists>jobID. Find a jobID (sh_registry s) = Some p)
          \<and> (\<exists>rd. js_readers (sh_jobs s ! p) r = Some rd
               \<and> sent = map (sent_tick dur) (rd_delivered rd) \<and> rd_pc rd \<noteq> RDone ByCaller)
      | Answered sent r \<Rightarrow> response_ok r)"

definition own_reader :: "(nat \<Rightarrow> call option) \<Rightarrow> bool" where
  "own_reader calls \<longleftrightarrow>
     (\<forall>k k' a a' p r sent sent'. calls k = Some (Streaming a p r sent)
        \<longrightarrow> calls k' = Some (Streaming a' p r sent') \<longrightarrow> k = k')"

definition svc_inv :: "(int \<Rightarrow> wire_duration) \<Rightarrow> service \<Rightarrow> bool" where
  "svc_inv dur w \<longleftrightarrow> shop_inv (svc_shop w) \<and> own_reader (svc_calls w)
     \<and> (\<forall>k c. svc_calls w k = Some c \<longrightarrow> call_inv dur (svc_shop w) c)"

lemma NewService_inv: "svc_inv dur (NewService lg)"
  by (simp add: svc_inv_def NewService_def open_shop_inv own_reader_def)

section \<open>What a step of the jobs keeps for a call\<close>

text \<open>Jobs, lookups and calls of \<open>Stop\<close> are kept, and the readers outside a given set are untouched.\<close>

definition keeps_calls :: "(nat \<times> nat) set \<Rightarrow> shop \<Rightarrow> shop \<Rightarrow> bool" where
  "keeps_calls R s t \<longleftrightarrow> length (sh_jobs s) \<le> length (sh_jobs t)
     \<and> (\<forall>a jobID p. Find a jobID (sh_registry s) = Some p \<longrightarrow> Find a jobID (sh_registry t) = Some p)
     \<and> (\<forall>p<length (sh_jobs s). (\<forall>i. js_stops (sh_jobs s ! p) i \<noteq> None \<longrightarrow> js_stops (sh_jobs t ! p) i \<noteq> None)
          \<and> (\<forall>r. (p, r) \<notin> R \<longrightarrow> js_readers (sh_jobs t ! p) r = js_readers (sh_jobs s ! p) r))"

lemma call_inv_kept:
  assumes "call_inv dur s c" and "keeps_calls R s t"
    and "\<And>a p r sent. c = Streaming a p r sent \<Longrightarrow> (p, r) \<notin> R"
  shows "call_inv dur t c"
proof (cases c)
  case (Streaming a p r sent)
  with assms(1) obtain jobID rd where "p < length (sh_jobs s)" "Find a jobID (sh_registry s) = Some p"
    "js_readers (sh_jobs s ! p) r = Some rd" "sent = map (sent_tick dur) (rd_delivered rd)"
    "rd_pc rd \<noteq> RDone ByCaller" by (auto simp: call_inv_def)
  moreover have "(p, r) \<notin> R" by (rule assms(3) [OF Streaming])
  ultimately have "p < length (sh_jobs t)" "Find a jobID (sh_registry t) = Some p"
    "js_readers (sh_jobs t ! p) r = Some rd"
    using assms(2) by (auto simp: keeps_calls_def)
  with \<open>sent = _\<close> \<open>rd_pc rd \<noteq> _\<close> Streaming show ?thesis by (auto simp: call_inv_def)
qed (use assms(1,2) in \<open>auto simp: call_inv_def keeps_calls_def\<close>)

lemma keeps_calls_set_job:
  assumes p: "p < length (sh_jobs s)" and "job_moves (sh_jobs s ! p) j"
    and rd: "\<And>r. (p, r) \<notin> R \<Longrightarrow> js_readers j r = js_readers (sh_jobs s ! p) r"
  shows "keeps_calls R s (set_job p j s)"
proof -
  have "(\<forall>i. js_stops (sh_jobs s ! q) i \<noteq> None \<longrightarrow> js_stops ((sh_jobs s)[p := j] ! q) i \<noteq> None)
      \<and> (\<forall>r. (q, r) \<notin> R \<longrightarrow> js_readers ((sh_jobs s)[p := j] ! q) r = js_readers (sh_jobs s ! q) r)" for q
    using assms by (cases "q = p") (auto simp: job_moves_def)
  then show ?thesis by (simp add: keeps_calls_def set_job_def)
qed

lemma keeps_calls_shutdowns: "keeps_calls R s (t\<lparr>sh_shutdowns := f\<rparr>) = keeps_calls R s t"
  by (simp add: keeps_calls_def)

text \<open>One job's step, for the readers it may change.\<close>

fun touches :: "nat \<Rightarrow> job_event \<Rightarrow> (nat \<times> nat) set" where
  "touches p (OpenReader r) = {(p, r)}"
| "touches p (Reader r e) = {(p, r)}"
| "touches p e = {}"

lemma job_step_readers:
  assumes "job_step e j = Some j'" and "(p, r) \<notin> touches p e"
  shows "js_readers j' r = js_readers j r"
  using assms by (cases e) (auto simp: job_step_def split: if_splits option.splits)

lemma job_event_keeps:
  assumes inv: "shop_inv s" and step: "shop_move (EvJob p e) s = Some t"
  shows "p < length (sh_jobs s)" and "keeps_calls (touches p e) s t" and "shop_inv t"
    and "\<exists>j. job_step e (sh_jobs s ! p) = Some j \<and> t = set_job p j s"
proof -
  from step obtain j where p: "p < length (sh_jobs s)" and j: "job_step e (sh_jobs s ! p) = Some j"
    "t = set_job p j s" by (auto split: if_splits)
  have "sys_inv (sh_jobs s ! p)" using inv p by (simp add: shop_inv_def store_inv_def)
  then have mv: "job_moves (sh_jobs s ! p) j" by (rule job_step_moves [OF _ j(1)])
  show "p < length (sh_jobs s)" by (rule p)
  show "keeps_calls (touches p e) s t"
    unfolding j(2) using keeps_calls_set_job [OF p mv] job_step_readers [OF j(1), of p] by blast
  show "shop_inv t" unfolding j(2) by (rule set_job_inv [OF inv p mv])
  show "\<exists>j. job_step e (sh_jobs s ! p) = Some j \<and> t = set_job p j s" using j by blast
qed

lemma background_keeps:
  assumes inv: "shop_inv s" and b: "background e" and step: "shop_move e s = Some t"
  shows "keeps_calls {} s t"
proof (cases e)
  case (EvJob p je)
  have "touches p je = {}" using b EvJob by (cases je) auto
  with job_event_keeps(2) [OF inv step [unfolded EvJob]] show ?thesis by simp
next
  case (EvShutdown k)
  then show ?thesis using step
    by (auto simp: keeps_calls_def Shutdown_snapshot_def Find_def split: option.splits)
next
  case (EvGo k n i)
  then obtain ps where ps: "sh_shutdowns s k = Some (ShutWaiting ps)"
    using step by (auto split: option.splits shutdown_pc.splits)
  define p where "p = fst (ps ! n)"
  obtain j where n: "n < length ps" and j: "job_step (CallStop i) (sh_jobs s ! p) = Some j"
    and t: "t = (set_job p j s)\<lparr>sh_shutdowns := (sh_shutdowns s)(k \<mapsto> ShutWaiting (ps[n := (p, Some i)]))\<rparr>"
    using EvGo step ps by (auto simp: p_def split: if_splits)
  have "shut_inv s (ShutWaiting ps)" using inv ps by (simp add: shop_inv_def)
  moreover have "p \<in> fst ` set ps" using n by (simp add: p_def)
  ultimately have p: "p < length (sh_jobs s)" by (auto simp: shut_inv_def)
  have "shop_move (EvJob p (CallStop i)) s = Some (set_job p j s)" using p j by simp
  from job_event_keeps(2) [OF inv this] show ?thesis by (simp add: t keeps_calls_shutdowns)
next
  case (EvWait k)
  with step show ?thesis
    by (auto simp: keeps_calls_def split: option.splits shutdown_pc.splits if_splits)
qed (use b in simp)

lemma Start_keeps:
  assumes inv: "shop_inv s" and start: "Start lg now ctx count (sh_store s) = (st, logged, r)"
  shows "keeps_calls {} s (s\<lparr>sh_store := st\<rparr>)" and "shop_inv (s\<lparr>sh_store := st\<rparr>)"
    and "response_ok (map_sum id Some r)"
proof -
  have "st = sh_store s \<or> (\<exists>a. st = fst (Create None now a (of_int32 count) (sh_store s)))"
  proof (cases "snd (service_agentID lg ctx)")
    case (Inl e)
    with start show ?thesis by (auto simp: Start_def split: prod.splits)
  next
    case (Inr a)
    with start have "st = fst (Create None now a (of_int32 count) (sh_store s))"
      by (auto simp: Start_def split: sum.splits prod.splits if_splits)
    then show ?thesis by blast
  qed
  show "response_ok (map_sum id Some r)"
    using start by (auto simp: Start_def split: sum.splits prod.splits if_splits)
  have same: "s\<lparr>sh_store := sh_store s\<rparr> = s" by simp
  from \<open>st = sh_store s \<or> _\<close> show "shop_inv (s\<lparr>sh_store := st\<rparr>)"
  proof
    assume "\<exists>a. st = fst (Create None now a (of_int32 count) (sh_store s))"
    then obtain a where "shop_move (EvCreate None now a (of_int32 count)) s = Some (s\<lparr>sh_store := st\<rparr>)"
      by auto
    from shop_move_inv [OF inv this] show ?thesis .
  qed (use inv in simp)
  from \<open>st = sh_store s \<or> _\<close> show "keeps_calls {} s (s\<lparr>sh_store := st\<rparr>)"
  proof
    assume "\<exists>a. st = fst (Create None now a (of_int32 count) (sh_store s))"
    then obtain a r' where c: "Create None now a (of_int32 count) (sh_store s) = (st, r')"
      by (metis prod.collapse)
    have sinv: "store_inv (sh_store s)" using inv by (simp add: shop_inv_def)
    have "shop_evolves s (s\<lparr>sh_store := st\<rparr>)"
      using Create_evolves [OF sinv, of None now a "of_int32 count"] c by simp
    moreover have "st_jobs st ! p = sh_jobs s ! p" if "p < length (sh_jobs s)" for p
      using c that by (cases rule: Create_cases) (auto simp: nth_append)
    ultimately show ?thesis by (auto simp: keeps_calls_def shop_evolves_def)
  qed (simp add: keeps_calls_def)
qed
section \<open>Steps\<close>

lemma svc_inv_update:
  assumes inv: "svc_inv dur w" and kept: "keeps_calls R (svc_shop w) s" and s: "shop_inv s"
    and c: "call_inv dur s c" and own: "own_reader ((svc_calls w)(k \<mapsto> c))"
    and R: "\<And>l a p r sent. l \<noteq> k \<Longrightarrow> svc_calls w l = Some (Streaming a p r sent) \<Longrightarrow> (p, r) \<notin> R"
    and w': "svc_shop w' = s" "svc_calls w' = (svc_calls w)(k \<mapsto> c)"
  shows "svc_inv dur w'"
proof -
  have "call_inv dur s d" if "l \<noteq> k" "svc_calls w l = Some d" for l d
    using inv that call_inv_kept [OF _ kept, of dur d] R [OF that(1)] by (auto simp: svc_inv_def)
  with c s own show ?thesis by (auto simp: svc_inv_def w')
qed

lemma own_reader_plain:
  "own_reader calls \<Longrightarrow> (\<And>a p r sent. c \<noteq> Streaming a p r sent) \<Longrightarrow> own_reader (calls(k \<mapsto> c))"
  by (auto simp: own_reader_def split: if_splits)

lemma own_reader_stream:
  assumes "own_reader calls"
    and "\<And>l a' sent'. l \<noteq> k \<Longrightarrow> calls l = Some (Streaming a' p r sent') \<Longrightarrow> False"
  shows "own_reader (calls(k \<mapsto> Streaming a p r sent))"
  unfolding own_reader_def
proof (intro allI impI)
  fix l l' b b' q t u u'
  assume "(calls(k \<mapsto> Streaming a p r sent)) l = Some (Streaming b q t u)"
    and "(calls(k \<mapsto> Streaming a p r sent)) l' = Some (Streaming b' q t u')"
  then show "l = l'"
    using assms unfolding own_reader_def by (auto split: if_splits) blast+
qed

lemma keeps_calls_refl: "keeps_calls R s s"
  by (simp add: keeps_calls_def)

lemma answer_fields [simp]:
  "svc_shop (answer k sent r logged w) = svc_shop w"
  "svc_calls (answer k sent r logged w) = (svc_calls w)(k \<mapsto> Answered sent r)"
  "svc_logger (answer k sent r logged w) = svc_logger w"
  by (simp_all add: answer_def)

lemma answered_inv:
  assumes inv: "svc_inv dur w" and kept: "keeps_calls R (svc_shop w) s" and s: "shop_inv s"
    and ok: "response_ok res"
    and R: "\<And>l a p r sent. l \<noteq> k \<Longrightarrow> svc_calls w l = Some (Streaming a p r sent) \<Longrightarrow> (p, r) \<notin> R"
    and w': "svc_shop w' = s" "svc_calls w' = (svc_calls w)(k \<mapsto> Answered sent res)"
  shows "svc_inv dur w'"
  by (rule svc_inv_update [OF inv kept s _ own_reader_plain R w'])
     (use inv ok in \<open>auto simp: svc_inv_def call_inv_def\<close>)

lemma findJob_ok:
  "findJob lg ctx jobID r = (logged, Inr (p, a)) \<Longrightarrow> ctx = Some a \<and> Find a jobID r = Some p"
  by (auto simp: findJob_def service_agentID_def split: option.splits)

primrec wire_of :: "job_status \<Rightarrow> wire_status" where
  "wire_of StatusRunning = STATUS_RUNNING"
| "wire_of StatusCompleted = STATUS_COMPLETED"
| "wire_of StatusStopped = STATUS_STOPPED"
| "wire_of StatusFailed = STATUS_FAILED"

lemma protoStatus_wire: "snd (protoStatus lg (status_text st)) = wire_of st"
  by (cases st) (simp_all add: protoStatus_def)

lemma response_status: "snd (protoStatus lg (status_text st)) \<noteq> STATUS_UNSPECIFIED
    \<and> (st \<noteq> StatusRunning \<longrightarrow> final_wire (snd (protoStatus lg (status_text st))))
    \<and> (st = StatusRunning \<longrightarrow> snd (protoStatus lg (status_text st)) = STATUS_RUNNING)"
  by (cases st) (simp_all add: protoStatus_def)

lemma sent_tick_logger: "protoTick dur lg (Some t) = ([], sent_tick dur t)"
  by (cases t) (simp_all add: sent_tick_def protoTick_def)

lemma reader_step_delivered:
  assumes "reader_step e j rd = Some rd'" and "\<And>b. e \<noteq> RdYield b"
  shows "rd_delivered rd' = rd_delivered rd \<and> (rd_pc rd \<noteq> RDone ByCaller \<longrightarrow> rd_pc rd' \<noteq> RDone ByCaller)"
  using assms by (cases e) (auto split: rpc.splits if_splits)

lemma own_reader_other:
  assumes "own_reader calls" and "calls k = Some (Streaming a p r sent)" and "l \<noteq> k"
    and "calls l = Some (Streaming b q t u)"
  shows "(q, t) \<notin> {(p, r)}"
  using assms unfolding own_reader_def by blast

lemma step_background:
  assumes inv: "svc_inv dur w" and step: "call_step dur (OnShop e) w = Some w'"
  shows "svc_inv dur w'"
proof -
  obtain s where b: "background e" and s: "shop_move e (svc_shop w) = Some s" "w' = w\<lparr>svc_shop := s\<rparr>"
    using step by (auto split: if_splits)
  have sh: "shop_inv (svc_shop w)" using inv by (simp add: svc_inv_def)
  have "call_inv dur s d" if "svc_calls w l = Some d" for l d
    using inv that call_inv_kept [OF _ background_keeps [OF sh b s(1)]] by (auto simp: svc_inv_def)
  with inv shop_move_inv [OF sh s(1)] show ?thesis by (simp add: svc_inv_def s(2))
qed

lemma step_start:
  assumes inv: "svc_inv dur w" and step: "call_step dur (OnStart k ctx now count) w = Some w'"
  shows "svc_inv dur w'"
proof -
  obtain st logged r where start: "Start (svc_logger w) now ctx count (sh_store (svc_shop w)) = (st, logged, r)"
    using prod_cases3 by blast
  have sh: "shop_inv (svc_shop w)" using inv by (simp add: svc_inv_def)
  from step start have w': "svc_shop w' = (svc_shop w)\<lparr>sh_store := st\<rparr>"
    "svc_calls w' = (svc_calls w)(k \<mapsto> Answered [] (map_sum id Some r))" by (auto split: if_splits)
  show ?thesis
    by (rule answered_inv [OF inv Start_keeps(1,2) [OF sh start] Start_keeps(3) [OF sh start] _ w']) simp
qed

lemma step_stop:
  assumes inv: "svc_inv dur w" and step: "call_step dur (OnStop k ctx jobID i) w = Some w'"
  shows "svc_inv dur w'"
proof -
  have sh: "shop_inv (svc_shop w)" using inv by (simp add: svc_inv_def)
  have own: "own_reader (svc_calls w)" using inv by (simp add: svc_inv_def)
  obtain logged r where f: "findJob (svc_logger w) ctx jobID (svc_registry w) = (logged, r)" by force
  show ?thesis
  proof (cases r)
    case (Inl err)
    with step f have w': "svc_shop w' = svc_shop w" "svc_calls w' = (svc_calls w)(k \<mapsto> Answered [] (Inl err))"
      by (auto split: if_splits)
    show ?thesis by (rule answered_inv [OF inv keeps_calls_refl [of "{}"] sh _ _ w']) simp_all
  next
    case (Inr pa)
    obtain p a where pa: "pa = (p, a)" by force
    with step f Inr obtain s where s: "shop_move (EvJob p (CallStop i)) (svc_shop w) = Some s"
      "svc_shop w' = s" "svc_calls w' = (svc_calls w)(k \<mapsto> Stopping p i)"
      by (auto split: if_splits simp del: shop_move.simps)
    note e = job_event_keeps [OF sh s(1)]
    from e(4) obtain j where j: "job_step (CallStop i) (svc_jobs w ! p) = Some j" "s = set_job p j (svc_shop w)"
      by blast
    then have "js_stops (sh_jobs s ! p) i \<noteq> None"
      using e(1) by (auto simp: set_job_def job_step_def split: if_splits option.splits)
    moreover have "p < length (sh_jobs s)" using e(1) j(2) by (simp add: set_job_def)
    ultimately have "call_inv dur s (Stopping p i)" by (simp add: call_inv_def)
    from svc_inv_update [OF inv e(2,3) this own_reader_plain [OF own] _ s(2,3)] show ?thesis by simp
  qed
qed

lemma step_stop_answer:
  assumes inv: "svc_inv dur w" and step: "call_step dur (OnStopAnswer k) w = Some w'"
  shows "svc_inv dur w'"
proof -
  have sh: "shop_inv (svc_shop w)" using inv by (simp add: svc_inv_def)
  obtain p i st where c: "svc_calls w k = Some (Stopping p i)"
    "js_stops (svc_jobs w ! p) i = Some (StopReturned st)"
    using step by (auto split: option.splits call.splits stop_pc.splits)
  have "call_inv dur (svc_shop w) (Stopping p i)" using inv c(1) by (simp add: svc_inv_def)
  then have "sys_inv (svc_jobs w ! p)" using sh by (simp add: call_inv_def shop_inv_def store_inv_def)
  from sys_invD(3) [OF this c(2)] have "st \<noteq> StatusRunning" by (auto simp: stop_inv_def)
  with response_status have ok: "final_wire (snd (protoStatus (svc_logger w) (status_text st)))" by blast
  have w': "svc_shop w' = svc_shop w" "svc_calls w' = (svc_calls w)(k \<mapsto> Answered []
      (Inr (Some (StopResponse (snd (protoStatus (svc_logger w) (status_text st)))))))"
    using step c by (auto split: prod.splits)
  show ?thesis by (rule answered_inv [OF inv keeps_calls_refl [of "{}"] sh _ _ w']) (use ok in simp_all)
qed

lemma step_get_status:
  assumes inv: "svc_inv dur w" and step: "call_step dur (OnGetStatus k ctx jobID) w = Some w'"
  shows "svc_inv dur w'"
proof -
  have sh: "shop_inv (svc_shop w)" using inv by (simp add: svc_inv_def)
  obtain logged r where f: "findJob (svc_logger w) ctx jobID (svc_registry w) = (logged, r)" by force
  show ?thesis
  proof (cases r)
    case (Inl err)
    with step f have w': "svc_shop w' = svc_shop w" "svc_calls w' = (svc_calls w)(k \<mapsto> Answered [] (Inl err))"
      by (auto split: if_splits)
    show ?thesis by (rule answered_inv [OF inv keeps_calls_refl [of "{}"] sh _ _ w']) simp_all
  next
    case (Inr pa)
    obtain p a where pa: "pa = (p, a)" by force
    let ?ws = "snd (protoStatus (svc_logger w) (status_text (Status (js_job (svc_jobs w ! p)))))"
    have w': "svc_shop w' = svc_shop w"
      "svc_calls w' = (svc_calls w)(k \<mapsto> Answered [] (Inr (Some (GetStatusResponse ?ws))))"
      using step f Inr pa by (auto split: if_splits prod.splits)
    have ok: "final_wire ?ws \<or> ?ws = STATUS_RUNNING" using response_status by blast
    show ?thesis by (rule answered_inv [OF inv keeps_calls_refl [of "{}"] sh _ _ w']) (use ok in simp_all)
  qed
qed

lemma step_stream:
  assumes inv: "svc_inv dur w" and step: "call_step dur (OnStream k ctx jobID r) w = Some w'"
  shows "svc_inv dur w'"
proof -
  have sh: "shop_inv (svc_shop w)" using inv by (simp add: svc_inv_def)
  have own: "own_reader (svc_calls w)" using inv by (simp add: svc_inv_def)
  obtain logged res where f: "findJob (svc_logger w) ctx jobID (svc_registry w) = (logged, res)" by force
  show ?thesis
  proof (cases res)
    case (Inl err)
    with step f have w': "svc_shop w' = svc_shop w" "svc_calls w' = (svc_calls w)(k \<mapsto> Answered [] (Inl err))"
      by (auto split: if_splits)
    show ?thesis by (rule answered_inv [OF inv keeps_calls_refl [of "{}"] sh _ _ w']) simp_all
  next
    case (Inr pa)
    obtain p a where pa: "pa = (p, a)" by force
    from findJob_ok f Inr pa have find: "Find a jobID (svc_registry w) = Some p" by blast
    obtain s where s: "shop_move (EvJob p (OpenReader r)) (svc_shop w) = Some s"
      "svc_shop w' = s" "svc_calls w' = (svc_calls w)(k \<mapsto> Streaming a p r [])"
      using step f Inr pa by (auto split: if_splits simp del: shop_move.simps)
    note e = job_event_keeps [OF sh s(1)]
    from e(4) obtain j where j: "job_step (OpenReader r) (svc_jobs w ! p) = Some j" "s = set_job p j (svc_shop w)"
      by blast
    then have new: "js_readers (svc_jobs w ! p) r = None" "js_readers (sh_jobs s ! p) r = Some new_reader"
      using e(1) by (auto simp: set_job_def job_step_def split: if_splits option.splits)
    have "p < length (sh_jobs s)" using e(1) j(2) by (simp add: set_job_def)
    moreover have "Find a jobID (sh_registry s) = Some p" using find e(2) by (auto simp: keeps_calls_def)
    ultimately have c: "call_inv dur s (Streaming a p r [])"
      using new(2) by (auto simp: call_inv_def new_reader_def)
    have fresh: "(q, t) \<noteq> (p, r)" if "svc_calls w l = Some (Streaming b q t u)" for l b q t u
    proof -
      have "call_inv dur (svc_shop w) (Streaming b q t u)" using inv that by (simp add: svc_inv_def)
      with new(1) show ?thesis by (auto simp: call_inv_def)
    qed
    have "own_reader ((svc_calls w)(k \<mapsto> Streaming a p r []))"
      by (rule own_reader_stream [OF own]) (use fresh in blast)
    from svc_inv_update [OF inv e(2,3) c this _ s(2,3)] fresh show ?thesis by simp
  qed
qed

lemma step_read:
  assumes inv: "svc_inv dur w" and step: "call_step dur (OnRead k e) w = Some w'"
  shows "svc_inv dur w'"
proof -
  have sh: "shop_inv (svc_shop w)" using inv by (simp add: svc_inv_def)
  have own: "own_reader (svc_calls w)" using inv by (simp add: svc_inv_def)
  obtain a p r sent where c: "svc_calls w k = Some (Streaming a p r sent)"
    using step by (auto split: option.splits call.splits)
  have ne: "e \<noteq> RdYield b" for b using step c by (auto split: revent.splits)
  obtain s where s: "shop_move (EvJob p (Reader r e)) (svc_shop w) = Some s" and w': "w' = w\<lparr>svc_shop := s\<rparr>"
    using step c ne by (cases e) (auto simp del: shop_move.simps)
  note ev = job_event_keeps [OF sh s]
  from ev(4) obtain j where j: "job_step (Reader r e) (svc_jobs w ! p) = Some j" "s = set_job p j (svc_shop w)"
    by blast
  have "call_inv dur (svc_shop w) (Streaming a p r sent)" using inv c by (simp add: svc_inv_def)
  then obtain jobID rd where rd: "js_readers (svc_jobs w ! p) r = Some rd"
    "sent = map (sent_tick dur) (rd_delivered rd)" "rd_pc rd \<noteq> RDone ByCaller"
    "Find a jobID (svc_registry w) = Some p" by (auto simp: call_inv_def)
  obtain rd' where rd': "reader_step e (js_job (svc_jobs w ! p)) rd = Some rd'" "js_readers j r = Some rd'"
    using j(1) rd(1) by (auto simp: job_step_def split: if_splits)
  note d = reader_step_delivered [OF rd'(1) ne]
  have "call_inv dur s (Streaming a p r sent)"
    using ev(1,2) rd rd' d by (auto simp: call_inv_def j(2) set_job_def keeps_calls_def)
  moreover have "(svc_calls w)(k \<mapsto> Streaming a p r sent) = svc_calls w" using c by (simp add: fun_upd_idem)
  ultimately show ?thesis
    using svc_inv_update [OF inv ev(2,3), of "Streaming a p r sent" k w'] own own_reader_other [OF own c]
    by (simp add: w')
qed

text \<open>One turn of a stream: the tick at the reader's position is yielded and handed to \<open>Send\<close>.\<close>

lemma send_turn:
  assumes inv: "svc_inv dur w" and step: "call_step dur (OnSend k failure) w = Some w'"
  obtains a p r sent s t where "svc_calls w k = Some (Streaming a p r sent)"
    "shop_move (EvJob p (Reader r (RdYield (failure = None)))) (svc_shop w) = Some s" "svc_shop w' = s"
    "next_tick (svc_jobs w ! p) r = Some t"
    "svc_calls w' = (svc_calls w)(k \<mapsto> (case failure of
        None \<Rightarrow> Streaming a p r (sent @ [sent_tick dur t]) | Some e \<Rightarrow> Answered (sent @ [sent_tick dur t]) (Inl e)))"
proof -
  obtain a p r sent where c: "svc_calls w k = Some (Streaming a p r sent)"
    using step by (auto split: option.splits call.splits)
  obtain t where t: "next_tick (svc_jobs w ! p) r = Some t" using step c by (auto split: option.splits)
  obtain s where s: "shop_move (EvJob p (Reader r (RdYield (failure = None)))) (svc_shop w) = Some s"
  proof (cases "shop_move (EvJob p (Reader r (RdYield (failure = None)))) (svc_shop w)")
    case None
    with step c t have False by (simp add: sent_tick_logger del: shop_move.simps)
    then show ?thesis ..
  qed (use that in blast)
  have "svc_shop w' = s \<and> svc_calls w' = (svc_calls w)(k \<mapsto> (case failure of
        None \<Rightarrow> Streaming a p r (sent @ [sent_tick dur t]) | Some e \<Rightarrow> Answered (sent @ [sent_tick dur t]) (Inl e)))"
    using step c t s
    by (auto simp: sent_tick_logger Let_def simp del: shop_move.simps split: option.splits)
  then show ?thesis using that c s t by blast
qed

lemma step_send:
  assumes inv: "svc_inv dur w" and step: "call_step dur (OnSend k failure) w = Some w'"
  shows "svc_inv dur w'"
proof (rule send_turn [OF assms])
  fix a p r sent s t
  assume c: "svc_calls w k = Some (Streaming a p r sent)"
    and s: "shop_move (EvJob p (Reader r (RdYield (failure = None)))) (svc_shop w) = Some s"
    and w'1: "svc_shop w' = s" and t: "next_tick (svc_jobs w ! p) r = Some t"
    and w'2: "svc_calls w' = (svc_calls w)(k \<mapsto> (case failure of
        None \<Rightarrow> Streaming a p r (sent @ [sent_tick dur t]) | Some e \<Rightarrow> Answered (sent @ [sent_tick dur t]) (Inl e)))"
  have sh: "shop_inv (svc_shop w)" and own: "own_reader (svc_calls w)" using inv by (simp_all add: svc_inv_def)
  note ev = job_event_keeps [OF sh s]
  note others = own_reader_other [OF own c]
  show ?thesis
  proof (cases failure)
    case (Some e)
    show ?thesis
      by (rule answered_inv [OF inv ev(2,3) _ _ w'1]) (use w'2 Some others in auto)
  next
    case None
    from ev(4) None obtain j where j: "job_step (Reader r (RdYield True)) (svc_jobs w ! p) = Some j"
      "s = set_job p j (svc_shop w)" by auto
    have "call_inv dur (svc_shop w) (Streaming a p r sent)" using inv c by (simp add: svc_inv_def)
    then obtain jobID rd where rd: "js_readers (svc_jobs w ! p) r = Some rd"
      "sent = map (sent_tick dur) (rd_delivered rd)" "Find a jobID (svc_registry w) = Some p"
      by (auto simp: call_inv_def)
    obtain rd' where rd': "reader_step (RdYield True) (js_job (svc_jobs w ! p)) rd = Some rd'"
      "js_readers j r = Some rd'" using j(1) rd(1) by (auto simp: job_step_def split: if_splits)
    have "rd_delivered rd' = rd_delivered rd @ [t]" "rd_pc rd' \<noteq> RDone ByCaller"
      using rd' t rd(1) by (auto simp: next_tick_def Let_def split: rpc.splits if_splits)
    then have ci: "call_inv dur s (Streaming a p r (sent @ [sent_tick dur t]))"
      using ev(1,2) rd rd'(2) by (auto simp: call_inv_def j(2) set_job_def keeps_calls_def)
    have "own_reader ((svc_calls w)(k \<mapsto> Streaming a p r (sent @ [sent_tick dur t])))"
      by (rule own_reader_stream [OF own]) (use others in blast)
    from svc_inv_update [OF inv ev(2,3) ci this _ w'1] w'2 None others show ?thesis by simp
  qed
qed

lemma step_stream_end:
  assumes inv: "svc_inv dur w" and step: "call_step dur (OnStreamEnd k) w = Some w'"
  shows "svc_inv dur w'"
proof -
  obtain a p r sent where c: "svc_calls w k = Some (Streaming a p r sent)"
    using step by (auto split: option.splits call.splits)
  have w': "svc_shop w' = svc_shop w" "svc_calls w' = (svc_calls w)(k \<mapsto> Answered sent (Inr None))"
    using step c by (auto split: if_splits)
  have sh: "shop_inv (svc_shop w)" using inv by (simp add: svc_inv_def)
  show ?thesis by (rule answered_inv [OF inv keeps_calls_refl [of "{}"] sh _ _ w']) simp_all
qed

lemma call_step_inv: "svc_inv dur w \<Longrightarrow> call_step dur e w = Some w' \<Longrightarrow> svc_inv dur w'"
  by (cases e; hypsubst; erule (1) step_background step_start step_stop step_stop_answer
      step_get_status step_stream step_read step_send step_stream_end)

interpretation service: invariant_steps "service_step dur" "svc_inv dur" for dur
  by unfold_locales (auto simp: service_step_def split: if_splits intro: call_step_inv)

lemma reachable_service: "reaches (service_step dur) (NewService lg) w \<Longrightarrow> svc_inv dur w"
  by (rule service.reaches_keeps [OF _ NewService_inv])

end
