(* ===== verification/Server.thy ===== *)
theory Server
  imports Service_Inv
begin

text \<open>
  \<open>internal/server/server.go\<close>: building the stack, and serving until the context or the listener ends.
  \<open>Serve\<close>, the goroutine of the transport and the goroutine that drains at shutdown are machines over
  the service; what gRPC does is the events: the transport returns an error or nil, and \<open>GracefulStop\<close>
  returns when the parameter \<open>drained\<close> allows it. Listening is a parameter too.
\<close>

section \<open>Building a server\<close>

definition keepaliveTime :: int where "keepaliveTime = 60 * 1000000000"
definition keepaliveTimeout :: int where "keepaliveTimeout = 10 * 1000000000"
definition keepaliveMinTime :: int where "keepaliveMinTime = 10 * 60 * 1000000000"
definition defaultShutdownGrace :: int where "defaultShutdownGrace = 5 * 1000000000"

record server_config =
  Address :: string
  CAPath :: string
  CertPath :: string
  KeyPath :: string
  RolesPath :: string
  ShutdownGrace :: int

text \<open>\<open>keepalive.ServerParameters\<close> and \<open>keepalive.EnforcementPolicy\<close>; zero means no limit.\<close>

record keepalive_config =
  MaxConnectionIdle :: int
  MaxConnectionAge :: int
  MaxConnectionAgeGrace :: int
  KeepaliveTime :: int
  KeepaliveTimeout :: int
  MinTime :: int
  PermitWithoutStream :: bool

record transport =
  tr_creds :: tls_config
  tr_interceptor :: interceptor
  tr_keepalive :: keepalive_config

definition newTransport :: "tls_config \<Rightarrow> authenticator \<Rightarrow> authorizer \<Rightarrow> logger \<Rightarrow> transport" where
  "newTransport tlsConfig authenticator authorizer lg =
     \<lparr>tr_creds = tlsConfig,
      tr_interceptor = NewInterceptor authenticator authorizer (Some lg),
      tr_keepalive =
        \<lparr>MaxConnectionIdle = 0, MaxConnectionAge = 0, MaxConnectionAgeGrace = 0,
         KeepaliveTime = keepaliveTime, KeepaliveTimeout = keepaliveTimeout,
         MinTime = keepaliveMinTime, PermitWithoutStream = False\<rparr>\<rparr>"

record server =
  srv_grpc :: transport
  srv_service :: service
  srv_listener :: string
  srv_shutdownGrace :: int
  srv_logger :: logger

text \<open>
  The records it logs, and the server; \<open>None\<close> when reading the trust bundle does not return. A listener
  is named by the address it got.
\<close>

definition New_server :: "externals \<Rightarrow> (string \<Rightarrow> string result) \<Rightarrow> int \<Rightarrow> server_config \<Rightarrow> logger option
    \<Rightarrow> (log_record list \<times> server result) option" where
  "New_server x listen now cfg lg0 =
     (if Address cfg = '''' then
        Some ([], Inl (Wrap1 ''new server: '' (Sentinel (SServer ErrEmptyAddress))))
      else
        (let lg = OrDiscard lg0;
             grace = (if ShutdownGrace cfg \<le> 0 then defaultShutdownGrace else ShutdownGrace cfg)
         in case NewAuthenticator x (CAPath cfg) (Some lg) of
              None \<Rightarrow> None
            | Some (logged, Inl err) \<Rightarrow> Some (logged, Inl (Wrap1 ''new server: '' err))
            | Some (logged, Inr authenticator) \<Rightarrow>
                Some (logged,
                  wrapping ''new server: '' (ServerConfig x now authenticator (CertPath cfg) (KeyPath cfg))
                    (\<lambda>tlsConfig.
                  wrapping ''new server: '' (Load x (RolesPath cfg)) (\<lambda>authorizer.
                  wrapping (''new server ['' @ Address cfg @ '']: '') (listen (Address cfg)) (\<lambda>listener.
                  Inr \<lparr>srv_grpc = newTransport tlsConfig authenticator authorizer lg,
                       srv_service = NewService (Some lg),
                       srv_listener = listener,
                       srv_shutdownGrace = grace,
                       srv_logger = lg\<rparr>))))))"

definition Addr :: "server \<Rightarrow> string" where "Addr s = srv_listener s"

text \<open>\<open>Close\<close>, given what closing the listener returned.\<close>

definition Close_server :: "go_error option \<Rightarrow> unit result" where
  "Close_server err =
     (case err of
        Some e \<Rightarrow> if \<not> errors_is e (SStd NetErrClosed) then Inl (Wrap1 ''close: '' e) else Inr ()
      | None \<Rightarrow> Inr ())"

section \<open>Serving\<close>

text \<open>The end of \<open>Serve\<close>: the transport's error, unless it says that the server was stopped.\<close>

definition serve_result :: "go_error option \<Rightarrow> bool \<Rightarrow> unit result" where
  "serve_result serveErr isDrained =
     (case serveErr of
        Some e \<Rightarrow>
          if \<not> errors_is e (SStd GrpcErrServerStopped) then Inl (Wrap1 ''serve: '' e)
          else if \<not> isDrained then Inl (Wrap1 ''serve: '' (Sentinel (SServer ErrShutdownGraceElapsed)))
          else Inr ()
      | None \<Rightarrow>
          if \<not> isDrained then Inl (Wrap1 ''serve: '' (Sentinel (SServer ErrShutdownGraceElapsed)))
          else Inr ())"

text \<open>
  \<open>Serve\<close> waits for the transport or the context; is in \<open>shutdown\<close>, with the transport's error when it
  has it already; has cut the streams off and waits for the drain to end; waits for the transport's
  error; has returned.
\<close>

datatype serve_pc =
    SelectServe
  | InShutdown "go_error option option"
  | AwaitStopped "go_error option option"
  | AwaitServed bool
  | ServeDone "unit result"

text \<open>The goroutine of \<open>shutdown\<close>: not started, about to stop the jobs, in \<open>Service.Shutdown\<close>, in
  \<open>GracefulStop\<close>, done.\<close>

datatype drain_pc = DrainIdle | DrainReady | DrainService nat | DrainTransport | DrainDone

record serving =
  sg_service :: service
  sg_main :: serve_pc
  sg_drain :: drain_pc
  sg_running :: bool
  sg_served :: "go_error option option"
  sg_ctxDone :: bool
  sg_stopCalled :: bool
  sg_log :: "log_record list"

datatype serve_event =
    EvService service_event
  | EvServed "go_error option"
  | EvCtxDone
  | EvTakeServed
  | EvTakeCtx
  | EvDrainBegin nat
  | EvJobsStopped
  | EvTransportStopped
  | EvStopped
  | EvGraceElapsed
  | EvAfterStop
  | EvAwait

text \<open>After \<open>shutdown\<close> has returned: \<open>Serve\<close> ends if it has the transport's error, else waits for it.\<close>

definition after_shutdown :: "bool \<Rightarrow> go_error option option \<Rightarrow> serve_pc" where
  "after_shutdown isDrained inHand =
     (case inHand of
        Some serveErr \<Rightarrow> ServeDone (serve_result serveErr isDrained)
      | None \<Rightarrow> AwaitServed isDrained)"

fun opens_call :: "service_event \<Rightarrow> bool" where
  "opens_call (OnStart k ctx now count) \<longleftrightarrow> True"
| "opens_call (OnStop k ctx jobID i) \<longleftrightarrow> True"
| "opens_call (OnGetStatus k ctx jobID) \<longleftrightarrow> True"
| "opens_call (OnStream k ctx jobID r) \<longleftrightarrow> True"
| "opens_call e \<longleftrightarrow> False"

text \<open>
  A transport that is stopping takes no new RPC. \<open>drained w cut\<close> says when \<open>GracefulStop\<close> may return in
  the state \<open>w\<close> of the service, \<open>cut\<close> being whether \<open>Stop\<close> was called.
\<close>

fun serve_step :: "(int \<Rightarrow> wire_duration) \<Rightarrow> (service \<Rightarrow> bool \<Rightarrow> bool) \<Rightarrow> server \<Rightarrow> serve_event \<Rightarrow> serving
    \<Rightarrow> serving option" where
  "serve_step dur drained srv (EvService e) g =
     (if opens_call e \<and> sg_drain g \<in> {DrainTransport, DrainDone} then None
      else map_option (\<lambda>w. g\<lparr>sg_service := w\<rparr>) (service_step dur e (sg_service g)))"
| "serve_step dur drained srv (EvServed err) g =
     (if sg_running g then Some (g\<lparr>sg_running := False, sg_served := Some err\<rparr>) else None)"
| "serve_step dur drained srv EvCtxDone g = Some (g\<lparr>sg_ctxDone := True\<rparr>)"
| "serve_step dur drained srv EvTakeServed g =
     (case (sg_main g, sg_served g) of
        (SelectServe, Some serveErr) \<Rightarrow>
          Some (g\<lparr>sg_main := InShutdown (Some serveErr), sg_served := None, sg_drain := DrainReady\<rparr>)
      | _ \<Rightarrow> None)"
| "serve_step dur drained srv EvTakeCtx g =
     (case sg_main g of
        SelectServe \<Rightarrow>
          if sg_ctxDone g then Some (g\<lparr>sg_main := InShutdown None, sg_drain := DrainReady\<rparr>) else None
      | _ \<Rightarrow> None)"
| "serve_step dur drained srv (EvDrainBegin k) g =
     (case sg_drain g of
        DrainReady \<Rightarrow>
          map_option (\<lambda>w. g\<lparr>sg_service := w, sg_drain := DrainService k\<rparr>)
            (Shutdown_service dur k (sg_service g))
      | _ \<Rightarrow> None)"
| "serve_step dur drained srv EvJobsStopped g =
     (case sg_drain g of
        DrainService k \<Rightarrow>
          if sh_shutdowns (svc_shop (sg_service g)) k = Some ShutReturned
          then Some (g\<lparr>sg_drain := DrainTransport\<rparr>) else None
      | _ \<Rightarrow> None)"
| "serve_step dur drained srv EvTransportStopped g =
     (case sg_drain g of
        DrainTransport \<Rightarrow>
          if drained (sg_service g) (sg_stopCalled g) then Some (g\<lparr>sg_drain := DrainDone\<rparr>) else None
      | _ \<Rightarrow> None)"
| "serve_step dur drained srv EvStopped g =
     (case (sg_main g, sg_drain g) of
        (InShutdown inHand, DrainDone) \<Rightarrow> Some (g\<lparr>sg_main := after_shutdown True inHand\<rparr>)
      | _ \<Rightarrow> None)"
| "serve_step dur drained srv EvGraceElapsed g =
     (case sg_main g of
        InShutdown inHand \<Rightarrow>
          Some (g\<lparr>sg_main := AwaitStopped inHand, sg_stopCalled := True,
                  sg_log := sg_log g @ log_attrs (srv_logger srv) LevelWarn
                    ''shutdown grace elapsed with streams still open''
                    [(''grace'', ADur (srv_shutdownGrace srv))]\<rparr>)
      | _ \<Rightarrow> None)"
| "serve_step dur drained srv EvAfterStop g =
     (case (sg_main g, sg_drain g) of
        (AwaitStopped inHand, DrainDone) \<Rightarrow> Some (g\<lparr>sg_main := after_shutdown False inHand\<rparr>)
      | _ \<Rightarrow> None)"
| "serve_step dur drained srv EvAwait g =
     (case (sg_main g, sg_served g) of
        (AwaitServed isDrained, Some serveErr) \<Rightarrow>
          Some (g\<lparr>sg_main := ServeDone (serve_result serveErr isDrained), sg_served := None\<rparr>)
      | _ \<Rightarrow> None)"

definition Serve :: "server \<Rightarrow> serving" where
  "Serve srv =
     \<lparr>sg_service = srv_service srv, sg_main = SelectServe, sg_drain = DrainIdle, sg_running = True,
      sg_served = None, sg_ctxDone = False, sg_stopCalled = False, sg_log = []\<rparr>"

section \<open>Lemmas\<close>

definition all_answered :: "service \<Rightarrow> bool" where
  "all_answered w \<longleftrightarrow> (\<forall>k c. svc_calls w k = Some c \<longrightarrow> (\<exists>sent r. c = Answered sent r))"

lemma map_option_SomeE: "map_option f m = Some y \<Longrightarrow> (\<And>z. m = Some z \<Longrightarrow> y = f z \<Longrightarrow> P) \<Longrightarrow> P"
  by (cases m) auto

lemma returned_move:
  "shop_move e s = Some t \<Longrightarrow> sh_shutdowns s k = Some ShutReturned \<Longrightarrow> sh_shutdowns t k = Some ShutReturned"
  by (cases e) (auto simp: set_job_def split: if_splits option.splits shutdown_pc.splits prod.splits)

text \<open>A service step is a step of its shop, a creation, or neither.\<close>

lemma call_step_shop:
  assumes "call_step dur e w = Some w'"
  shows "svc_shop w' = svc_shop w \<or> (\<exists>se. shop_move se (svc_shop w) = Some (svc_shop w'))
    \<or> (\<exists>st. svc_shop w' = (svc_shop w)\<lparr>sh_store := st\<rparr>)"
  using assms
  by (cases e)
     (auto simp del: shop_move.simps simp: Let_def
       split: if_splits option.splits prod.splits sum.splits call.splits stop_pc.splits revent.splits)

lemma returned_service_step:
  assumes "service_step dur e w = Some w'" and "sh_shutdowns (svc_shop w) k = Some ShutReturned"
  shows "sh_shutdowns (svc_shop w') k = Some ShutReturned"
  using call_step_shop [of dur e w w'] returned_move assms
  by (auto simp: service_step_def split: if_splits)

lemma all_answered_step:
  assumes "service_step dur e w = Some w'" and "\<not> opens_call e" and "all_answered w"
  shows "all_answered w'"
proof -
  have c: "call_step dur e w = Some w'" using assms(1) by (simp add: service_step_def split: if_splits)
  have ans: "\<exists>sent r. svc_calls w k = Some (Answered sent r)" if "svc_calls w k = Some c" for k c
    using assms(3) that by (auto simp: all_answered_def)
  show ?thesis
  proof (cases e)
    case (OnShop se)
    with c assms(3) show ?thesis by (auto simp: all_answered_def split: if_splits)
  qed (use c assms(2) ans in \<open>fastforce split: option.splits call.splits\<close>)+
qed

section \<open>The invariant of serving\<close>

text \<open>What is known at each place: of the jobs, of the calls, and of whether streams were cut off.\<close>

definition jobs_ended :: "service \<Rightarrow> bool" where
  "jobs_ended w \<longleftrightarrow> (\<exists>k. sh_shutdowns (svc_shop w) k = Some ShutReturned)"

fun main_inv :: "serve_pc \<Rightarrow> serving \<Rightarrow> bool" where
  "main_inv SelectServe g \<longleftrightarrow> \<not> sg_stopCalled g \<and> sg_drain g = DrainIdle"
| "main_inv (InShutdown inHand) g \<longleftrightarrow> \<not> sg_stopCalled g"
| "main_inv (AwaitStopped inHand) g \<longleftrightarrow> sg_stopCalled g"
| "main_inv (AwaitServed isDrained) g \<longleftrightarrow> sg_drain g = DrainDone \<and> sg_stopCalled g = (\<not> isDrained)"
| "main_inv (ServeDone r) g \<longleftrightarrow> sg_drain g = DrainDone
     \<and> (\<exists>serveErr. r = serve_result serveErr (\<not> sg_stopCalled g))"

definition serving_inv :: "(int \<Rightarrow> wire_duration) \<Rightarrow> serving \<Rightarrow> bool" where
  "serving_inv dur g \<longleftrightarrow> svc_inv dur (sg_service g) \<and> main_inv (sg_main g) g
     \<and> (sg_drain g \<in> {DrainTransport, DrainDone} \<longrightarrow> jobs_ended (sg_service g))
     \<and> (sg_drain g = DrainDone \<longrightarrow> \<not> sg_stopCalled g \<longrightarrow> all_answered (sg_service g))"

lemma serving_service_step:
  assumes inv: "serving_inv dur g" and step: "service_step dur e (sg_service g) = Some w"
    and e: "opens_call e \<longrightarrow> sg_drain g \<notin> {DrainTransport, DrainDone}"
  shows "serving_inv dur (g\<lparr>sg_service := w\<rparr>)"
proof -
  have "jobs_ended w" if "jobs_ended (sg_service g)"
    using that returned_service_step [OF step] by (auto simp: jobs_ended_def)
  moreover have "all_answered w" if "all_answered (sg_service g)" "sg_drain g = DrainDone"
    using that e all_answered_step [OF step] by blast
  moreover have "main_inv (sg_main g) (g\<lparr>sg_service := w\<rparr>)"
    using inv by (cases "sg_main g") (auto simp: serving_inv_def)
  ultimately show ?thesis
    using inv service.step_keeps [OF _ step] by (auto simp: serving_inv_def)
qed

lemma after_shutdown_inv:
  assumes "serving_inv dur g" and "sg_drain g = DrainDone"
    and "sg_main g = (if inTime then InShutdown inHand else AwaitStopped inHand)"
  shows "serving_inv dur (g\<lparr>sg_main := after_shutdown inTime inHand\<rparr>)"
  using assms by (cases inHand; cases inTime) (auto simp: serving_inv_def after_shutdown_def)

lemma serve_step_inv:
  assumes ok: "\<And>w. drained w False \<Longrightarrow> all_answered w"
    and inv: "serving_inv dur g" and step: "serve_step dur drained srv e g = Some g'"
  shows "serving_inv dur g'"
proof (cases e)
  case (EvService se)
  with step obtain w where w: "service_step dur se (sg_service g) = Some w" "g' = g\<lparr>sg_service := w\<rparr>"
    "opens_call se \<longrightarrow> sg_drain g \<notin> {DrainTransport, DrainDone}" by (auto split: if_splits)
  from serving_service_step [OF inv w(1,3)] w(2) show ?thesis by simp
next
  case (EvDrainBegin k)
  with step obtain w where d: "sg_drain g = DrainReady"
    and w: "service_step dur (OnShop (EvShutdown k)) (sg_service g) = Some w"
    and g': "g' = g\<lparr>sg_service := w, sg_drain := DrainService k\<rparr>"
    by (auto split: drain_pc.splits elim!: map_option_SomeE)
  from serving_service_step [OF inv w] have "serving_inv dur (g\<lparr>sg_service := w\<rparr>)" by simp
  then show ?thesis using d g' by (cases "sg_main g") (auto simp: serving_inv_def)
next
  case EvTransportStopped
  with step have g: "sg_drain g = DrainTransport" "drained (sg_service g) (sg_stopCalled g)"
    "g' = g\<lparr>sg_drain := DrainDone\<rparr>" by (auto split: drain_pc.splits if_splits)
  have "all_answered (sg_service g)" if "\<not> sg_stopCalled g" using ok g(2) that by auto
  with inv g show ?thesis by (cases "sg_main g") (auto simp: serving_inv_def)
next
  case EvJobsStopped
  with inv step show ?thesis
    by (cases "sg_main g") (auto simp: serving_inv_def jobs_ended_def split: drain_pc.splits if_splits)
next
  case (EvServed err)
  with inv step show ?thesis by (cases "sg_main g") (auto simp: serving_inv_def split: if_splits)
next
  case EvCtxDone
  with inv step show ?thesis by (cases "sg_main g") (auto simp: serving_inv_def)
next
  case EvTakeServed
  with inv step show ?thesis by (auto simp: serving_inv_def split: serve_pc.splits option.splits)
next
  case EvTakeCtx
  with inv step show ?thesis by (auto simp: serving_inv_def split: serve_pc.splits if_splits)
next
  case EvStopped
  with step obtain inHand where m: "sg_main g = InShutdown inHand" "sg_drain g = DrainDone"
    "g' = g\<lparr>sg_main := after_shutdown True inHand\<rparr>" by (auto split: serve_pc.splits drain_pc.splits)
  with after_shutdown_inv [OF inv m(2), of True] show ?thesis by simp
next
  case EvGraceElapsed
  with inv step show ?thesis by (auto simp: serving_inv_def split: serve_pc.splits)
next
  case EvAfterStop
  with step obtain inHand where m: "sg_main g = AwaitStopped inHand" "sg_drain g = DrainDone"
    "g' = g\<lparr>sg_main := after_shutdown False inHand\<rparr>" by (auto split: serve_pc.splits drain_pc.splits)
  with after_shutdown_inv [OF inv m(2), of False] show ?thesis by simp
next
  case EvAwait
  with inv step show ?thesis by (auto simp: serving_inv_def split: serve_pc.splits option.splits)
qed

lemma Serve_inv: "svc_inv dur (srv_service srv) \<Longrightarrow> serving_inv dur (Serve srv)"
  by (simp add: serving_inv_def Serve_def)

text \<open>
  The documented behaviour of \<open>grpc.Server.GracefulStop\<close>: it blocks until all pending RPCs are
  finished, and \<open>Stop\<close>, which cancels them, makes it return.
\<close>

definition graceful_stop :: "(service \<Rightarrow> bool \<Rightarrow> bool) \<Rightarrow> bool" where
  "graceful_stop drained \<longleftrightarrow> (\<forall>w. (drained w False \<longrightarrow> all_answered w) \<and> drained w True)"

interpretation serving: invariant_steps "serve_step dur drained srv"
    "\<lambda>g. graceful_stop drained \<longrightarrow> serving_inv dur g" for dur drained srv
proof unfold_locales
  fix g e g'
  assume inv: "graceful_stop drained \<longrightarrow> serving_inv dur g" and step: "serve_step dur drained srv e g = Some g'"
  show "graceful_stop drained \<longrightarrow> serving_inv dur g'"
  proof
    assume ok: "graceful_stop drained"
    show "serving_inv dur g'"
      by (rule serve_step_inv [OF _ _ step]) (use ok inv in \<open>auto simp: graceful_stop_def\<close>)
  qed
qed

lemma serving_reaches:
  assumes "graceful_stop drained" and "reaches (serve_step dur drained srv) g0 g" and "serving_inv dur g0"
  shows "serving_inv dur g"
  using serving.reaches_keeps [OF assms(2)] assms(1,3) by blast

lemma New_server_service:
  "New_server x listen now cfg lg = Some (logged, Inr srv) \<Longrightarrow> \<exists>lg'. srv_service srv = NewService lg'"
  by (auto simp: New_server_def Let_def result_simps split: if_splits option.splits sum.splits
      intro!: exI [of _ "Some (OrDiscard lg)"])

lemma Serve_end:
  assumes "graceful_stop drained" and "New_server x listen now cfg lg = Some (logged, Inr srv)"
    and "reaches (serve_step dur drained srv) (Serve srv) g" and "sg_main g = ServeDone r"
  shows "(\<forall>p<length (svc_jobs (sg_service g)). Status (js_job (svc_jobs (sg_service g) ! p)) \<noteq> StatusRunning)
    \<and> (case r of
         Inr u \<Rightarrow> \<not> sg_stopCalled g \<and> all_answered (sg_service g)
       | Inl e \<Rightarrow> sg_stopCalled g \<and> e = Wrap1 ''serve: '' (Sentinel (SServer ErrShutdownGraceElapsed))
           \<or> (\<exists>err. e = Wrap1 ''serve: '' err \<and> \<not> errors_is err (SStd GrpcErrServerStopped)))"
proof -
  obtain lg' where "srv_service srv = NewService lg'" using New_server_service [OF assms(2)] by blast
  then have "svc_inv dur (srv_service srv)" by (simp add: NewService_inv)
  from serving_reaches [OF assms(1,3) Serve_inv [OF this]] have inv: "serving_inv dur g" .
  with assms(4) obtain serveErr where g: "sg_drain g = DrainDone" "jobs_ended (sg_service g)"
    "\<not> sg_stopCalled g \<longrightarrow> all_answered (sg_service g)" "svc_inv dur (sg_service g)"
    and r: "r = serve_result serveErr (\<not> sg_stopCalled g)" by (auto simp: serving_inv_def)
  obtain k where "sh_shutdowns (svc_shop (sg_service g)) k = Some ShutReturned"
    using g(2) by (auto simp: jobs_ended_def)
  then have "shut_inv (svc_shop (sg_service g)) ShutReturned"
    using g(4) by (auto simp: svc_inv_def shop_inv_def)
  then have "\<forall>p<length (svc_jobs (sg_service g)). Status (js_job (svc_jobs (sg_service g) ! p)) \<noteq> StatusRunning"
    by (simp add: shut_inv_def Status_def)
  moreover have "case r of
         Inr u \<Rightarrow> \<not> sg_stopCalled g \<and> all_answered (sg_service g)
       | Inl e \<Rightarrow> sg_stopCalled g \<and> e = Wrap1 ''serve: '' (Sentinel (SServer ErrShutdownGraceElapsed))
           \<or> (\<exists>err. e = Wrap1 ''serve: '' err \<and> \<not> errors_is err (SStd GrpcErrServerStopped))"
    using g(3) by (auto simp: r serve_result_def split: option.splits)
  ultimately show ?thesis by blast
qed

section \<open>What a run has seen\<close>

text \<open>
  The transport returns at most once in a run, and what it returned waits in the channel, is in hand or has
  been reported; the grace elapses at most once, with its line. This is read off the events of the run.
\<close>

fun in_hand :: "serve_pc \<Rightarrow> go_error option option" where
  "in_hand (InShutdown served) = served"
| "in_hand (AwaitStopped served) = served"
| "in_hand pc = None"

definition grace_line :: "server \<Rightarrow> log_record list" where
  "grace_line srv = log_attrs (srv_logger srv) LevelWarn ''shutdown grace elapsed with streams still open''
     [(''grace'', ADur (srv_shutdownGrace srv))]"

fun transport_seen :: "serve_pc \<Rightarrow> go_error option set \<Rightarrow> serving \<Rightarrow> bool" where
  "transport_seen (ServeDone r) returned g \<longleftrightarrow>
     \<not> sg_running g \<and> (\<exists>served. returned = {served} \<and> r = serve_result served (\<not> sg_stopCalled g))"
| "transport_seen pc returned g \<longleftrightarrow>
     (if sg_running g then returned = {} \<and> sg_served g = None \<and> in_hand pc = None
      else \<exists>served. returned = {served}
        \<and> (sg_served g = Some served \<and> in_hand pc = None \<or> sg_served g = None \<and> in_hand pc = Some served))"

definition seen :: "server \<Rightarrow> go_error option set \<Rightarrow> bool \<Rightarrow> serving \<Rightarrow> bool" where
  "seen srv returned elapsed g \<longleftrightarrow> transport_seen (sg_main g) returned g \<and> sg_stopCalled g = elapsed
     \<and> sg_log g = (if elapsed then grace_line srv else [])"

lemma seen_step:
  assumes seen: "seen srv returned elapsed g" and inv: "main_inv (sg_main g) g"
    and step: "serve_step dur drained srv e g = Some g'"
  shows "seen srv (case e of EvServed err \<Rightarrow> insert err returned | _ \<Rightarrow> returned)
    (elapsed \<or> e = EvGraceElapsed) g'"
proof (cases e)
  case (EvService a)
  with seen step show ?thesis
    by (cases "sg_main g") (auto simp: seen_def split: if_splits elim!: map_option_SomeE)
next
  case (EvServed err)
  with seen step show ?thesis by (cases "sg_main g") (auto simp: seen_def split: if_splits)
next
  case (EvDrainBegin k)
  with seen step show ?thesis
    by (cases "sg_main g") (auto simp: seen_def split: drain_pc.splits elim!: map_option_SomeE)
next
  case EvJobsStopped
  with seen step show ?thesis
    by (cases "sg_main g") (auto simp: seen_def split: drain_pc.splits if_splits)
next
  case EvTransportStopped
  with seen step show ?thesis
    by (cases "sg_main g") (auto simp: seen_def split: drain_pc.splits if_splits)
next
  case EvTakeServed
  with seen step show ?thesis by (auto simp: seen_def split: serve_pc.splits option.splits if_splits)
next
  case EvTakeCtx
  with seen step show ?thesis by (auto simp: seen_def split: serve_pc.splits if_splits)
next
  case EvStopped
  with seen step inv show ?thesis
    by (auto simp: seen_def after_shutdown_def split: serve_pc.splits drain_pc.splits option.splits if_splits)
next
  case EvGraceElapsed
  with seen step inv show ?thesis by (auto simp: seen_def grace_line_def split: serve_pc.splits if_splits)
next
  case EvAfterStop
  with seen step inv show ?thesis
    by (auto simp: seen_def after_shutdown_def split: serve_pc.splits drain_pc.splits option.splits if_splits)
next
  case EvAwait
  with seen step inv show ?thesis by (auto simp: seen_def split: serve_pc.splits option.splits if_splits)
qed (use seen step in \<open>cases "sg_main g"; auto simp: seen_def\<close>)

lemma returned_snoc:
  "{err. EvServed err \<in> set (es @ [e])} =
     (case e of EvServed err \<Rightarrow> insert err {err. EvServed err \<in> set es} | _ \<Rightarrow> {err. EvServed err \<in> set es})"
  by (cases e) auto

lemma elapsed_snoc:
  "(EvGraceElapsed \<in> set (es @ [e])) = (EvGraceElapsed \<in> set es \<or> e = EvGraceElapsed)"
  by auto

lemma seen_run:
  assumes "graceful_stop drained" and "svc_inv dur (srv_service srv)"
    and "run_events (serve_step dur drained srv) es (Serve srv) = Some g"
  shows "seen srv {err. EvServed err \<in> set es} (EvGraceElapsed \<in> set es) g \<and> serving_inv dur g"
  using assms(3)
proof (induction es arbitrary: g rule: rev_induct)
  case Nil
  with Serve_inv [OF assms(2)] show ?case by (auto simp: seen_def Serve_def)
next
  case (snoc e es)
  then obtain h where h: "run_events (serve_step dur drained srv) es (Serve srv) = Some h"
    and step: "serve_step dur drained srv e h = Some g"
    by (auto simp: run_events_append simp del: serve_step.simps split: option.splits)
  from snoc.IH [OF h] have IH: "seen srv {err. EvServed err \<in> set es} (EvGraceElapsed \<in> set es) h"
    "serving_inv dur h" by simp_all
  then have "main_inv (sg_main h) h" by (simp add: serving_inv_def)
  from seen_step [OF IH(1) this step] serving.step_keeps [OF _ step] IH(2) assms(1) show ?case
    unfolding returned_snoc elapsed_snoc by blast
qed

text \<open>The transport failed by itself: it returned an error, and not that the server was stopped.\<close>

definition failed_by_itself :: "go_error option \<Rightarrow> bool" where
  "failed_by_itself served \<longleftrightarrow> (\<exists>e. served = Some e \<and> \<not> errors_is e (SStd GrpcErrServerStopped))"

lemma serve_result_cases:
  "serve_result served isDrained =
     (if failed_by_itself served then Inl (Wrap1 ''serve: '' (the served))
      else if isDrained then Inr ()
      else Inl (Wrap1 ''serve: '' (Sentinel (SServer ErrShutdownGraceElapsed))))"
  by (auto simp: serve_result_def failed_by_itself_def split: option.split)

lemma Serve_end_run:
  assumes "graceful_stop drained" and "New_server x listen now cfg lg = Some (logged, Inr srv)"
    and "run_events (serve_step dur drained srv) es (Serve srv) = Some g" and "sg_main g = ServeDone r"
  shows "(\<exists>served. {err. EvServed err \<in> set es} = {served}
      \<and> r = (if failed_by_itself served then Inl (Wrap1 ''serve: '' (the served))
             else if EvGraceElapsed \<in> set es then Inl (Wrap1 ''serve: '' (Sentinel (SServer ErrShutdownGraceElapsed)))
             else Inr ()))
    \<and> sg_stopCalled g = (EvGraceElapsed \<in> set es)
    \<and> sg_log g = (if EvGraceElapsed \<in> set es then grace_line srv else [])
    \<and> (EvGraceElapsed \<in> set es \<or> all_answered (sg_service g))"
proof -
  obtain lg' where "srv_service srv = NewService lg'" using New_server_service [OF assms(2)] by blast
  then have "svc_inv dur (srv_service srv)" by (simp add: NewService_inv)
  from seen_run [OF assms(1) this assms(3)] have s: "seen srv {err. EvServed err \<in> set es} (EvGraceElapsed \<in> set es) g" and inv: "serving_inv dur g" by simp_all
  from inv assms(4) s have "EvGraceElapsed \<in> set es \<or> all_answered (sg_service g)"
    by (auto simp: serving_inv_def seen_def)
  with s assms(4) show ?thesis by (auto simp: seen_def serve_result_cases)
qed

section \<open>Properties\<close>

text \<open>
  C18. How \<open>Serve\<close> ends, by what happened in the run. Whatever it returns, every job of the service has
  reached its end by then, and the transport has returned, once. If the transport failed by itself, that
  is with an error that does not say that the server was stopped, \<open>Serve\<close> returns that error, wrapped. Otherwise it
  returns ErrShutdownGraceElapsed exactly when the grace ran out, and nil exactly when it did not. Unless
  the grace ran out, every RPC was answered before the transport stopped, none of them cut off.
\<close>

theorem Serve_ends_every_job:
  assumes "graceful_stop drained" and "New_server x listen now cfg lg = Some (logged, Inr srv)"
    and "run_events (serve_step dur drained srv) es (Serve srv) = Some g" and "sg_main g = ServeDone r"
  shows "(\<forall>p<length (svc_jobs (sg_service g)). Status (js_job (svc_jobs (sg_service g) ! p)) \<noteq> StatusRunning)
    \<and> (\<exists>served. {err. EvServed err \<in> set es} = {served}
        \<and> r = (if \<exists>e. served = Some e \<and> \<not> errors_is e (SStd GrpcErrServerStopped)
               then Inl (Wrap1 ''serve: '' (the served))
               else if EvGraceElapsed \<in> set es
               then Inl (Wrap1 ''serve: '' (Sentinel (SServer ErrShutdownGraceElapsed)))
               else Inr ()))
    \<and> (if EvGraceElapsed \<in> set es then sg_stopCalled g
       else \<not> sg_stopCalled g \<and> all_answered (sg_service g))"
  using Serve_end [OF assms(1,2) reaches_run [OF reaches_start assms(3)] assms(4)]
    Serve_end_run [OF assms, unfolded failed_by_itself_def] by auto

text \<open>A server on the sample parameters, and a run of it to the end, for the witness.\<close>

definition sample_config :: server_config where
  "sample_config =
     \<lparr>Address = ''localhost:8443'', CAPath = ''ca.crt'', CertPath = ''server.crt'', KeyPath = ''server.key'',
      RolesPath = ''roles.json'', ShutdownGrace = 0\<rparr>"

lemma sample_server_exists:
  "\<exists>srv. New_server sample_externals Inr 10 sample_config lg =
    Some (auditTrustBundle (sample_auth (OrDiscard lg)) ''ca.crt''
             \<lparr>bundle_roots = [sample_root ''A''], bundle_earliestExpiry = 5000\<rparr>, Inr srv)"
proof -
  obtain c where "ServerConfig sample_externals 10 (sample_auth (OrDiscard lg)) ''server.crt'' ''server.key'' = Inr c"
    using sample_tls_configs by (auto simp: is_ok_conv)
  moreover have "is_ok (Load sample_externals ''roles.json'')" by code_simp
  then obtain z where "Load sample_externals ''roles.json'' = Inr z" by (auto simp: is_ok_conv)
  moreover have "OrDiscard (Some (OrDiscard lg)) = OrDiscard lg" by (simp add: OrDiscard_def)
  ultimately show ?thesis
    by (simp add: New_server_def sample_config_def sample_authenticator Let_def)
qed

text \<open>The context ends, the shutdown finds no job, and the transport stops without an error.\<close>

definition sample_serve :: "serve_event list" where
  "sample_serve =
     [EvCtxDone, EvTakeCtx, EvDrainBegin 0, EvService (OnShop (EvWait 0)), EvJobsStopped,
      EvTransportStopped, EvStopped, EvServed None, EvAwait]"

definition cut_or_answered :: "service \<Rightarrow> bool \<Rightarrow> bool" where
  "cut_or_answered w isCut \<longleftrightarrow> isCut \<or> all_answered w"

lemma sample_serve_run:
  assumes "srv_service srv = NewService lg"
  shows "\<exists>g. run_events (serve_step dur cut_or_answered srv) sample_serve (Serve srv) = Some g
    \<and> sg_main g = ServeDone (Inr ())"
  by (simp add: sample_serve_def Serve_def assms NewService_def open_shop_def New_registry_def
      service_step_def live_jobs_def Shutdown_snapshot_def cut_or_answered_def all_answered_def
      after_shutdown_def serve_result_def)

theorem Serve_ends_every_job_witness:
  "\<exists>srv (g :: serving). New_server sample_externals Inr 10 sample_config None = Some ([], Inr srv)
    \<and> sg_main g = ServeDone (Inr ()) \<and> \<not> sg_stopCalled g \<and> all_answered (sg_service g)"
proof -
  obtain srv where srv: "New_server sample_externals Inr 10 sample_config None = Some ([], Inr srv)"
    using sample_server_exists [of None] by (auto simp: OrDiscard_def discard_logger_def audit_discarded)
  obtain lg where lg: "srv_service srv = NewService lg" using New_server_service [OF srv] by blast
  obtain g where g: "run_events (serve_step (\<lambda>d. \<lparr>wire_seconds = 0, wire_nanos = d\<rparr>) cut_or_answered srv)
      sample_serve (Serve srv) = Some g" "sg_main g = ServeDone (Inr ())"
    using sample_serve_run [OF lg] by blast
  have "graceful_stop cut_or_answered" by (simp add: graceful_stop_def cut_or_answered_def)
  from Serve_ends_every_job [OF this srv g]
  have "\<not> sg_stopCalled g \<and> all_answered (sg_service g)" by (simp add: sample_serve_def)
  with srv g(2) show ?thesis by blast
qed

end
