(* ===== verification/Service_Props.thy ===== *)
theory Service_Props
  imports Service_Inv
begin

text \<open>
  What the service promises the caller of an RPC, in every state it can reach: which code \<open>Start\<close>
  answers, that an agent learns nothing of another's jobs, what a status answer says of the job, and
  what a stream has delivered when it ends.
\<close>

section \<open>A run to look at\<close>

text \<open>
  Two agents: ann starts a job of one count and streams it, bob asks for it in vain, the job completes
  and ann's stream is served; then ann stops the job that has ended.
\<close>

definition sample_dur :: "int \<Rightarrow> wire_duration" where
  "sample_dur ns = \<lparr>wire_seconds = ns div 1000000000, wire_nanos = ns mod 1000000000\<rparr>"

definition sample_calls :: "service_event list" where
  "sample_calls =
     [OnStart 0 (Some ''ann'') 0 1, OnStream 1 (Some ''ann'') ''ann/0'' 0,
      OnShop (EvJob 0 (Worker EvReport)), OnRead 1 RdSnapshot, OnSend 1 None,
      OnShop (EvJob 0 (Worker (EvDraw 0))), OnShop (EvJob 0 (Worker EvTimer)),
      OnShop (EvJob 0 (Worker EvFinish)), OnShop (EvJob 0 (Worker EvAudit)),
      OnShop (EvJob 0 (Worker EvCloseFinished)), OnShop (EvJob 0 (Worker EvDeferCancel)),
      OnRead 1 RdBatchEnd, OnRead 1 RdSnapshot, OnSend 1 None,
      OnStop 2 (Some ''ann'') ''ann/0'' 0, OnShop (EvJob 0 (StepStop 0)), OnShop (EvJob 0 (StepStop 0))]"

definition sample_service :: service where
  "sample_service = the (run_events (service_step sample_dur) sample_calls (NewService None))"

lemmas service_evals = shop_evals sample_run_defs service_step_def NewService_def Start_def findJob_def
  service_agentID_def answer_def stream_line_def stream_closed_def status_attr_def next_tick_def
  reader_ended_def protoTick_def protoStatus_def protoFailure_def Find_def record_find_def set_job_def
  of_int32_def

lemma sample_service_run:
  "run_events (service_step sample_dur) sample_calls (NewService None) = Some sample_service"
  by (simp add: sample_service_def sample_calls_def service_evals)

lemma sample_service_reaches: "reaches (service_step sample_dur) (NewService None) sample_service"
  by (rule reaches_run [OF reaches_start sample_service_run])
lemma sample_service_facts:
  "svc_calls sample_service 1 = Some (Streaming ''ann'' 0 0
     [Some (Tick_Progress \<lparr>wire_seconds = 0, wire_nanos = 0\<rparr> 1),
      Some (Tick_Progress \<lparr>wire_seconds = 0, wire_nanos = 0\<rparr> 0)])"
  "svc_calls sample_service 2 = Some (Stopping 0 0)"
  "Find ''ann'' ''ann/0'' (svc_registry sample_service) = Some 0"
  "js_stops (svc_jobs sample_service ! 0) 0 = Some (StopReturned StatusCompleted)"
  "Status (js_job (svc_jobs sample_service ! 0)) = StatusCompleted"
  "reg_isAcceptingJobs (svc_registry sample_service)"
  by (simp_all add: sample_service_def sample_calls_def service_evals sample_dur_def to_int32_def)

lemma sample_service_steps:
  "service_step sample_dur (OnStreamEnd 1) sample_service \<noteq> None"
  "service_step sample_dur (OnStopAnswer 2) sample_service \<noteq> None"
  "service_step sample_dur (OnGetStatus 3 (Some ''bob'') ''ann/0'') sample_service \<noteq> None"
  by (simp_all add: sample_service_def sample_calls_def service_evals sample_dur_def to_int32_def)

section \<open>Lemmas\<close>

lemma other_agent_unknown:
  assumes "svc_inv dur w" and "Find a jobID (svc_registry w) = Some p" and "a \<noteq> b"
  shows "Find b jobID (svc_registry w) = None"
proof (rule ccontr)
  assume "Find b jobID (svc_registry w) \<noteq> None"
  then obtain q where "Find b jobID (svc_registry w) = Some q" by auto
  moreover have "store_inv (sh_store (svc_shop w))" using assms(1) by (simp add: svc_inv_def shop_inv_def)
  ultimately show False using Find_owner(1) assms(2,3) by blast
qed

lemma stream_reader:
  assumes inv: "svc_inv dur w" and c: "svc_calls w k = Some (Streaming a p r sent)"
  obtains rd where "p < length (svc_jobs w)" "js_readers (svc_jobs w ! p) r = Some rd"
    "sent = map (sent_tick dur) (rd_delivered rd)" "sys_inv (svc_jobs w ! p)"
    "reader_inv (js_job (svc_jobs w ! p)) rd" "\<exists>jobID. Find a jobID (svc_registry w) = Some p"
proof -
  have "call_inv dur (svc_shop w) (Streaming a p r sent)" using inv c by (simp add: svc_inv_def)
  then obtain rd where rd: "p < length (svc_jobs w)" "js_readers (svc_jobs w ! p) r = Some rd"
    "sent = map (sent_tick dur) (rd_delivered rd)" "\<exists>jobID. Find a jobID (svc_registry w) = Some p"
    by (auto simp: call_inv_def)
  have sys: "sys_inv (svc_jobs w ! p)" using inv rd(1) by (simp add: svc_inv_def shop_inv_def store_inv_def)
  show ?thesis by (rule that [OF rd(1-3) sys sys_invD(2) [OF sys rd(2)] rd(4)])
qed

lemma reader_inv_take: "reader_inv j rd \<Longrightarrow> \<exists>n. rd_delivered rd = take n (job_ticks j)"
  by (cases "rd_pc rd") (auto simp: reader_inv_def split: done_reason.splits intro: exI [of _ "length (job_ticks j)"])

text \<open>
  Which answer \<open>Start\<close> gives, in every state the service can reach: Internal without an agent in
  the context, Unavailable once a shutdown was called, InvalidArgument for a count outside 1 to 100 as
  the wire carries it, each without starting a job or logging an internal error; otherwise the id of a
  job that is registered for the agent and running when the answer is given. The branch for any other
  error of the registry is never taken.
\<close>

lemma Start_table:
  assumes "reaches (service_step dur) (NewService lg) w"
  shows "case Start (svc_logger w) now ctx count (sh_store (svc_shop w)) of (s', logged, r) \<Rightarrow>
    (case ctx of
       None \<Rightarrow> s' = sh_store (svc_shop w) \<and> r = Inl (StatusErr CodeInternal ''internal error'')
     | Some a \<Rightarrow> logged = [] \<and>
         (if \<not> reg_isAcceptingJobs (svc_registry w)
          then s' = sh_store (svc_shop w) \<and> r = Inl (StatusErr CodeUnavailable ''unavailable'')
          else if of_int32 count < 1 \<or> 100 < of_int32 count
          then s' = sh_store (svc_shop w)
             \<and> r = Inl (StatusErr CodeInvalidArgument ''count must be between 1 and 100'')
          else (\<exists>jobID p. r = Inr (StartResponse jobID) \<and> Find a jobID (st_registry s') = Some p
             \<and> Status (js_job (st_jobs s' ! p)) = StatusRunning)))"
proof (cases ctx)
  case None
  then show ?thesis by (simp add: Start_def service_agentID_def internalErrorMessage_def)
next
  case (Some a)
  have inv: "store_inv (sh_store (svc_shop w))"
    using reachable_service [OF assms] by (simp add: svc_inv_def shop_inv_def)
  obtain s' r where c: "Create None now a (of_int32 count) (sh_store (svc_shop w)) = (s', r)" by force
  have msg: "show_int 100 = ''100''"
    by (simp add: show_int_base_def show_base.simps digit_char_values)
  show ?thesis
  proof (cases r)
    case (Inl e)
    from c [unfolded Inl] show ?thesis
      by (cases rule: Create_cases)
         (auto simp: Some Start_def service_agentID_def c Inl msg MaxCount_def)
  next
    case (Inr jobID)
    show ?thesis
      by (rule Create_ok [OF inv c [unfolded Inr]])
         (simp add: Some Start_def service_agentID_def c Inr MaxCount_def Status_def nth_append)
  qed
qed

section \<open>Properties\<close>

text \<open>
  C2. An agent learns nothing of another's job: asked to stop, report or stream a job that is another
  agent's, the service answers NotFound, just as for an id that names no job, and changes nothing but
  its log and that answer.
\<close>

theorem others_jobs_not_found:
  assumes "reaches (service_step dur) (NewService lg) w"
    and "Find a jobID (svc_registry w) = Some p \<and> a \<noteq> b \<or> (\<forall>a. Find a jobID (svc_registry w) = None)"
    and "e \<in> {OnStop k (Some b) jobID i, OnGetStatus k (Some b) jobID, OnStream k (Some b) jobID r}"
    and "service_step dur e w = Some w'"
  shows "svc_shop w' = svc_shop w
    \<and> svc_calls w' = (svc_calls w)(k \<mapsto> Answered [] (Inl (StatusErr CodeNotFound ''job not found'')))"
proof -
  have "Find b jobID (svc_registry w) = None"
    using assms(2) other_agent_unknown [OF reachable_service [OF assms(1)]] by blast
  with assms(3,4) show ?thesis
    by (auto simp: service_step_def findJob_def service_agentID_def split: if_splits)
qed

theorem others_jobs_not_found_witness:
  "\<exists>w'. service_step sample_dur (OnGetStatus 3 (Some ''bob'') ''ann/0'') sample_service = Some w'
    \<and> svc_calls w' 3 = Some (Answered [] (Inl (StatusErr CodeNotFound ''job not found'')))"
proof -
  obtain w' where w': "service_step sample_dur (OnGetStatus 3 (Some ''bob'') ''ann/0'') sample_service = Some w'"
    using sample_service_steps(3) by auto
  have own: "Find ''ann'' ''ann/0'' (svc_registry sample_service) = Some 0 \<and> ''ann'' \<noteq> ''bob''
      \<or> (\<forall>a. Find a ''ann/0'' (svc_registry sample_service) = None)"
    using sample_service_facts(3) by simp
  from others_jobs_not_found [OF sample_service_reaches own _ w'] w' show ?thesis by auto
qed

text \<open>
  What \<open>Stop\<close> answers. Once the call of \<open>Job.Stop\<close> behind an RPC has returned, the answer is the
  job's own status, it is COMPLETED, STOPPED or FAILED, and the job has ended for good; and no answer
  the service has given to \<open>Stop\<close> or \<open>GetStatus\<close> carries STATUS_UNSPECIFIED.
\<close>

lemma Stop_answers_final_status:
  assumes "reaches (service_step dur) (NewService lg) w" and "svc_calls w k = Some (Stopping p i)"
    and "service_step dur (OnStopAnswer k) w = Some w'"
  shows "\<exists>ws. svc_calls w' k = Some (Answered [] (Inr (Some (StopResponse ws))))
    \<and> (case Status (js_job (svc_jobs w ! p)) of
         StatusRunning \<Rightarrow> False
       | StatusCompleted \<Rightarrow> ws = STATUS_COMPLETED
       | StatusStopped \<Rightarrow> ws = STATUS_STOPPED
       | StatusFailed \<Rightarrow> ws = STATUS_FAILED)
    \<and> (\<forall>l sent res. svc_calls w l = Some (Answered sent res) \<longrightarrow> response_ok res)"
proof -
  have inv: "svc_inv dur w" by (rule reachable_service [OF assms(1)])
  have ok: "\<forall>l sent res. svc_calls w l = Some (Answered sent res) \<longrightarrow> response_ok res"
  proof (intro allI impI)
    fix l sent res assume "svc_calls w l = Some (Answered sent res)"
    with inv have "call_inv dur (svc_shop w) (Answered sent res)" unfolding svc_inv_def by blast
    then show "response_ok res" by (simp add: call_inv_def)
  qed
  obtain st where st: "js_stops (svc_jobs w ! p) i = Some (StopReturned st)"
    using assms(2,3) by (auto simp: service_step_def split: if_splits option.splits stop_pc.splits)
  have "call_inv dur (svc_shop w) (Stopping p i)" using inv assms(2) by (simp add: svc_inv_def)
  then have "sys_inv (svc_jobs w ! p)" using inv by (simp add: call_inv_def svc_inv_def shop_inv_def store_inv_def)
  from sys_invD(3) [OF this st] have s: "st = Status (js_job (svc_jobs w ! p))" "st \<noteq> StatusRunning"
    by (auto simp: stop_inv_def Status_def)
  have w': "svc_calls w' k = Some (Answered []
      (Inr (Some (StopResponse (snd (protoStatus (svc_logger w) (status_text st)))))))"
    using assms(2,3) st by (auto simp: service_step_def split: if_splits prod.splits)
  show ?thesis
    using s w' ok by (cases st) (auto simp: protoStatus_def)
qed

text \<open>
  C24. What a stream delivers. At any moment it has handed to \<open>Send\<close> the first ticks of a job its agent
  owns, in order and converted one by one; and when it ends without an error, either it has delivered
  every tick of a job that has ended, the terminal one last and only once, or its own context ended.
\<close>

theorem stream_delivers:
  assumes "reaches (service_step dur) (NewService lg) w"
    and "svc_calls w k = Some (Streaming a p r sent)"
  shows "(\<exists>jobID. Find a jobID (svc_registry w) = Some p)
    \<and> (\<exists>n. sent = map (sent_tick dur) (take n (job_ticks (js_job (svc_jobs w ! p)))))
    \<and> (\<forall>w'. service_step dur (OnStreamEnd k) w = Some w' \<longrightarrow>
         svc_calls w' k = Some (Answered sent (Inr None))
         \<and> (sent = map (sent_tick dur) (job_ticks (js_job (svc_jobs w ! p)))
              \<and> Status (js_job (svc_jobs w ! p)) \<noteq> StatusRunning
            \<or> map_option rd_pc (js_readers (svc_jobs w ! p) r) = Some (RDone ByContext)))"
proof (rule stream_reader [OF reachable_service [OF assms(1)] assms(2)])
  fix rd
  assume rd: "js_readers (svc_jobs w ! p) r = Some rd" "sent = map (sent_tick dur) (rd_delivered rd)"
    "reader_inv (js_job (svc_jobs w ! p)) rd" and own: "\<exists>jobID. Find a jobID (svc_registry w) = Some p"
  have "\<exists>n. sent = map (sent_tick dur) (take n (job_ticks (js_job (svc_jobs w ! p))))"
    using reader_inv_take [OF rd(3)] rd(2) by metis
  moreover have "svc_calls w' k = Some (Answered sent (Inr None))
         \<and> (sent = map (sent_tick dur) (job_ticks (js_job (svc_jobs w ! p)))
              \<and> Status (js_job (svc_jobs w ! p)) \<noteq> StatusRunning
            \<or> map_option rd_pc (js_readers (svc_jobs w ! p) r) = Some (RDone ByContext))"
    if "service_step dur (OnStreamEnd k) w = Some w'" for w'
    using that assms(2) rd
    by (auto simp: service_step_def reader_ended_def reader_inv_def Status_def split: if_splits)
  ultimately show ?thesis using own by blast
qed

theorem stream_delivers_witness:
  "\<exists>w'. service_step sample_dur (OnStreamEnd 1) sample_service = Some w'
    \<and> svc_calls w' 1 = Some (Answered [Some (Tick_Progress \<lparr>wire_seconds = 0, wire_nanos = 0\<rparr> 1),
      Some (Tick_Progress \<lparr>wire_seconds = 0, wire_nanos = 0\<rparr> 0)] (Inr None))"
proof -
  obtain w' where w': "service_step sample_dur (OnStreamEnd 1) sample_service = Some w'"
    using sample_service_steps(1) by auto
  with stream_delivers [OF sample_service_reaches sample_service_facts(1)] show ?thesis by blast
qed

end
