(* ===== verification/Drain.thy ===== *)
theory Drain
  imports Server Service_Props
begin

text \<open>
  The way down. Every RPC that is pending is answered, and \<open>Serve\<close>, once it is told to stop, returns,
  by the steps of the goroutines that are there already: no further call, no panic, no cancellation from
  outside and, for as long as the grace lasts, no stream cut off.
\<close>

section \<open>A service left to itself\<close>

fun service_goes_on :: "service_event \<Rightarrow> bool" where
  "service_goes_on (OnShop e) \<longleftrightarrow> shop_goes_on e"
| "service_goes_on (OnStopAnswer k) \<longleftrightarrow> True"
| "service_goes_on (OnRead k e) \<longleftrightarrow> e \<noteq> RdCancelled"
| "service_goes_on (OnSend k failure) \<longleftrightarrow> failure = None"
| "service_goes_on (OnStreamEnd k) \<longleftrightarrow> True"
| "service_goes_on e \<longleftrightarrow> False"

abbreviation service_comes :: "(int \<Rightarrow> wire_duration) \<Rightarrow> service \<Rightarrow> service \<Rightarrow> bool" where
  "service_comes dur \<equiv> comes_to (service_step dur) service_goes_on"

lemma goes_on_background: "shop_goes_on e \<Longrightarrow> background e"
proof (cases e)
  case (EvJob p je)
  then show "shop_goes_on e \<Longrightarrow> ?thesis"
    by (cases je; cases e rule: background.cases) auto
qed auto

lemma goes_on_not_opening: "service_goes_on e \<Longrightarrow> \<not> opens_call e"
  by (cases e) auto

lemma service_comes_step: "service_step dur e w = Some w' \<Longrightarrow> service_goes_on e \<Longrightarrow> service_comes dur w w'"
  by (rule comes_step)

text \<open>What the jobs come to, the service does.\<close>

interpretation shop_in_service: embedded_steps shop_step shop_goes_on "service_step dur" service_goes_on
    "\<lambda>_. True" "\<lambda>_. True" svc_shop "\<lambda>s w. w\<lparr>svc_shop := s\<rparr>" for dur
proof unfold_locales
  fix e t and w :: service
  assume "shop_step e (svc_shop w) = Some t" and own: "shop_goes_on e"
  then have "service_step dur (OnShop e) w = Some (w\<lparr>svc_shop := t\<rparr>)"
    using goes_on_background by (auto simp: service_step_def shop_step_def split: if_splits)
  with own show "True \<and> (\<exists>f. service_goes_on f \<and> service_step dur f w = Some (w\<lparr>svc_shop := t\<rparr>))"
    by (intro conjI exI [of _ "OnShop e"]) simp_all
qed auto

lemma service_job_lift:
  assumes "job_comes (svc_jobs w ! p) j" and "p < length (svc_jobs w)" and "live_jobs (svc_jobs w)"
    and "cd_pc (js_countdown j) \<noteq> CCrashed"
  shows "service_comes dur w (w\<lparr>svc_shop := set_job p j (svc_shop w)\<rparr>)"
    and "live_jobs (sh_jobs (set_job p j (svc_shop w)))"
  using job_in_shop.comes_lifts [OF assms(1) _ assms(4)] shop_in_service.comes_lifts(1) assms(2,3) by simp_all

section \<open>A stream is drained\<close>

text \<open>What is known of the job of a call.\<close>

lemma call_job:
  assumes "svc_inv dur w" and "svc_calls w k = Some c" and "c = Stopping p i \<or> c = Streaming a p i sent"
  shows "p < length (svc_jobs w) \<and> sys_inv (svc_jobs w ! p)"
proof -
  have "call_inv dur (svc_shop w) c" using assms(1,2) by (simp add: svc_inv_def)
  with assms(3) have "p < length (svc_jobs w)" by (auto simp: call_inv_def)
  moreover have "store_inv (sh_store (svc_shop w))" using assms(1) by (simp add: svc_inv_def shop_inv_def)
  ultimately show ?thesis by (simp add: store_inv_def)
qed

text \<open>A stream takes the next step of its reader: it reads, or hands the next tick to \<open>Send\<close>.\<close>

lemma stream_turn:
  assumes inv: "svc_inv dur w" and live: "live_jobs (svc_jobs w)"
    and c: "svc_calls w k = Some (Streaming a p r sent)" and rd: "js_readers (svc_jobs w ! p) r = Some rd"
    and go: "reading (rd_pc rd)" and ended: "job_status (js_job (svc_jobs w ! p)) \<noteq> StatusRunning"
  shows "\<exists>e w' sent' rd'. service_step dur e w = Some w' \<and> service_goes_on e \<and> live_jobs (svc_jobs w')
    \<and> svc_calls w' = (svc_calls w)(k \<mapsto> Streaming a p r sent')
    \<and> js_job (svc_jobs w' ! p) = js_job (svc_jobs w ! p) \<and> js_readers (svc_jobs w' ! p) r = Some rd'
    \<and> (rd_pc rd' = RDone ByTerminal
        \<or> reading (rd_pc rd') \<and> reads_left (js_job (svc_jobs w ! p)) rd' < reads_left (js_job (svc_jobs w ! p)) rd)"
proof -
  let ?j = "svc_jobs w ! p" and ?e = "next_event (rd_pc rd)"
  have p: "p < length (svc_jobs w)" and sys: "sys_inv ?j" using call_job [OF inv c] by auto
  have cd: "cd_pc (js_countdown ?j) \<noteq> CCrashed" by (rule live_job [OF live p])
  obtain rd' where rd': "reader_step ?e (js_job ?j) rd = Some rd'"
    "rd_pc rd' = RDone ByTerminal \<or> reading (rd_pc rd') \<and> reads_left (js_job ?j) rd' < reads_left (js_job ?j) rd"
    using ended_reader_step [OF cd_invD(3) [OF sys_invD(1) [OF sys]] ended sys_invD(2) [OF sys rd] go] by blast
  let ?j' = "?j\<lparr>js_readers := (js_readers ?j)(r \<mapsto> rd')\<rparr>"
  let ?s = "set_job p ?j' (svc_shop w)"
  have s: "shop_move (EvJob p (Reader r ?e)) (svc_shop w) = Some ?s"
    using p rd rd'(1) cd by (simp add: job_step_def)
  have "live_jobs (sh_jobs ?s)" by (rule live_set_job [OF live]) (use cd in simp)
  moreover have "js_job (sh_jobs ?s ! p) = js_job ?j" "js_readers (sh_jobs ?s ! p) r = Some rd'"
    using p by (simp_all add: set_job_def)
  moreover obtain e w' sent' where "service_step dur e w = Some w'" "service_goes_on e" "svc_shop w' = ?s"
    "svc_calls w' = (svc_calls w)(k \<mapsto> Streaming a p r sent')"
  proof (cases "\<exists>b. ?e = RdYield b")
    case True
    then obtain lo i hi wait where b: "rd_pc rd = RBatch lo i hi wait" "i < hi" "?e = RdYield True"
      by (cases "rd_pc rd") (auto split: if_splits)
    then have "next_tick ?j r = Some (job_ticks (js_job ?j) ! i)" using rd by (simp add: next_tick_def)
    then have "service_step dur (OnSend k None) w = Some (w\<lparr>svc_shop := ?s, svc_calls :=
        (svc_calls w)(k \<mapsto> Streaming a p r (sent @ [sent_tick dur (job_ticks (js_job ?j) ! i)]))\<rparr>)"
      using live c s b(3) by (simp add: service_step_def sent_tick_logger Let_def del: shop_move.simps)
    from that [OF this] show ?thesis by simp
  next
    case False
    moreover have "(svc_calls w)(k \<mapsto> Streaming a p r sent) = svc_calls w" using c by (simp add: fun_upd_idem)
    moreover have "?e \<noteq> RdCancelled" using go by (cases "rd_pc rd") auto
    ultimately show ?thesis
      using live c s
      by (intro that [of "OnRead k ?e" "w\<lparr>svc_shop := ?s\<rparr>" sent])
         (auto simp: service_step_def simp del: shop_move.simps split: revent.splits)
  qed
  ultimately show ?thesis
    using rd'(2) by (intro exI [of _ e] exI [of _ w'] exI [of _ sent'] exI [of _ rd']) simp
qed

lemma stream_drains:
  assumes "svc_inv dur w" and "live_jobs (svc_jobs w)"
    and "svc_calls w k = Some (Streaming a p r sent)" and "js_readers (svc_jobs w ! p) r = Some rd"
    and "reading (rd_pc rd)" and "job_status (js_job (svc_jobs w ! p)) \<noteq> StatusRunning"
  shows "\<exists>w' sent'. service_comes dur w w' \<and> live_jobs (svc_jobs w')
    \<and> svc_calls w' = (svc_calls w)(k \<mapsto> Streaming a p r sent')
    \<and> js_job (svc_jobs w' ! p) = js_job (svc_jobs w ! p)
    \<and> (\<exists>rd'. js_readers (svc_jobs w' ! p) r = Some rd' \<and> rd_pc rd' = RDone ByTerminal)"
  using assms
proof (induction "reads_left (js_job (svc_jobs w ! p)) rd" arbitrary: w sent rd rule: less_induct)
  case less
  obtain e w1 sent1 rd1 where e: "service_step dur e w = Some w1" "service_goes_on e" "live_jobs (svc_jobs w1)"
    "svc_calls w1 = (svc_calls w)(k \<mapsto> Streaming a p r sent1)"
    "js_job (svc_jobs w1 ! p) = js_job (svc_jobs w ! p)" "js_readers (svc_jobs w1 ! p) r = Some rd1"
    "rd_pc rd1 = RDone ByTerminal \<or> reading (rd_pc rd1)
       \<and> reads_left (js_job (svc_jobs w ! p)) rd1 < reads_left (js_job (svc_jobs w ! p)) rd"
    using stream_turn [OF less.prems] by blast
  have inv1: "svc_inv dur w1" by (rule service.step_keeps [OF less.prems(1) e(1)])
  show ?case
  proof (cases "rd_pc rd1 = RDone ByTerminal")
    case True
    with e service_comes_step [OF e(1,2)] show ?thesis by (intro exI [of _ w1] exI [of _ sent1]) simp
  next
    case False
    with e(7) have m: "reading (rd_pc rd1)"
      "reads_left (js_job (svc_jobs w1 ! p)) rd1 < reads_left (js_job (svc_jobs w ! p)) rd"
      by (simp_all add: e(5))
    have c1: "svc_calls w1 k = Some (Streaming a p r sent1)" by (simp add: e(4))
    obtain w2 sent2 rd2 where w2: "service_comes dur w1 w2" "live_jobs (svc_jobs w2)" "svc_calls w2 = (svc_calls w1)(k \<mapsto> Streaming a p r sent2)"
      "js_job (svc_jobs w2 ! p) = js_job (svc_jobs w1 ! p)" "js_readers (svc_jobs w2 ! p) r = Some rd2"
      "rd_pc rd2 = RDone ByTerminal"
      using less.hyps [OF m(2) inv1 e(3) c1 e(6) m(1)] less.prems(6) e(5) by auto
    with e(4,5) comes_trans [OF service_comes_step [OF e(1,2)] w2(1)] show ?thesis
      by (intro exI [of _ w2] exI [of _ sent2]) simp
  qed
qed

section \<open>A pending call is answered\<close>

text \<open>The goroutine of a call's job comes to its end, and the calls are as they were.\<close>

lemma call_job_finishes:
  assumes inv: "svc_inv dur w" and live: "live_jobs (svc_jobs w)" and p: "p < length (svc_jobs w)"
  shows "\<exists>w'. service_comes dur w w' \<and> live_jobs (svc_jobs w')
    \<and> svc_calls w' = svc_calls w \<and> js_readers (svc_jobs w' ! p) = js_readers (svc_jobs w ! p)
    \<and> js_stops (svc_jobs w' ! p) = js_stops (svc_jobs w ! p) \<and> job_finished (js_job (svc_jobs w' ! p))"
proof -
  let ?j = "svc_jobs w ! p"
  have sys: "sys_inv ?j" using inv p by (simp add: svc_inv_def shop_inv_def store_inv_def)
  obtain c where c: "job_comes ?j (?j\<lparr>js_countdown := c\<rparr>)" "cd_pc c = CDone"
    using worker_finishes [OF sys live_job [OF live p]] by blast
  let ?j' = "?j\<lparr>js_countdown := c\<rparr>"
  have "sys_inv ?j'" by (rule job.reaches_keeps [OF comes_reaches [OF c(1)] sys])
  then have "job_finished (cd_job c)" using done_finished [of c] sys_invD(1) c(2) by fastforce
  moreover have "cd_pc (js_countdown ?j') \<noteq> CCrashed" by (simp add: c(2))
  note service_job_lift [OF c(1) p live this]
  ultimately show ?thesis using p
    by (intro exI [of _ "w\<lparr>svc_shop := set_job p ?j' (svc_shop w)\<rparr>"]) (simp add: set_job_def)
qed

text \<open>
  The answer a call that is \<open>c\<close> in \<open>w\<close> has in \<open>w'\<close>: a \<open>Stop\<close> the final status of its job, a stream whose
  context has not ended all the ticks of a job that has.
\<close>

fun answered_for :: "(int \<Rightarrow> wire_duration) \<Rightarrow> service \<Rightarrow> service \<Rightarrow> call \<Rightarrow> wire_tick list
    \<Rightarrow> unary_response option result \<Rightarrow> bool" where
  "answered_for dur w w' (Answered sent0 res0) sent res \<longleftrightarrow> sent = sent0 \<and> res = res0"
| "answered_for dur w w' (Stopping p i) sent res \<longleftrightarrow>
     sent = [] \<and> Status (js_job (svc_jobs w' ! p)) \<noteq> StatusRunning
     \<and> res = Inr (Some (StopResponse (wire_of (Status (js_job (svc_jobs w' ! p))))))"
| "answered_for dur w w' (Streaming a p r sent0) sent res \<longleftrightarrow>
     res = Inr None
     \<and> (map_option rd_pc (js_readers (svc_jobs w ! p) r) = Some (RDone ByContext)
        \<or> Status (js_job (svc_jobs w' ! p)) \<noteq> StatusRunning
          \<and> sent = map (sent_tick dur) (job_ticks (js_job (svc_jobs w' ! p))))"

lemma stopping_completes:
  assumes inv: "svc_inv dur w" and live: "live_jobs (svc_jobs w)" and c: "svc_calls w k = Some (Stopping p i)"
  shows "\<exists>w' sent res. service_comes dur w w' \<and> live_jobs (svc_jobs w')
    \<and> svc_calls w' = (svc_calls w)(k \<mapsto> Answered sent res) \<and> answered_for dur w w' (Stopping p i) sent res"
proof -
  have "call_inv dur (svc_shop w) (Stopping p i)" using inv c by (simp add: svc_inv_def)
  then have p: "p < length (svc_jobs w)" and call: "js_stops (svc_jobs w ! p) i \<noteq> None" by (auto simp: call_inv_def)
  obtain w1 where w1: "service_comes dur w w1" "live_jobs (svc_jobs w1)"
    "svc_calls w1 = svc_calls w" "js_stops (svc_jobs w1 ! p) = js_stops (svc_jobs w ! p)"
    "job_finished (js_job (svc_jobs w1 ! p))"
    using call_job_finishes [OF inv live p] by blast
  have inv1: "svc_inv dur w1" by (rule service.reaches_keeps [OF comes_reaches [OF w1(1)] inv])
  have c1: "svc_calls w1 k = Some (Stopping p i)" using c by (simp add: w1(3))
  have p1: "p < length (svc_jobs w1)" and sys: "sys_inv (svc_jobs w1 ! p)" using call_job [OF inv1 c1] by auto
  obtain pc where pc: "js_stops (svc_jobs w1 ! p) i = Some pc" using call w1(4) by auto
  obtain j where j: "job_comes (svc_jobs w1 ! p) j" "js_countdown j = js_countdown (svc_jobs w1 ! p)"
    "js_stops j i = Some (StopReturned (job_status (js_job (svc_jobs w1 ! p))))"
    using stop_run [OF pc w1(5) sys_invD(3) [OF sys pc] live_job [OF w1(2) p1]] by blast
  have jl: "cd_pc (js_countdown j) \<noteq> CCrashed" using live_job [OF w1(2) p1] j(2) by simp
  let ?w2 = "w1\<lparr>svc_shop := set_job p j (svc_shop w1)\<rparr>" and ?st = "Status (js_job (svc_jobs w1 ! p))"
  note r2 = service_job_lift [OF j(1) p1 w1(2) jl]
  have j2: "sh_jobs (set_job p j (svc_shop w1)) ! p = j" using p1 by (simp add: set_job_def)
  obtain lg where "protoStatus (svc_logger w1) (status_text ?st) = (lg, wire_of ?st)"
    using protoStatus_wire by (metis prod.collapse)
  then have "service_step dur (OnStopAnswer k) ?w2 =
      Some (answer k [] (Inr (Some (StopResponse (wire_of ?st)))) lg ?w2)"
    using c1 j(3) r2(2) by (simp add: service_step_def j2 Status_def)
  from comes_trans [OF comes_trans [OF w1(1) r2(1)] service_comes_step [OF this]]
  have "service_comes dur w (answer k [] (Inr (Some (StopResponse (wire_of ?st)))) lg ?w2)" by simp
  moreover have "?st \<noteq> StatusRunning"
    using cd_inv_finished [OF sys_invD(1) [OF sys] w1(5)] by (simp add: Status_def)
  ultimately show ?thesis
    using r2(2) j(2)
    by (intro exI [of _ "answer k [] (Inr (Some (StopResponse (wire_of ?st)))) lg ?w2"]
          exI [of _ "[]"] exI [of _ "Inr (Some (StopResponse (wire_of ?st)))"])
       (simp add: w1(3) j2)
qed

text \<open>A stream whose reader is done is closed.\<close>

lemma stream_closes:
  assumes inv: "svc_inv dur w" and come: "service_comes dur w w2" and l2: "live_jobs (svc_jobs w2)"
    and calls: "svc_calls w2 = (svc_calls w)(k \<mapsto> Streaming a p r sent)"
    and rd2: "js_readers (svc_jobs w2 ! p) r = Some rd2" "rd_pc rd2 \<in> {RDone ByTerminal, RDone ByContext}"
    and cut: "rd_pc rd2 = RDone ByContext \<Longrightarrow>
      map_option rd_pc (js_readers (svc_jobs w ! p) r) = Some (RDone ByContext)"
  shows "\<exists>w' sent res. service_comes dur w w' \<and> live_jobs (svc_jobs w')
    \<and> svc_calls w' = (svc_calls w)(k \<mapsto> Answered sent res)
    \<and> answered_for dur w w' (Streaming a p r sent0) sent res"
proof -
  have inv2: "svc_inv dur w2" by (rule service.reaches_keeps [OF comes_reaches [OF come] inv])
  have c2: "svc_calls w2 k = Some (Streaming a p r sent)" by (simp add: calls)
  have sent: "sent = map (sent_tick dur) (rd_delivered rd2)" "reader_inv (js_job (svc_jobs w2 ! p)) rd2"
    by (rule stream_reader [OF inv2 c2]; use rd2(1) in auto)+
  let ?w3 = "answer k sent (Inr None) (stream_closed (svc_logger w2) a (svc_jobs w2 ! p)) w2"
  have "service_step dur (OnStreamEnd k) w2 = Some ?w3"
    using c2 l2 rd2 by (auto simp: service_step_def reader_ended_def)
  from comes_trans [OF come service_comes_step [OF this]] have "service_comes dur w ?w3" by simp
  moreover have "answered_for dur w ?w3 (Streaming a p r sent0) sent (Inr None)"
    using sent rd2(2) cut by (auto simp: reader_inv_def Status_def)
  ultimately show ?thesis
    using calls l2 by (intro exI [of _ ?w3] exI [of _ sent] exI [of _ "Inr None"]) simp
qed

lemma streaming_completes:
  assumes inv: "svc_inv dur w" and live: "live_jobs (svc_jobs w)"
    and c: "svc_calls w k = Some (Streaming a p r sent0)"
  shows "\<exists>w' sent res. service_comes dur w w' \<and> live_jobs (svc_jobs w') \<and> svc_calls w' = (svc_calls w)(k \<mapsto> Answered sent res)
    \<and> answered_for dur w w' (Streaming a p r sent0) sent res"
proof -
  have "call_inv dur (svc_shop w) (Streaming a p r sent0)" using inv c by (simp add: svc_inv_def)
  then obtain rd where p: "p < length (svc_jobs w)" and rd: "js_readers (svc_jobs w ! p) r = Some rd"
    "rd_pc rd \<noteq> RDone ByCaller" by (auto simp: call_inv_def)
  show ?thesis
  proof (cases "reading (rd_pc rd)")
    case False
    then have "rd_pc rd \<in> {RDone ByTerminal, RDone ByContext}"
      using rd(2) by (cases "rd_pc rd") (auto intro: done_reason.exhaust)
    moreover have "svc_calls w = (svc_calls w)(k \<mapsto> Streaming a p r sent0)" using c by (simp add: fun_upd_idem)
    ultimately show ?thesis using stream_closes [OF inv comes_refl live _ rd(1)] rd(1) by simp
  next
    case True
    obtain w1 where w1: "service_comes dur w w1" "live_jobs (svc_jobs w1)"
      "svc_calls w1 = svc_calls w" "js_readers (svc_jobs w1 ! p) = js_readers (svc_jobs w ! p)"
      "job_finished (js_job (svc_jobs w1 ! p))"
      using call_job_finishes [OF inv live p] by blast
    have inv1: "svc_inv dur w1" by (rule service.reaches_keeps [OF comes_reaches [OF w1(1)] inv])
    have c1: "svc_calls w1 k = Some (Streaming a p r sent0)" using c by (simp add: w1(3))
    have "sys_inv (svc_jobs w1 ! p)" using call_job [OF inv1 c1] by auto
    then have "job_status (js_job (svc_jobs w1 ! p)) \<noteq> StatusRunning"
      using cd_inv_finished sys_invD(1) w1(5) by blast
    moreover have "js_readers (svc_jobs w1 ! p) r = Some rd" using rd(1) w1(4) by simp
    ultimately obtain w2 sent rd2 where w2: "service_comes dur w1 w2" "live_jobs (svc_jobs w2)"
      "svc_calls w2 = (svc_calls w1)(k \<mapsto> Streaming a p r sent)"
      "js_readers (svc_jobs w2 ! p) r = Some rd2" "rd_pc rd2 = RDone ByTerminal"
      using stream_drains [OF inv1 w1(2) c1 _ True] by blast
    from stream_closes [OF inv comes_trans [OF w1(1) w2(1)] w2(2) _ w2(4)] show ?thesis using w1(3) w2(3,5) by simp
  qed
qed

lemma call_completes:
  assumes "svc_inv dur w" and "live_jobs (svc_jobs w)" and "svc_calls w k = Some c"
  shows "\<exists>w' sent res. service_comes dur w w' \<and> live_jobs (svc_jobs w')
    \<and> svc_calls w' = (svc_calls w)(k \<mapsto> Answered sent res) \<and> answered_for dur w w' c sent res"
proof (cases c)
  case (Answered sent res)
  then show ?thesis using assms
    by (intro exI [of _ w] exI [of _ sent] exI [of _ res]) (simp add: fun_upd_idem)
qed (use assms stopping_completes streaming_completes in blast)+

text \<open>Every pending call, one after the other.\<close>

definition pending :: "service \<Rightarrow> nat set" where
  "pending w = {k. \<exists>c. svc_calls w k = Some c \<and> (\<forall>sent res. c \<noteq> Answered sent res)}"

lemma all_answered_pending: "all_answered w \<longleftrightarrow> pending w = {}"
  by (auto simp: all_answered_def pending_def)

lemma finite_pending: "finite (dom (svc_calls w)) \<Longrightarrow> finite (pending w)"
  by (rule finite_subset [of _ "dom (svc_calls w)"]) (auto simp: pending_def)

lemma service_drains:
  assumes "svc_inv dur w" and "live_jobs (svc_jobs w)" and "finite (dom (svc_calls w))"
  shows "\<exists>w'. service_comes dur w w' \<and> live_jobs (svc_jobs w') \<and> all_answered w'"
  using assms
proof (induction "card (pending w)" arbitrary: w rule: less_induct)
  case less
  show ?case
  proof (cases "pending w = {}")
    case True
    with less.prems show ?thesis by (intro exI [of _ w]) (simp add: all_answered_pending)
  next
    case False
    then obtain k c where k: "k \<in> pending w" "svc_calls w k = Some c" by (auto simp: pending_def)
    obtain w1 sent res where w1: "service_comes dur w w1" "live_jobs (svc_jobs w1)" "svc_calls w1 = (svc_calls w)(k \<mapsto> Answered sent res)"
      using call_completes [OF less.prems(1,2) k(2)] by blast
    have "pending w1 \<subset> pending w" using k by (auto simp: pending_def w1(3))
    then have "card (pending w1) < card (pending w)"
      by (rule psubset_card_mono [OF finite_pending [OF less.prems(3)]])
    moreover have "finite (dom (svc_calls w1))" using less.prems(3) by (simp add: w1(3))
    ultimately show ?thesis
      using less.hyps [OF _ service.reaches_keeps [OF comes_reaches [OF w1(1)] less.prems(1)] w1(2)]
        comes_trans [OF w1(1)] by blast
  qed
qed

section \<open>What is counted on the way down\<close>

lemma finite_shutdowns_move:
  "shop_move e s = Some t \<Longrightarrow> finite (dom (sh_shutdowns s)) \<Longrightarrow> finite (dom (sh_shutdowns t))"
  by (cases e) (auto simp: set_job_def split: if_splits option.splits shutdown_pc.splits prod.splits)

lemma called_shutdown_move:
  "shop_move e s = Some t \<Longrightarrow> sh_shutdowns s k \<noteq> None \<Longrightarrow> sh_shutdowns t k \<noteq> None"
  by (cases e) (auto simp: set_job_def split: if_splits option.splits shutdown_pc.splits prod.splits)

lemma finite_service_step:
  assumes "service_step dur e w = Some w'"
  shows "finite (dom (svc_calls w)) \<Longrightarrow> finite (dom (svc_calls w'))"
    and "finite (dom (sh_shutdowns (svc_shop w))) \<Longrightarrow> finite (dom (sh_shutdowns (svc_shop w')))"
    and "sh_shutdowns (svc_shop w) k \<noteq> None \<Longrightarrow> sh_shutdowns (svc_shop w') k \<noteq> None"
proof -
  have c: "call_step dur e w = Some w'" using assms by (simp add: service_step_def split: if_splits)
  then show "finite (dom (svc_calls w)) \<Longrightarrow> finite (dom (svc_calls w'))"
    by (cases e)
       (auto simp del: shop_move.simps simp: Let_def
         split: if_splits option.splits prod.splits sum.splits call.splits stop_pc.splits revent.splits)
  from call_step_shop [OF c] finite_shutdowns_move
  show "finite (dom (sh_shutdowns (svc_shop w))) \<Longrightarrow> finite (dom (sh_shutdowns (svc_shop w')))" by auto
  from call_step_shop [OF c] called_shutdown_move
  show "sh_shutdowns (svc_shop w) k \<noteq> None \<Longrightarrow> sh_shutdowns (svc_shop w') k \<noteq> None" by fastforce
qed

text \<open>The transport's error is in hand, in the channel, or still to come.\<close>

definition served_later :: "serving \<Rightarrow> bool" where
  "served_later g \<longleftrightarrow> sg_running g \<or> sg_served g \<noteq> None"

fun main_waits :: "serve_pc \<Rightarrow> serving \<Rightarrow> bool" where
  "main_waits SelectServe g \<longleftrightarrow> served_later g"
| "main_waits (InShutdown inHand) g \<longleftrightarrow> sg_drain g \<noteq> DrainIdle \<and> (inHand = None \<longrightarrow> served_later g)"
| "main_waits (AwaitStopped inHand) g \<longleftrightarrow> sg_drain g \<noteq> DrainIdle \<and> (inHand = None \<longrightarrow> served_later g)"
| "main_waits (AwaitServed isDrained) g \<longleftrightarrow> served_later g"
| "main_waits (ServeDone r) g \<longleftrightarrow> True"

definition drain_inv :: "serving \<Rightarrow> bool" where
  "drain_inv g \<longleftrightarrow> finite (dom (svc_calls (sg_service g)))
     \<and> finite (dom (sh_shutdowns (svc_shop (sg_service g))))
     \<and> (\<forall>k. sg_drain g = DrainService k \<longrightarrow> sh_shutdowns (svc_shop (sg_service g)) k \<noteq> None)
     \<and> main_waits (sg_main g) g"

lemma drain_service_step:
  assumes "drain_inv g" and "service_step dur e (sg_service g) = Some w"
  shows "drain_inv (g\<lparr>sg_service := w\<rparr>)"
  using assms finite_service_step [OF assms(2)]
  by (cases "sg_main g") (simp_all add: drain_inv_def served_later_def)

lemma serve_step_drain:
  assumes inv: "drain_inv g" and step: "serve_step dur drained srv e g = Some g'"
  shows "drain_inv g'"
proof (cases e)
  case (EvService se)
  with step drain_service_step [OF inv] show ?thesis by (auto split: if_splits)
next
  case (EvDrainBegin k)
  with step obtain w where d: "sg_drain g = DrainReady"
    and w: "service_step dur (OnShop (EvShutdown k)) (sg_service g) = Some w"
    and g': "g' = g\<lparr>sg_service := w, sg_drain := DrainService k\<rparr>"
    by (auto split: drain_pc.splits elim!: map_option_SomeE)
  have "sh_shutdowns (svc_shop w) k \<noteq> None"
    using w by (auto simp: service_step_def split: if_splits option.splits prod.splits)
  with drain_service_step [OF inv w] show ?thesis
    using d g' by (cases "sg_main g") (auto simp: drain_inv_def served_later_def)
qed (use inv step in \<open>cases "sg_main g"; auto simp: drain_inv_def served_later_def after_shutdown_def
      split: if_splits option.splits drain_pc.splits\<close>)+

interpretation drain: invariant_steps "serve_step dur drained srv" drain_inv for dur drained srv
  by unfold_locales (rule serve_step_drain)

section \<open>Serve left to itself\<close>

fun serve_goes_on :: "serve_event \<Rightarrow> bool" where
  "serve_goes_on (EvService e) \<longleftrightarrow> service_goes_on e"
| "serve_goes_on (EvServed err) \<longleftrightarrow> err = None"
| "serve_goes_on EvCtxDone \<longleftrightarrow> False"
| "serve_goes_on EvGraceElapsed \<longleftrightarrow> False"
| "serve_goes_on e \<longleftrightarrow> True"

text \<open>\<open>GracefulStop\<close> returns once every RPC is answered.\<close>

definition stop_returns :: "(service \<Rightarrow> bool \<Rightarrow> bool) \<Rightarrow> bool" where
  "stop_returns drained \<longleftrightarrow> (\<forall>w. all_answered w \<longrightarrow> drained w False)"

abbreviation serve_comes :: "(int \<Rightarrow> wire_duration) \<Rightarrow> (service \<Rightarrow> bool \<Rightarrow> bool) \<Rightarrow> server \<Rightarrow> serving \<Rightarrow> serving \<Rightarrow> bool" where
  "serve_comes dur drained srv \<equiv> comes_to (serve_step dur drained srv) serve_goes_on"

interpretation service_in_serving: embedded_steps "service_step dur" service_goes_on
    "serve_step dur drained srv" serve_goes_on "\<lambda>_. True" "\<lambda>_. True" sg_service "\<lambda>w g. g\<lparr>sg_service := w\<rparr>"
    for dur drained srv
proof unfold_locales
  fix e t and g :: serving
  assume "service_step dur e (sg_service g) = Some t" and own: "service_goes_on e"
  then have "serve_step dur drained srv (EvService e) g = Some (g\<lparr>sg_service := t\<rparr>)"
    using goes_on_not_opening by simp
  with own show "True \<and> (\<exists>f. serve_goes_on f \<and> serve_step dur drained srv f g = Some (g\<lparr>sg_service := t\<rparr>))"
    by (intro conjI exI [of _ "EvService e"]) simp_all
qed auto

lemmas comes_service = service_in_serving.comes_lifts(1) [OF _ TrueI TrueI]

lemma serve_comes_step:
  "serve_step dur drained srv e g = Some h \<Longrightarrow> serve_goes_on e \<Longrightarrow> serve_comes dur drained srv g h"
  by (rule comes_step)

text \<open>The drain comes to its end: from \<open>GracefulStop\<close>, from \<open>Service.Shutdown\<close>, from its beginning.\<close>

lemma transport_stops:
  assumes ok: "graceful_stop drained" "stop_returns drained" and inv: "serving_inv dur g" "drain_inv g"
    and live: "live_jobs (svc_jobs (sg_service g))" and d: "sg_drain g = DrainTransport"
  shows "\<exists>w. serve_comes dur drained srv g (g\<lparr>sg_service := w, sg_drain := DrainDone\<rparr>) \<and> live_jobs (svc_jobs w)"
proof -
  obtain w where w: "service_comes dur (sg_service g) w" "live_jobs (svc_jobs w)" "all_answered w"
    using service_drains [of dur "sg_service g"] inv live by (auto simp: serving_inv_def drain_inv_def)
  have "drained w (sg_stopCalled g)"
    using ok w(3) by (cases "sg_stopCalled g") (auto simp: graceful_stop_def stop_returns_def)
  then have "serve_step dur drained srv EvTransportStopped (g\<lparr>sg_service := w\<rparr>) =
      Some (g\<lparr>sg_service := w, sg_drain := DrainDone\<rparr>)" using d by simp
  from comes_trans [OF comes_service [OF w(1)] serve_comes_step [OF this]] w(2) show ?thesis by auto
qed

lemma jobs_stop:
  assumes inv: "serving_inv dur g" "drain_inv g"
    and live: "live_jobs (svc_jobs (sg_service g))" and d: "sg_drain g = DrainService k"
  shows "\<exists>w. serve_comes dur drained srv g (g\<lparr>sg_service := w, sg_drain := DrainTransport\<rparr>) \<and> live_jobs (svc_jobs w)"
proof -
  let ?s = "svc_shop (sg_service g)"
  have sh: "shop_inv ?s" using inv(1) by (simp add: serving_inv_def svc_inv_def)
  obtain pc where "sh_shutdowns ?s k = Some pc" using inv(2) d by (auto simp: drain_inv_def)
  then obtain s where s: "shop_comes ?s s" "live_jobs (sh_jobs s)" "sh_shutdowns s k = Some ShutReturned"
  proof (cases pc)
    case (ShutWaiting ps)
    with \<open>sh_shutdowns ?s k = Some pc\<close> shutdown_completes [OF sh live] show ?thesis using that by blast
  next
    case ShutReturned
    with \<open>sh_shutdowns ?s k = Some pc\<close> show ?thesis using that [of ?s] live by simp
  qed
  let ?w = "(sg_service g)\<lparr>svc_shop := s\<rparr>"
  have "serve_step dur drained srv EvJobsStopped (g\<lparr>sg_service := ?w\<rparr>) =
      Some (g\<lparr>sg_service := ?w, sg_drain := DrainTransport\<rparr>)" using d s(3) by simp
  from comes_trans [OF comes_service [OF shop_in_service.comes_lifts(1) [OF s(1) TrueI TrueI]] serve_comes_step [OF this]] s(2)
  show ?thesis by (intro exI [of _ ?w]) simp
qed

lemma drain_begins:
  assumes inv: "drain_inv g"
    and live: "live_jobs (svc_jobs (sg_service g))" and d: "sg_drain g = DrainReady"
  shows "\<exists>w k. serve_comes dur drained srv g (g\<lparr>sg_service := w, sg_drain := DrainService k\<rparr>) \<and> live_jobs (svc_jobs w)"
proof -
  let ?s = "svc_shop (sg_service g)"
  have "finite (dom (sh_shutdowns ?s))" using inv by (simp add: drain_inv_def)
  then obtain k where "k \<notin> dom (sh_shutdowns ?s)" using ex_new_if_finite infinite_UNIV_nat by blast
  then obtain s where s: "shop_move (EvShutdown k) ?s = Some s" "sh_jobs s = sh_jobs ?s"
    by (cases "Shutdown_snapshot (sh_registry ?s)") (auto simp: domIff)
  let ?w = "(sg_service g)\<lparr>svc_shop := s\<rparr>"
  have "serve_step dur drained srv (EvDrainBegin k) g = Some (g\<lparr>sg_service := ?w, sg_drain := DrainService k\<rparr>)"
    using live d s(1) by (simp add: service_step_def)
  from serve_comes_step [OF this] show ?thesis
    using s(2) live by (intro exI [of _ ?w] exI [of _ k]) simp
qed

lemma comes_keeps:
  assumes "graceful_stop drained" and "serve_comes dur drained srv g g'" and "serving_inv dur g" and "drain_inv g"
  shows "serving_inv dur g'" and "drain_inv g'"
proof -
  note r = comes_reaches [OF assms(2)]
  show "serving_inv dur g'" by (rule serving_reaches [OF assms(1) r assms(3)])
  show "drain_inv g'" by (rule drain.reaches_keeps [OF r assms(4)])
qed

lemma drain_completes:
  assumes ok: "graceful_stop drained" "stop_returns drained" and inv: "serving_inv dur g" "drain_inv g"
    and live: "live_jobs (svc_jobs (sg_service g))" and d: "sg_drain g \<noteq> DrainIdle"
  shows "\<exists>w. serve_comes dur drained srv g (g\<lparr>sg_service := w, sg_drain := DrainDone\<rparr>) \<and> live_jobs (svc_jobs w)"
proof -
  have transp: ?thesis if c: "serve_comes dur drained srv g (g\<lparr>sg_service := w, sg_drain := DrainTransport\<rparr>)"
    and l: "live_jobs (svc_jobs w)" for w
  proof -
    obtain w' where "serve_comes dur drained srv (g\<lparr>sg_service := w, sg_drain := DrainTransport\<rparr>)
        (g\<lparr>sg_service := w', sg_drain := DrainDone\<rparr>)" "live_jobs (svc_jobs w')"
      using transport_stops [OF ok comes_keeps [OF ok(1) c inv]] l by auto
    with comes_trans [OF c] show ?thesis by blast
  qed
  have stops: ?thesis if c: "serve_comes dur drained srv g (g\<lparr>sg_service := w, sg_drain := DrainService k\<rparr>)"
    and l: "live_jobs (svc_jobs w)" for w k
  proof -
    obtain w' where "serve_comes dur drained srv (g\<lparr>sg_service := w, sg_drain := DrainService k\<rparr>)
        (g\<lparr>sg_service := w', sg_drain := DrainTransport\<rparr>)" "live_jobs (svc_jobs w')"
      using jobs_stop [OF comes_keeps [OF ok(1) c inv], of k] l by auto
    with transp comes_trans [OF c] show ?thesis by blast
  qed
  have same: "g\<lparr>sg_service := sg_service g, sg_drain := sg_drain g\<rparr> = g" by (cases g) simp
  have here: "serve_comes dur drained srv g (g\<lparr>sg_service := sg_service g, sg_drain := sg_drain g\<rparr>)"
    using comes_refl same by metis
  show ?thesis
  proof (cases "sg_drain g")
    case DrainReady
    then show ?thesis using drain_begins [OF inv(2) live] stops by blast
  next
    case DrainDone
    with here live show ?thesis by (intro exI [of _ "sg_service g"]) simp
  qed (use d transp [of "sg_service g"] stops [where w = "sg_service g"] here live in auto)
qed

text \<open>\<open>Serve\<close> comes to its return, and the grace does not run out on the way.\<close>

definition comes_home :: "(int \<Rightarrow> wire_duration) \<Rightarrow> (service \<Rightarrow> bool \<Rightarrow> bool) \<Rightarrow> server \<Rightarrow> serving \<Rightarrow> bool" where
  "comes_home dur drained srv g \<longleftrightarrow>
     (\<exists>g' r. serve_comes dur drained srv g g' \<and> sg_main g' = ServeDone r \<and> sg_stopCalled g' = sg_stopCalled g)"

lemma home_now: "sg_main g = ServeDone r \<Longrightarrow> comes_home dur drained srv g"
  unfolding comes_home_def by (intro exI [of _ g] exI [of _ r]) simp

lemma home_later:
  assumes "serve_comes dur drained srv g h" and "sg_stopCalled h = sg_stopCalled g" and "comes_home dur drained srv h"
  shows "comes_home dur drained srv g"
  using assms comes_trans unfolding comes_home_def by metis

lemma home_step:
  assumes "serve_step dur drained srv e g = Some h" and "serve_goes_on e" and "sg_stopCalled h = sg_stopCalled g"
    and "comes_home dur drained srv h"
  shows "comes_home dur drained srv g"
  by (rule home_later [OF serve_comes_step [OF assms(1,2)] assms(3,4)])

lemma await_home:
  assumes "drain_inv g" and main: "sg_main g = AwaitServed isDrained"
  shows "comes_home dur drained srv g"
proof -
  have take: "comes_home dur drained srv h" if "sg_main h = AwaitServed isDrained" "sg_served h = Some err" for h err
  proof (rule home_step [of _ _ _ EvAwait])
    show "serve_step dur drained srv EvAwait h =
        Some (h\<lparr>sg_main := ServeDone (serve_result err isDrained), sg_served := None\<rparr>)"
      using that by simp
  qed (simp_all add: home_now)
  show ?thesis
  proof (cases "sg_served g")
    case None
    with assms have "serve_step dur drained srv (EvServed None) g = Some (g\<lparr>sg_running := False, sg_served := Some None\<rparr>)"
      by (simp add: drain_inv_def served_later_def)
    then show ?thesis by (rule home_step) (simp_all add: main take)
  qed (use main take in blast)
qed

lemma after_shutdown_home:
  assumes "drain_inv g" and "sg_main g = after_shutdown isDrained inHand"
  shows "comes_home dur drained srv g"
  using assms await_home home_now by (cases inHand) (auto simp: after_shutdown_def)

lemma shutdown_home:
  assumes ok: "graceful_stop drained" "stop_returns drained" and inv: "serving_inv dur g" "drain_inv g"
    and live: "live_jobs (svc_jobs (sg_service g))" and main: "sg_main g \<in> {InShutdown inHand, AwaitStopped inHand}"
  shows "comes_home dur drained srv g"
proof -
  have "sg_drain g \<noteq> DrainIdle" using inv(2) main by (auto simp: drain_inv_def)
  from drain_completes [OF ok inv live this] obtain w where
    w: "serve_comes dur drained srv g (g\<lparr>sg_service := w, sg_drain := DrainDone\<rparr>)" by blast
  let ?g = "g\<lparr>sg_service := w, sg_drain := DrainDone\<rparr>"
  note inv2 = comes_keeps(2) [OF ok(1) w inv]
  have "comes_home dur drained srv ?g"
    if e: "serve_step dur drained srv e ?g = Some (?g\<lparr>sg_main := after_shutdown isDrained inHand\<rparr>)" "serve_goes_on e"
    for e isDrained
    by (rule home_step [OF e _ after_shutdown_home [OF serve_step_drain [OF inv2 e(1)]]]) simp_all
  from this [of EvStopped True] this [of EvAfterStop False] have "comes_home dur drained srv ?g"
    using main by auto
  then show ?thesis by (rule home_later [OF w, rotated]) simp
qed

lemma Serve_completes:
  assumes ok: "graceful_stop drained" "stop_returns drained" and inv: "serving_inv dur g" "drain_inv g"
    and live: "live_jobs (svc_jobs (sg_service g))" and told: "sg_main g = SelectServe \<longrightarrow> sg_ctxDone g \<or> sg_served g \<noteq> None"
  shows "comes_home dur drained srv g"
proof (cases "sg_main g")
  case SelectServe
  have take: ?thesis if e: "serve_step dur drained srv e g = Some h" "serve_goes_on e" "sg_main h = InShutdown inHand"
    "sg_stopCalled h = sg_stopCalled g" "sg_service h = sg_service g" for e h inHand
  proof (rule home_step [OF e(1,2,4)])
    note keep = comes_keeps [OF ok(1) serve_comes_step [OF e(1,2)] inv]
    show "comes_home dur drained srv h" by (rule shutdown_home [OF ok keep]) (use live e in simp_all)
  qed
  show ?thesis
  proof (cases "sg_served g")
    case None
    with SelectServe told show ?thesis
      by (intro take [of EvTakeCtx "g\<lparr>sg_main := InShutdown None, sg_drain := DrainReady\<rparr>" None]) simp_all
  next
    case (Some err)
    with SelectServe show ?thesis
      by (intro take [of EvTakeServed
            "g\<lparr>sg_main := InShutdown (Some err), sg_served := None, sg_drain := DrainReady\<rparr>" "Some err"]) simp_all
  qed
next
  case (InShutdown inHand)
  with shutdown_home [OF ok inv live] show ?thesis by blast
next
  case (AwaitStopped inHand)
  with shutdown_home [OF ok inv live] show ?thesis by blast
next
  case (AwaitServed isDrained)
  with await_home [OF inv(2)] show ?thesis by blast
next
  case (ServeDone r)
  then show ?thesis by (rule home_now)
qed

section \<open>What they come to\<close>

text \<open>
  Every RPC is answered. From any state the service can reach, unless the process has crashed, a
  pending call comes to its answer by the steps of the goroutines that are there: \<open>Stop\<close> is answered
  with the final status of its job, and a stream whose context has not ended is closed without an error
  once it has sent every tick of a job that is over. The other calls stay as they are.
\<close>

lemma calls_are_answered:
  assumes "reaches (service_step dur) (NewService lg) w" and "live_jobs (svc_jobs w)"
    and "svc_calls w k = Some c"
  shows "\<exists>w' sent res. service_comes dur w w'
    \<and> svc_calls w' = (svc_calls w)(k \<mapsto> Answered sent res) \<and> answered_for dur w w' c sent res"
  using call_completes [OF reachable_service [OF assms(1)] assms(2,3)] by blast

lemma Serve_drain_inv:
  assumes "New_server x listen now cfg lg = Some (logged, Inr srv)"
  shows "serving_inv dur (Serve srv)" and "drain_inv (Serve srv)"
proof -
  obtain lg' where s: "srv_service srv = NewService lg'" using New_server_service [OF assms] by blast
  then show "serving_inv dur (Serve srv)" by (simp add: Serve_inv NewService_inv)
  show "drain_inv (Serve srv)"
    using s by (simp add: drain_inv_def Serve_def NewService_def open_shop_def served_later_def)
qed

text \<open>
  \<open>Serve\<close> returns. From any state it can reach in which its context has ended, the transport has
  returned or the shutdown has begun, unless the process has crashed, it comes to its return by the
  steps of the goroutines that are there, provided \<open>GracefulStop\<close> returns once every RPC is answered. It
  needs no end of the grace for that: as long as the grace has not run out, every RPC is answered and
  none is cut off.
\<close>

lemma Serve_returns:
  assumes "graceful_stop drained" and "stop_returns drained"
    and "New_server x listen now cfg lg = Some (logged, Inr srv)"
    and "reaches (serve_step dur drained srv) (Serve srv) g" and "live_jobs (svc_jobs (sg_service g))"
    and "sg_ctxDone g \<or> sg_served g \<noteq> None \<or> sg_main g \<noteq> SelectServe"
  shows "\<exists>g' r. serve_comes dur drained srv g g'
    \<and> sg_main g' = ServeDone r \<and> (\<not> sg_stopCalled g \<longrightarrow> all_answered (sg_service g'))"
proof -
  note start = Serve_drain_inv [OF assms(3)]
  have inv: "serving_inv dur g" by (rule serving_reaches [OF assms(1,4) start(1)])
  have dr: "drain_inv g" by (rule drain.reaches_keeps [OF assms(4) start(2)])
  obtain g' r where g': "serve_comes dur drained srv g g'" "sg_main g' = ServeDone r" "sg_stopCalled g' = sg_stopCalled g"
    using Serve_completes [OF assms(1,2) inv dr assms(5)] assms(6) unfolding comes_home_def by blast
  have "serving_inv dur g'" by (rule comes_keeps(1) [OF assms(1) g'(1) inv dr])
  then have "\<not> sg_stopCalled g \<longrightarrow> all_answered (sg_service g')" using g'(2,3) by (simp add: serving_inv_def)
  with g' show ?thesis by blast
qed

end
