(* ===== verification/Board.thy ===== *)
theory Board
  imports Service_Props
begin

text \<open>
  What the service is, without its goroutines, locks, channels and call table: a board of jobs under
  the agent and the id they are known by, each job the list of its ticks so far and, once over, its
  final status. The concrete machines implement the board step by step, and what an RPC answers is
  read off it.
\<close>

section \<open>One job\<close>

datatype job_spec = Live int "tick list" | Over job_status "tick list"

text \<open>
  A live job of count \<open>n\<close> with the ticks \<open>ts\<close> reports the next count or ends: completed after \<open>n\<close>
  ticks, stopped with the cause of its context, or failed with an error that wraps ErrJobPanic.
  Nothing follows the end.
\<close>

definition next_elapsed :: "tick list \<Rightarrow> int \<Rightarrow> bool" where
  "next_elapsed ts e \<longleftrightarrow> (if ts = [] then e = 0 else tick_elapsed (last ts) \<le> e)"

inductive spec_step :: "job_spec \<Rightarrow> job_spec \<Rightarrow> bool" where
  spec_report: "int (length ts) < n \<Longrightarrow> next_elapsed ts e \<Longrightarrow>
     spec_step (Live n ts) (Live n (ts @ [Progress e (n - int (length ts))]))"
| spec_complete: "int (length ts) = n \<Longrightarrow> next_elapsed ts e \<Longrightarrow>
     spec_step (Live n ts) (Over StatusCompleted (ts @ [Progress e 0]))"
| spec_stop: "int (length ts) \<le> n \<Longrightarrow>
     spec_step (Live n ts) (Over StatusStopped (ts @ [Stopped (Sentinel (SStd why))]))"
| spec_fail: "int (length ts) \<le> n \<Longrightarrow> errors_is e (SWorker ErrJobPanic) \<Longrightarrow>
     spec_step (Live n ts) (Over StatusFailed (ts @ [PanicError (Some e)]))"

inductive_simps spec_step_over [simp]: "spec_step (Over st ts) y"
inductive_cases spec_step_liveE: "spec_step (Live n ts) y"

definition abs_job :: "job_sys \<Rightarrow> job_spec" where
  "abs_job s =
     (if job_status (js_job s) = StatusRunning then Live (cd_count (js_countdown s)) (job_ticks (js_job s))
      else Over (job_status (js_job s)) (job_ticks (js_job s)))"

fun spec_ticks :: "job_spec \<Rightarrow> tick list" where
  "spec_ticks (Live n ts) = ts"
| "spec_ticks (Over st ts) = ts"

fun spec_status :: "job_spec \<Rightarrow> job_status" where
  "spec_status (Live n ts) = StatusRunning"
| "spec_status (Over st ts) = st"

lemma abs_job_views: "spec_ticks (abs_job s) = job_ticks (js_job s)" "spec_status (abs_job s) = Status (js_job s)"
  by (simp_all add: abs_job_def Status_def)

text \<open>One step of a job adds at most one tick.\<close>

lemma countdown_step_length:
  "countdown_step e c = Some c' \<Longrightarrow> length (job_ticks (cd_job c')) \<le> Suc (length (job_ticks (cd_job c)))"
  by (cases e) (auto simp: reportProgress_def setTerminal_def close_changed_def Let_def
      split: cpc.splits prod.splits outcome.splits bool.splits option.splits if_splits)

lemma job_step_length:
  "job_step e s = Some s' \<Longrightarrow> length (job_ticks (js_job s')) \<le> Suc (length (job_ticks (js_job s)))"
  by (cases e) (auto simp: job_step_def dest: countdown_step_length split: if_splits option.splits)

text \<open>The tick a step adds, read off the shape of the buffer before and after.\<close>

lemma progress_run_last:
  assumes "progress_run n (ts @ [t])"
  obtains e where "t = Progress e (n - int (length ts))" "next_elapsed ts e"
proof -
  obtain e where e: "t = Progress e (n - int (length ts))"
    using assms by (auto simp: progress_run_def nth_append)
  moreover have "next_elapsed ts e"
    using assms e by (auto simp: progress_run_def next_elapsed_def sorted_append hd_append last_in_set)
  ultimately show ?thesis by (rule that)
qed

lemma job_step_refines:
  assumes inv: "sys_inv s" and step: "job_step e s = Some s'"
  shows "spec_step\<^sup>=\<^sup>= (abs_job s) (abs_job s')"
proof -
  let ?n = "cd_count (js_countdown s)" and ?j = "js_job s" and ?j' = "js_job s'"
  have ev: "evolves ?j ?j'" and inv': "sys_inv s'" using job_step_inv [OF inv step] by auto
  have n: "cd_count (js_countdown s') = ?n" by (rule job_step_count [OF step])
  have before: "job_inv ?n ?j" using cd_invD(3) [OF sys_invD(1) [OF inv]] .
  have after: "job_inv ?n ?j'" using cd_invD(3) [OF sys_invD(1) [OF inv']] n by simp
  obtain us where us: "job_ticks ?j' = job_ticks ?j @ us"
    "us = [] \<Longrightarrow> job_status ?j' = job_status ?j" "us \<noteq> [] \<Longrightarrow> job_status ?j = StatusRunning"
    using ev unfolding evolves_def by blast
  have "length us \<le> 1" using job_step_length [OF step] us(1) by simp
  then consider "us = []" | t where "us = [t]" by (cases us) auto
  then show ?thesis
  proof cases
    case 1
    with us n show ?thesis by (simp add: abs_job_def)
  next
    case 2
    have run: "job_status ?j = StatusRunning" using us(3) 2 by simp
    with before have len: "int (length (job_ticks ?j)) \<le> ?n" by (simp add: job_inv_def)
    have "spec_step (Live ?n (job_ticks ?j)) (abs_job s')"
    proof (cases "job_status ?j' = StatusRunning")
      case True
      with after us(1) 2 have "progress_run ?n (job_ticks ?j @ [t])" "int (length (job_ticks ?j)) < ?n"
        by (auto simp: job_inv_def)
      with True us(1) 2 n show ?thesis
        by (auto simp: abs_job_def intro: spec_report elim!: progress_run_last)
    next
      case False
      with after us(1) 2 have e: "ends_with (job_status ?j') t"
        "job_status ?j' = StatusCompleted \<Longrightarrow>
           int (length (job_ticks ?j)) = ?n \<and> progress_run ?n (job_ticks ?j @ [t])"
        by (auto simp: job_inv_def)
      show ?thesis
      proof (cases "job_status ?j'")
        case StatusCompleted
        with e us(1) 2 show ?thesis
          by (auto simp: abs_job_def intro: spec_complete elim!: progress_run_last)
      next
        case StatusStopped
        with e us(1) 2 len show ?thesis by (cases t) (auto simp: abs_job_def intro: spec_stop)
      next
        case StatusFailed
        with e us(1) 2 len show ?thesis
          by (cases "(StatusFailed, t)" rule: ends_with.cases) (auto simp: abs_job_def intro: spec_fail)
      qed (use False in simp)
    qed
    with run show ?thesis by (simp add: abs_job_def)
  qed
qed

interpretation board_job: refining_steps job_step sys_inv abs_job spec_step
  by unfold_locales (use job_step_inv job_step_refines in blast)+

section \<open>The board\<close>

record board =
  bd_jobs :: "agent_id \<times> job_id \<Rightarrow> job_spec option"
  bd_open :: bool

text \<open>A job is put up under a key nobody holds while the board is open; a job moves; the board closes.\<close>

inductive board_step :: "board \<Rightarrow> board \<Rightarrow> bool" where
  board_create: "bd_open b \<Longrightarrow> 1 \<le> n \<Longrightarrow> n \<le> MaxCount \<Longrightarrow> (\<And>c. bd_jobs b (c, jobID) = None) \<Longrightarrow>
     board_step b (b\<lparr>bd_jobs := (bd_jobs b)((a, jobID) \<mapsto> Live n [])\<rparr>)"
| board_job: "bd_jobs b key = Some x \<Longrightarrow> spec_step x y \<Longrightarrow>
     board_step b (b\<lparr>bd_jobs := (bd_jobs b)(key \<mapsto> y)\<rparr>)"
| board_close: "board_step b (b\<lparr>bd_open := False\<rparr>)"

definition empty_board :: board where
  "empty_board = \<lparr>bd_jobs = Map.empty, bd_open = True\<rparr>"

definition abs_shop :: "shop \<Rightarrow> board" where
  "abs_shop s =
     \<lparr>bd_jobs = (\<lambda>(a, jobID). map_option (\<lambda>p. abs_job (sh_jobs s ! p)) (Find a jobID (sh_registry s))),
      bd_open = reg_isAcceptingJobs (sh_registry s)\<rparr>"

definition abs_service :: "service \<Rightarrow> board" where "abs_service w = abs_shop (svc_shop w)"

lemma abs_NewService: "abs_service (NewService lg) = empty_board"
  by (auto simp: abs_service_def abs_shop_def NewService_def open_shop_def New_registry_def Find_def
      empty_board_def)

lemma new_job_live: "NewJob ctxErr now jobID count mean lg = Inr s \<Longrightarrow> abs_job s = Live count []"
  by (auto simp: NewJob_def abs_job_def)

lemma set_job_refines:
  assumes inv: "shop_inv s" and p: "p < length (sh_jobs s)"
    and mv: "spec_step\<^sup>=\<^sup>= (abs_job (sh_jobs s ! p)) (abs_job j)"
  shows "board_step\<^sup>=\<^sup>= (abs_shop s) (abs_shop (set_job p j s))"
proof -
  have st: "store_inv (sh_store s)" using inv by (simp add: shop_inv_def)
  then obtain a jobID where key: "Find a jobID (sh_registry s) = Some p"
    using p unfolding store_inv_def by blast
  have jobs: "map_option (\<lambda>q. abs_job ((sh_jobs s)[p := j] ! q)) (Find b i (sh_registry s)) =
      (if (b, i) = (a, jobID) then Some (abs_job j)
       else map_option (\<lambda>q. abs_job (sh_jobs s ! q)) (Find b i (sh_registry s)))" for b i
  proof (cases "Find b i (sh_registry s)")
    case (Some q)
    with Find_owner(2) [OF st key Some] key p show ?thesis by (cases "q = p") auto
  qed (use key in auto)
  have abs: "abs_shop (set_job p j s) =
      (abs_shop s)\<lparr>bd_jobs := (bd_jobs (abs_shop s))((a, jobID) \<mapsto> abs_job j)\<rparr>"
    using jobs by (auto simp: abs_shop_def set_job_def fun_eq_iff)
  have "bd_jobs (abs_shop s) (a, jobID) = Some (abs_job (sh_jobs s ! p))"
    using key by (simp add: abs_shop_def)
  then show ?thesis
    using mv board_job [of "abs_shop s" "(a, jobID)"] unfolding abs
    by (auto simp: fun_upd_idem)
qed

text \<open>A creation that succeeds puts a live job up.\<close>

lemma created_board:
  assumes inv: "shop_inv s" and created: "Create ctxErr now a count (sh_store s) = (t, Inr jobID)"
  shows "bd_open (abs_shop s) \<and> 1 \<le> count \<and> count \<le> MaxCount \<and> (\<forall>c. bd_jobs (abs_shop s) (c, jobID) = None)
    \<and> abs_shop (s\<lparr>sh_store := t\<rparr>) =
        (abs_shop s)\<lparr>bd_jobs := (bd_jobs (abs_shop s))((a, jobID) \<mapsto> Live count [])\<rparr>"
proof -
  have st: "store_inv (sh_store s)" using inv by (simp add: shop_inv_def)
  from created obtain job where job: "abs_job job = Live count []" "st_jobs t = sh_jobs s @ [job]"
    by (cases rule: Create_cases) (auto dest: new_job_live)
  from created show ?thesis
  proof (rule Create_ok [OF st])
    assume ok: "reg_isAcceptingJobs (sh_registry s)" "1 \<le> count" "count \<le> MaxCount"
      "\<And>b. Find b jobID (sh_registry s) = None"
      "\<And>b i. Find b i (st_registry t) = (if b = a \<and> i = jobID then Some (length (sh_jobs s))
                                 else Find b i (sh_registry s))"
      "reg_isAcceptingJobs (st_registry t)"
    have "map_option (\<lambda>p. abs_job ((sh_jobs s @ [job]) ! p)) (Find b i (sh_registry s)) =
        map_option (\<lambda>p. abs_job (sh_jobs s ! p)) (Find b i (sh_registry s))" for b i
      using Find_Some [OF st] by (cases "Find b i (sh_registry s)") (auto simp: nth_append)
    with ok job show ?thesis by (auto simp: abs_shop_def fun_eq_iff)
  qed
qed

lemma shop_move_refines:
  assumes inv: "shop_inv s" and step: "shop_move e s = Some s'"
  shows "board_step\<^sup>=\<^sup>= (abs_shop s) (abs_shop s')"
proof (cases e)
  case (EvCreate ctxErr now a count)
  obtain t r where t: "Create ctxErr now a count (sh_store s) = (t, r)" by force
  with EvCreate step have s': "s' = s\<lparr>sh_store := t\<rparr>" by simp
  show ?thesis
  proof (cases r)
    case (Inl err)
    with t Create_fails have "t = sh_store s" by blast
    with s' show ?thesis by (simp add: abs_shop_def)
  next
    case (Inr jobID)
    with created_board [OF inv] t s' show ?thesis by (auto intro: board_create)
  qed
next
  case (EvJob p je)
  with step obtain j where p: "p < length (sh_jobs s)" and j: "job_step je (sh_jobs s ! p) = Some j"
    "s' = set_job p j s" by (auto split: if_splits)
  have "sys_inv (sh_jobs s ! p)" using inv p by (simp add: shop_inv_def store_inv_def)
  from set_job_refines [OF inv p job_step_refines [OF this j(1)]] j(2) show ?thesis by simp
next
  case (EvShutdown k)
  with step have "abs_shop s' = (abs_shop s)\<lparr>bd_open := False\<rparr>"
    by (auto simp: Shutdown_snapshot_def abs_shop_def Find_def split: option.splits)
  then show ?thesis using board_close by auto
next
  case (EvGo k n i)
  then obtain ps where ps: "sh_shutdowns s k = Some (ShutWaiting ps)"
    using step by (auto split: option.splits shutdown_pc.splits)
  define p where "p = fst (ps ! n)"
  obtain j where n: "n < length ps" and j: "job_step (CallStop i) (sh_jobs s ! p) = Some j"
    and s': "sh_store s' = sh_store (set_job p j s)"
    using EvGo step ps by (auto simp: p_def split: if_splits)
  have "shut_inv s (ShutWaiting ps)" using inv ps by (simp add: shop_inv_def)
  moreover have "p \<in> fst ` set ps" using n by (simp add: p_def)
  ultimately have p: "p < length (sh_jobs s)" by (auto simp: shut_inv_def)
  have sys: "sys_inv (sh_jobs s ! p)" using inv p by (simp add: shop_inv_def store_inv_def)
  have "abs_shop s' = abs_shop (set_job p j s)" by (simp add: abs_shop_def s')
  with set_job_refines [OF inv p job_step_refines [OF sys j]] show ?thesis by simp
next
  case (EvWait k)
  with step have "sh_store s' = sh_store s"
    by (auto split: option.splits shutdown_pc.splits if_splits)
  then show ?thesis by (simp add: abs_shop_def)
qed

text \<open>A step of the service moves its shop by one event, or not at all.\<close>

lemma call_step_move:
  assumes "call_step dur e w = Some w'"
  shows "svc_shop w' = svc_shop w \<or> (\<exists>se. shop_move se (svc_shop w) = Some (svc_shop w'))"
proof (cases "\<exists>k ctx now count. e = OnStart k ctx now count")
  case True
  then obtain k ctx now count where e: "e = OnStart k ctx now count" by blast
  show ?thesis
  proof (cases ctx)
    case None
    with e assms show ?thesis by (auto simp: Start_def service_agentID_def answer_def split: if_splits)
  next
    case (Some a)
    have "sh_store (svc_shop w') = fst (Create None now a (of_int32 count) (sh_store (svc_shop w)))
        \<and> sh_shutdowns (svc_shop w') = sh_shutdowns (svc_shop w)"
      using e Some assms
      by (auto simp: Start_def service_agentID_def answer_def split: if_splits prod.splits sum.splits)
    then have "shop_move (EvCreate None now a (of_int32 count)) (svc_shop w) = Some (svc_shop w')"
      by simp
    then show ?thesis by blast
  qed
next
  case False
  with assms show ?thesis
    by (cases e)
       (auto simp del: shop_move.simps simp: answer_def Let_def
         split: if_splits option.splits prod.splits sum.splits call.splits stop_pc.splits revent.splits)
qed

lemma service_step_refines:
  assumes "svc_inv dur w" and "service_step dur e w = Some w'"
  shows "board_step\<^sup>=\<^sup>= (abs_service w) (abs_service w')"
proof -
  have inv: "shop_inv (svc_shop w)" using assms(1) by (simp add: svc_inv_def)
  have "call_step dur e w = Some w'" using assms(2) by (simp add: service_step_def split: if_splits)
  from call_step_move [OF this] show ?thesis
    using shop_move_refines [OF inv] by (auto simp: abs_service_def)
qed

interpretation board: refining_steps "service_step dur" "svc_inv dur" abs_service board_step for dur
  by unfold_locales (rule service_step_refines)

text \<open>What \<open>Start\<close> does to the board.\<close>

lemma Start_moves_board:
  assumes "svc_inv dur w" and step: "service_step dur (OnStart k (Some a) now count) w = Some w'"
  shows "(\<exists>jobID. svc_calls w' k = Some (Answered [] (Inr (Some (StartResponse jobID))))
            \<and> bd_open (abs_service w) \<and> (\<forall>c. bd_jobs (abs_service w) (c, jobID) = None)
            \<and> abs_service w' = (abs_service w)
                \<lparr>bd_jobs := (bd_jobs (abs_service w))((a, jobID) \<mapsto> Live (of_int32 count) [])\<rparr>)
         \<or> (\<exists>e. svc_calls w' k = Some (Answered [] (Inl e))) \<and> abs_service w' = abs_service w"
proof -
  have inv: "shop_inv (svc_shop w)" using assms(1) by (simp add: svc_inv_def)
  obtain t r where c: "Create None now a (of_int32 count) (sh_store (svc_shop w)) = (t, r)" by force
  show ?thesis
  proof (cases r)
    case (Inl e)
    have "t = sh_store (svc_shop w)" using Create_fails c Inl by blast
    with step c Inl have "\<exists>e. svc_calls w' k = Some (Answered [] (Inl e))" "sh_store (svc_shop w') = sh_store (svc_shop w)"
      by (auto simp: service_step_def Start_def service_agentID_def answer_def split: if_splits)
    then show ?thesis by (simp add: abs_service_def abs_shop_def)
  next
    case (Inr jobID)
    with step c have w': "svc_calls w' k = Some (Answered [] (Inr (Some (StartResponse jobID))))"
      "svc_shop w' = (svc_shop w)\<lparr>sh_store := t\<rparr>"
      by (auto simp: service_step_def Start_def service_agentID_def answer_def split: if_splits)
    from created_board [OF inv c [unfolded Inr]] w' show ?thesis by (auto simp: abs_service_def)
  qed
qed

text \<open>What \<open>GetStatus\<close> answers, read off the board.\<close>

definition status_answer :: "service \<Rightarrow> agent_id \<Rightarrow> job_id \<Rightarrow> wire_status result" where
  "status_answer w a jobID =
     (case bd_jobs (abs_service w) (a, jobID) of
        None \<Rightarrow> Inl (StatusErr CodeNotFound ''job not found'')
      | Some x \<Rightarrow> Inr (snd (protoStatus (svc_logger w) (status_text (spec_status x)))))"

lemma GetStatus_reads_board:
  assumes "service_step dur (OnGetStatus k (Some a) jobID) w = Some w'"
  shows "abs_service w' = abs_service w"
    and "svc_calls w' k = Some (Answered [] (map_sum id (\<lambda>ws. Some (GetStatusResponse ws)) (status_answer w a jobID)))"
  using assms
  by (auto simp: service_step_def findJob_def service_agentID_def answer_def abs_service_def
      abs_shop_def abs_job_views status_answer_def split: if_splits option.splits prod.splits)

section \<open>Properties\<close>

text \<open>
  C9. A job implements its specification: whatever the scheduler, its readers, callers of \<open>Stop\<close> and
  its context do, its ticks and status are those of a run of the live job of its count, and what a
  reader has been handed is a beginning of the ticks of that run.
\<close>

theorem job_refines_spec:
  assumes "NewJob ctxErr now jobID count mean lg = Inr s0" and "job_reaches s0 s"
  shows "spec_step\<^sup>*\<^sup>* (Live count []) (abs_job s)
    \<and> spec_status (abs_job s) = Status (js_job s)
    \<and> (\<forall>i r. js_readers s i = Some r \<longrightarrow> (\<exists>n. rd_delivered r = take n (spec_ticks (abs_job s))))"
proof -
  have "sys_inv s" by (rule reachable_inv(1) [OF assms])
  moreover have "sys_inv s0" using NewJob_ok [OF assms(1)] by blast
  from board_job.reaches_refines [OF assms(2) this] have "spec_step\<^sup>*\<^sup>* (Live count []) (abs_job s)"
    by (simp add: new_job_live [OF assms(1)])
  ultimately show ?thesis
    using reader_inv_take sys_invD(2) by (simp add: abs_job_views)
qed

theorem job_refines_spec_witness:
  "spec_step\<^sup>*\<^sup>* (Live 2 []) (abs_job sample_end) \<and> spec_status (abs_job sample_end) = StatusStopped"
  using job_refines_spec [OF sample_new sample_reaches(1)] sample_end_facts(2) by (simp add: Status_def)

text \<open>
  C8. The service implements the board. Every run of it, with any interleaving of RPCs, goroutines,
  readers and shutdowns, is seen as a run of the board from the empty one; \<open>Start\<close> by an agent answers an
  id exactly when a live job of that count went up under it on an open board, and leaves the board as it
  was otherwise; and \<open>GetStatus\<close> answers the status on the board of the agent's own job, or NotFound,
  and changes nothing on it.
\<close>

theorem service_refines_board:
  assumes "reaches (service_step dur) (NewService lg) w"
  shows "board_step\<^sup>*\<^sup>* empty_board (abs_service w)
    \<and> (\<forall>k a now count w'. service_step dur (OnStart k (Some a) now count) w = Some w' \<longrightarrow>
         (\<exists>jobID. svc_calls w' k = Some (Answered [] (Inr (Some (StartResponse jobID))))
            \<and> bd_open (abs_service w) \<and> bd_jobs (abs_service w) (a, jobID) = None
            \<and> abs_service w' = (abs_service w)
                \<lparr>bd_jobs := (bd_jobs (abs_service w))((a, jobID) \<mapsto> Live (of_int32 count) [])\<rparr>)
         \<or> (\<exists>e. svc_calls w' k = Some (Answered [] (Inl e))) \<and> abs_service w' = abs_service w)
    \<and> (\<forall>k a jobID w'. service_step dur (OnGetStatus k (Some a) jobID) w = Some w' \<longrightarrow>
         abs_service w' = abs_service w
         \<and> svc_calls w' k = Some (Answered []
             (case bd_jobs (abs_service w) (a, jobID) of
                None \<Rightarrow> Inl (StatusErr CodeNotFound ''job not found'')
              | Some x \<Rightarrow> Inr (Some (GetStatusResponse
                  (snd (protoStatus (svc_logger w) (status_text (spec_status x)))))))))"
proof (intro conjI allI impI)
  show "board_step\<^sup>*\<^sup>* empty_board (abs_service w)"
    using board.reaches_refines [OF assms NewService_inv] by (simp add: abs_NewService)
next
  fix k a now count w' assume "service_step dur (OnStart k (Some a) now count) w = Some w'"
  from Start_moves_board [OF reachable_service [OF assms] this]
  show "(\<exists>jobID. svc_calls w' k = Some (Answered [] (Inr (Some (StartResponse jobID))))
            \<and> bd_open (abs_service w) \<and> bd_jobs (abs_service w) (a, jobID) = None
            \<and> abs_service w' = (abs_service w)
                \<lparr>bd_jobs := (bd_jobs (abs_service w))((a, jobID) \<mapsto> Live (of_int32 count) [])\<rparr>)
         \<or> (\<exists>e. svc_calls w' k = Some (Answered [] (Inl e))) \<and> abs_service w' = abs_service w"
    by blast
next
  fix k a jobID w' assume step: "service_step dur (OnGetStatus k (Some a) jobID) w = Some w'"
  from GetStatus_reads_board [OF step] show "abs_service w' = abs_service w"
    and "svc_calls w' k = Some (Answered []
             (case bd_jobs (abs_service w) (a, jobID) of
                None \<Rightarrow> Inl (StatusErr CodeNotFound ''job not found'')
              | Some x \<Rightarrow> Inr (Some (GetStatusResponse
                  (snd (protoStatus (svc_logger w) (status_text (spec_status x))))))))"
    by (auto simp: status_answer_def split: option.split)
qed

theorem service_refines_board_witness:
  "board_step\<^sup>*\<^sup>* empty_board (abs_service sample_service)
   \<and> (\<exists>w'. service_step sample_dur (OnGetStatus 3 (Some ''bob'') ''ann/0'') sample_service = Some w'
        \<and> abs_service w' = abs_service sample_service)"
  using service_refines_board [OF sample_service_reaches] sample_service_steps(3) by blast

end
