(* ===== verification/Call_Course.thy ===== *)
theory Call_Course
  imports Board
begin

text \<open>
  The course of one RPC among all the others: which steps of the service are those of a call, what the
  other steps leave of it, and what a \<open>Stop\<close> and a stream whose client stays have come to after any
  run. The job a call is about is seen on the board.
\<close>

section \<open>The other steps\<close>

fun event_call :: "service_event \<Rightarrow> nat option" where
  "event_call (OnShop e) = None"
| "event_call (OnStart k ctx now count) = Some k"
| "event_call (OnStop k ctx jobID i) = Some k"
| "event_call (OnStopAnswer k) = Some k"
| "event_call (OnGetStatus k ctx jobID) = Some k"
| "event_call (OnStream k ctx jobID r) = Some k"
| "event_call (OnRead k e) = Some k"
| "event_call (OnSend k failure) = Some k"
| "event_call (OnStreamEnd k) = Some k"

lemma other_calls_kept:
  "call_step dur e w = Some w' \<Longrightarrow> event_call e \<noteq> Some l \<Longrightarrow> svc_calls w' l = svc_calls w l"
  by (cases e) (auto simp: Let_def simp del: shop_move.simps
      split: if_splits option.splits prod.splits sum.splits call.splits stop_pc.splits revent.splits)

text \<open>The readers a step may change are those of its own call, or one that was not open.\<close>

definition keeps_streams :: "service_event \<Rightarrow> service \<Rightarrow> service \<Rightarrow> bool" where
  "keeps_streams e w w' \<longleftrightarrow>
     (\<exists>R. keeps_calls R (svc_shop w) (svc_shop w')
        \<and> (\<forall>l a p r sent. event_call e \<noteq> Some l \<longrightarrow> svc_calls w l = Some (Streaming a p r sent) \<longrightarrow> (p, r) \<notin> R))"

lemma keeps_streams_same: "svc_shop w' = svc_shop w \<Longrightarrow> keeps_streams e w w'"
  unfolding keeps_streams_def by (rule exI [of _ "{}"]) (simp add: keeps_calls_refl)

lemma keeps_streams_all: "keeps_calls {} (svc_shop w) (svc_shop w') \<Longrightarrow> keeps_streams e w w'"
  unfolding keeps_streams_def by (rule exI [of _ "{}"]) simp

lemma keeps_streams_job:
  assumes inv: "svc_inv dur w" and step: "shop_move (EvJob p je) (svc_shop w) = Some (svc_shop w')"
    and own: "\<And>l a q r sent. event_call e \<noteq> Some l \<Longrightarrow> svc_calls w l = Some (Streaming a q r sent)
      \<Longrightarrow> (q, r) \<notin> touches p je"
  shows "keeps_streams e w w'"
proof -
  have "shop_inv (svc_shop w)" using inv by (simp add: svc_inv_def)
  from job_event_keeps(2) [OF this step] own show ?thesis unfolding keeps_streams_def by blast
qed

lemma stream_open:
  assumes "svc_inv dur w" and "svc_calls w l = Some (Streaming a p r sent)"
  shows "js_readers (svc_jobs w ! p) r \<noteq> None"
proof -
  have "call_inv dur (svc_shop w) (Streaming a p r sent)" using assms by (simp add: svc_inv_def)
  then show ?thesis by (auto simp: call_inv_def)
qed

lemma open_stream_keeps:
  assumes inv: "svc_inv dur w" and step: "call_step dur (OnStream k ctx jobID r) w = Some w'"
  shows "keeps_streams (OnStream k ctx jobID r) w w'"
proof -
  from step consider "svc_shop w' = svc_shop w"
    | p where "shop_move (EvJob p (OpenReader r)) (svc_shop w) = Some (svc_shop w')"
    by (auto split: if_splits prod.splits sum.splits simp del: shop_move.simps)
  then show ?thesis
  proof cases
    case 2
    then have "js_readers (svc_jobs w ! p) r = None"
      by (auto simp: job_step_def split: if_splits option.splits)
    with stream_open [OF inv] show ?thesis by (fastforce intro!: keeps_streams_job [OF inv 2])
  qed (rule keeps_streams_same)
qed

lemma call_step_keeps:
  assumes inv: "svc_inv dur w" and step: "call_step dur e w = Some w'"
  shows "keeps_streams e w w'"
proof -
  have sh: "shop_inv (svc_shop w)" and own: "own_reader (svc_calls w)" using inv by (simp_all add: svc_inv_def)
  note other = own_reader_other [OF own]
  show ?thesis
  proof (cases e)
    case (OnShop se)
    with step have "background se" "shop_move se (svc_shop w) = Some (svc_shop w')" by (auto split: if_splits)
    from background_keeps [OF sh this] show ?thesis by (rule keeps_streams_all)
  next
    case (OnStart k ctx now count)
    obtain st logged r where start: "Start (svc_logger w) now ctx count (sh_store (svc_shop w)) = (st, logged, r)"
      using prod_cases3 by blast
    with OnStart step have "svc_shop w' = (svc_shop w)\<lparr>sh_store := st\<rparr>" by (auto split: if_splits)
    with Start_keeps(1) [OF sh start] show ?thesis by (simp add: keeps_streams_all)
  next
    case (OnStop k ctx jobID i)
    with step consider "svc_shop w' = svc_shop w"
      | p where "shop_move (EvJob p (CallStop i)) (svc_shop w) = Some (svc_shop w')"
      by (auto split: if_splits prod.splits sum.splits simp del: shop_move.simps)
    then show ?thesis by cases (auto intro: keeps_streams_same keeps_streams_job [OF inv])
  next
    case (OnStream k ctx jobID r)
    with open_stream_keeps [OF inv] step show ?thesis by simp
  next
    case (OnRead k re)
    with step obtain a p r sent where c: "svc_calls w k = Some (Streaming a p r sent)"
      "shop_move (EvJob p (Reader r re)) (svc_shop w) = Some (svc_shop w')"
      by (auto split: option.splits call.splits revent.splits simp del: shop_move.simps)
    with other [OF c(1)] OnRead show ?thesis by (fastforce intro!: keeps_streams_job [OF inv c(2)])
  next
    case (OnSend k failure)
    from step [unfolded OnSend] show ?thesis
    proof (rule send_turn [OF inv])
      fix a p r sent s t
      assume c: "svc_calls w k = Some (Streaming a p r sent)"
        and "shop_move (EvJob p (Reader r (RdYield (failure = None)))) (svc_shop w) = Some s" "svc_shop w' = s"
      then have "shop_move (EvJob p (Reader r (RdYield (failure = None)))) (svc_shop w) = Some (svc_shop w')" by simp
      from keeps_streams_job [OF inv this, of e] other [OF c] OnSend show ?thesis by fastforce
    qed
  qed (use step in \<open>auto intro!: keeps_streams_same split: if_splits option.splits call.splits
      stop_pc.splits prod.splits sum.splits\<close>)
qed

lemma found_kept:
  assumes "svc_inv dur w" and "call_step dur e w = Some w'" and "Find a jobID (svc_registry w) = Some p"
  shows "Find a jobID (svc_registry w') = Some p"
  using call_step_keeps [OF assms(1,2)] assms(3) by (auto simp: keeps_streams_def keeps_calls_def)

lemma stream_reader_kept:
  assumes inv: "svc_inv dur w" and step: "call_step dur e w = Some w'"
    and c: "svc_calls w k = Some (Streaming a p r sent)" and e: "event_call e \<noteq> Some k"
  shows "js_readers (svc_jobs w' ! p) r = js_readers (svc_jobs w ! p) r"
proof -
  have "call_inv dur (svc_shop w) (Streaming a p r sent)" using inv c by (simp add: svc_inv_def)
  then have "p < length (svc_jobs w)" by (auto simp: call_inv_def)
  with call_step_keeps [OF inv step] c e show ?thesis by (auto simp: keeps_streams_def keeps_calls_def)
qed

lemma answer_kept:
  assumes "call_step dur e w = Some w'" and "svc_calls w k = Some (Answered sent res)"
  shows "svc_calls w' k = Some (Answered sent res)"
proof (cases "event_call e = Some k")
  case True
  with assms show ?thesis by (cases e) auto
qed (use other_calls_kept [OF assms(1)] assms(2) in simp)

section \<open>The job on the board\<close>

lemma board_step_job:
  assumes "board_step b b'" and "bd_jobs b key = Some x"
  shows "\<exists>y. bd_jobs b' key = Some y \<and> spec_step\<^sup>=\<^sup>= x y"
  using assms by (cases rule: board_step.cases) (auto simp: fun_upd_def)

text \<open>A job that is on the board stays there and moves as its specification does.\<close>

lemma board_runs_job:
  assumes "board_step\<^sup>*\<^sup>* b b'" and "bd_jobs b key = Some x"
  shows "\<exists>y. bd_jobs b' key = Some y \<and> spec_step\<^sup>*\<^sup>* x y"
  using assms
proof (induction rule: rtranclp_induct)
  case (step b1 b2)
  then obtain y where y: "bd_jobs b1 key = Some y" "spec_step\<^sup>*\<^sup>* x y" by blast
  from board_step_job [OF step.hyps(2) y(1)] obtain z where "bd_jobs b2 key = Some z" "spec_step\<^sup>=\<^sup>= y z"
    by blast
  with y(2) show ?case by (auto intro: rtranclp.rtrancl_into_rtrancl)
qed auto

lemma over_kept:
  assumes "svc_inv dur w" and "service_step dur e w = Some w'"
    and "bd_jobs (abs_service w) key = Some (Over st ts)"
  shows "bd_jobs (abs_service w') key = Some (Over st ts)"
  using service_step_refines [OF assms(1,2)] board_step_job [OF _ assms(3)] assms(3) by auto

lemma board_of_found:
  "Find a jobID (svc_registry w) = Some p \<Longrightarrow> bd_jobs (abs_service w) (a, jobID) = Some (abs_job (svc_jobs w ! p))"
  by (simp add: abs_service_def abs_shop_def)

lemma abs_job_over:
  "Status (js_job s) \<noteq> StatusRunning \<Longrightarrow> abs_job s = Over (Status (js_job s)) (job_ticks (js_job s))"
  by (simp add: abs_job_def Status_def)

section \<open>The course of a Stop\<close>

text \<open>The call waits for \<open>Job.Stop\<close> on the agent's job, or has answered with the status it ended in.\<close>

definition stop_course :: "nat \<Rightarrow> agent_id \<Rightarrow> job_id \<Rightarrow> service \<Rightarrow> bool" where
  "stop_course k a jobID w \<longleftrightarrow>
     (\<exists>p i. svc_calls w k = Some (Stopping p i) \<and> Find a jobID (svc_registry w) = Some p)
     \<or> (\<exists>st ts. svc_calls w k = Some (Answered [] (Inr (Some (StopResponse (wire_of st)))))
          \<and> bd_jobs (abs_service w) (a, jobID) = Some (Over st ts))"

lemma stop_course_step:
  assumes inv: "svc_inv dur w" and course: "stop_course k a jobID w" and step: "service_step dur e w = Some w'"
  shows "stop_course k a jobID w'"
proof -
  have call: "call_step dur e w = Some w'" using step by (simp add: service_step_def split: if_splits)
  from course show ?thesis unfolding stop_course_def [of k a jobID w]
  proof (elim disjE exE conjE)
    fix p i assume c: "svc_calls w k = Some (Stopping p i)" and f: "Find a jobID (svc_registry w) = Some p"
    show ?thesis
    proof (cases "e = OnStopAnswer k")
      case False
      then have "svc_calls w' k = svc_calls w k"
        using call c other_calls_kept [OF call, of k] by (cases "event_call e = Some k"; cases e) auto
      with c found_kept [OF inv call f] show ?thesis unfolding stop_course_def by simp
    next
      case True
      then obtain st where st: "js_stops (svc_jobs w ! p) i = Some (StopReturned st)"
        using call c by (auto split: option.splits stop_pc.splits)
      have "sys_inv (svc_jobs w ! p)"
      proof -
        have "call_inv dur (svc_shop w) (Stopping p i)" using inv c by (simp add: svc_inv_def)
        with inv show ?thesis by (simp add: call_inv_def svc_inv_def shop_inv_def store_inv_def)
      qed
      from sys_invD(3) [OF this st] have s: "st = Status (js_job (svc_jobs w ! p))" "st \<noteq> StatusRunning"
        by (auto simp: stop_inv_def Status_def)
      obtain lg where "protoStatus (svc_logger w) (status_text st) = (lg, wire_of st)"
        using protoStatus_wire by (metis prod.collapse)
      with True call c st have w': "svc_shop w' = svc_shop w"
        "svc_calls w' k = Some (Answered [] (Inr (Some (StopResponse (wire_of st)))))" by auto
      from board_of_found [OF f] abs_job_over s w'(1)
      have "bd_jobs (abs_service w') (a, jobID) = Some (Over st (job_ticks (js_job (svc_jobs w ! p))))"
        by (simp add: abs_service_def)
      with w'(2) show ?thesis unfolding stop_course_def by blast
    qed
  next
    fix st ts assume "svc_calls w k = Some (Answered [] (Inr (Some (StopResponse (wire_of st)))))"
      and "bd_jobs (abs_service w) (a, jobID) = Some (Over st ts)"
    with answer_kept [OF call] over_kept [OF inv step] show ?thesis unfolding stop_course_def by blast
  qed
qed

interpretation stopping: invariant_steps "service_step dur" "\<lambda>w. svc_inv dur w \<and> stop_course k a jobID w"
  for dur k a jobID
  by unfold_locales (use service.step_keeps stop_course_step in blast)

section \<open>The course of a stream\<close>

text \<open>The stream of call \<open>k\<close> is not cut: its context does not end and no \<open>Send\<close> of it fails.\<close>

fun uncut :: "nat \<Rightarrow> service_event \<Rightarrow> bool" where
  "uncut k (OnRead l e) \<longleftrightarrow> l = k \<longrightarrow> e \<noteq> RdCancelled"
| "uncut k (OnSend l failure) \<longleftrightarrow> l = k \<longrightarrow> failure = None"
| "uncut k e \<longleftrightarrow> True"

definition uncut_step :: "(int \<Rightarrow> wire_duration) \<Rightarrow> nat \<Rightarrow> service_event \<Rightarrow> service \<Rightarrow> service option" where
  "uncut_step dur k e w = (if uncut k e then service_step dur e w else None)"

lemma uncut_run:
  "list_all (uncut k) es \<Longrightarrow> run_events (uncut_step dur k) es w = run_events (service_step dur) es w"
  by (induction es arbitrary: w) (auto simp: uncut_step_def split: option.split)

text \<open>
  The call sends what its reader is given of the agent's job, or has returned after every tick of a job
  that is over.
\<close>

definition stream_course :: "(int \<Rightarrow> wire_duration) \<Rightarrow> nat \<Rightarrow> agent_id \<Rightarrow> job_id \<Rightarrow> service \<Rightarrow> bool" where
  "stream_course dur k a jobID w \<longleftrightarrow>
     (\<exists>p r sent rd. svc_calls w k = Some (Streaming a p r sent) \<and> Find a jobID (svc_registry w) = Some p
        \<and> js_readers (svc_jobs w ! p) r = Some rd \<and> \<not> rd_ctxDone rd \<and> rd_pc rd \<noteq> RDone ByContext)
     \<or> (\<exists>st ts. svc_calls w k = Some (Answered (map (sent_tick dur) ts) (Inr None))
          \<and> bd_jobs (abs_service w) (a, jobID) = Some (Over st ts))"

lemma reader_step_uncut:
  "reader_step e j rd = Some rd' \<Longrightarrow> e \<noteq> RdCancelled \<Longrightarrow> \<not> rd_ctxDone rd \<Longrightarrow> rd_pc rd \<noteq> RDone ByContext
     \<Longrightarrow> \<not> rd_ctxDone rd' \<and> rd_pc rd' \<noteq> RDone ByContext"
  by (cases e) (auto split: rpc.splits if_splits simp: Let_def)

lemma read_step_reader:
  assumes "shop_move (EvJob p (Reader r e)) s = Some t" and "js_readers (sh_jobs s ! p) r = Some rd"
  shows "\<exists>rd'. reader_step e (js_job (sh_jobs s ! p)) rd = Some rd' \<and> js_readers (sh_jobs t ! p) r = Some rd'"
  using assms by (auto simp: job_step_def set_job_def split: if_splits)

lemma stream_course_read:
  assumes inv: "svc_inv dur w" and call: "call_step dur e w = Some w'"
    and f: "Find a jobID (svc_registry w) = Some p" and rd: "js_readers (svc_jobs w ! p) r = Some rd"
    and uncut: "\<not> rd_ctxDone rd" "rd_pc rd \<noteq> RDone ByContext" "re \<noteq> RdCancelled"
    and move: "shop_move (EvJob p (Reader r re)) (svc_shop w) = Some (svc_shop w')"
    and c: "svc_calls w' k = Some (Streaming a p r sent)"
  shows "stream_course dur k a jobID w'"
  using read_step_reader [OF move rd] reader_step_uncut [OF _ uncut(3,1,2)] c found_kept [OF inv call f]
  unfolding stream_course_def by blast

lemma stream_course_end:
  assumes inv: "svc_inv dur w" and call: "call_step dur (OnStreamEnd k) w = Some w'"
    and f: "Find a jobID (svc_registry w) = Some p" and c: "svc_calls w k = Some (Streaming a p r sent)"
    and rd: "js_readers (svc_jobs w ! p) r = Some rd" and ok: "\<not> rd_ctxDone rd" "rd_pc rd \<noteq> RDone ByContext"
  shows "stream_course dur k a jobID w'"
proof -
  from call c have w': "reader_ended (svc_jobs w ! p) r" "svc_shop w' = svc_shop w"
    "svc_calls w' k = Some (Answered sent (Inr None))" by (auto split: if_splits)
  show ?thesis
  proof (rule stream_reader [OF inv c])
    fix rd' assume rd': "js_readers (svc_jobs w ! p) r = Some rd'"
      "sent = map (sent_tick dur) (rd_delivered rd')" "reader_inv (js_job (svc_jobs w ! p)) rd'"
    with w'(1) rd ok have "rd_pc rd' = RDone ByTerminal" by (simp add: reader_ended_def)
    with rd' have all: "sent = map (sent_tick dur) (job_ticks (js_job (svc_jobs w ! p)))"
      "Status (js_job (svc_jobs w ! p)) \<noteq> StatusRunning" by (simp_all add: reader_inv_def Status_def)
    from board_of_found [OF f] abs_job_over [OF all(2)] w'(2)
    have "bd_jobs (abs_service w') (a, jobID) = Some (Over (Status (js_job (svc_jobs w ! p)))
        (job_ticks (js_job (svc_jobs w ! p))))" by (simp add: abs_service_def)
    with w'(3) all(1) show ?thesis unfolding stream_course_def by blast
  qed
qed

lemma stream_course_step:
  assumes inv: "svc_inv dur w" and course: "stream_course dur k a jobID w"
    and step: "uncut_step dur k e w = Some w'"
  shows "stream_course dur k a jobID w'"
proof -
  have own: "uncut k e" and st: "service_step dur e w = Some w'" and call: "call_step dur e w = Some w'"
    using step by (auto simp: uncut_step_def service_step_def split: if_splits)
  from course show ?thesis unfolding stream_course_def [of dur k a jobID w]
  proof (elim disjE exE conjE)
    fix p r sent rd
    assume c: "svc_calls w k = Some (Streaming a p r sent)" and f: "Find a jobID (svc_registry w) = Some p"
      and rd: "js_readers (svc_jobs w ! p) r = Some rd" and ok: "\<not> rd_ctxDone rd" "rd_pc rd \<noteq> RDone ByContext"
    show ?thesis
    proof (cases "event_call e = Some k")
      case False
      with c f rd ok other_calls_kept [OF call] found_kept [OF inv call f] stream_reader_kept [OF inv call c]
      show ?thesis unfolding stream_course_def by auto
    next
      case True
      then consider re where "e = OnRead k re" | failure where "e = OnSend k failure" | "e = OnStreamEnd k"
        using call c by (cases e) auto
      then show ?thesis
      proof cases
        case (1 re)
        with call c have move: "shop_move (EvJob p (Reader r re)) (svc_shop w) = Some (svc_shop w')"
          and c': "svc_calls w' k = Some (Streaming a p r sent)"
          by (auto split: revent.splits simp del: shop_move.simps)
        show ?thesis by (rule stream_course_read [OF inv call f rd ok _ move c']) (use own 1 in simp)
      next
        case (2 failure)
        with own have failure: "failure = None" by simp
        from call [unfolded 2] show ?thesis
        proof (rule send_turn [OF inv])
          fix a' p' r' sent' s t
          assume "svc_calls w k = Some (Streaming a' p' r' sent')"
            and "shop_move (EvJob p' (Reader r' (RdYield (failure = None)))) (svc_shop w) = Some s"
            and "svc_shop w' = s" and "svc_calls w' = (svc_calls w)(k \<mapsto> (case failure of
        None \<Rightarrow> Streaming a' p' r' (sent' @ [sent_tick dur t]) | Some e \<Rightarrow> Answered (sent' @ [sent_tick dur t]) (Inl e)))"
          with c failure have "shop_move (EvJob p (Reader r (RdYield True))) (svc_shop w) = Some (svc_shop w')"
            "svc_calls w' k = Some (Streaming a p r (sent @ [sent_tick dur t]))" by auto
          from stream_course_read [OF inv call f rd ok _ this] show ?thesis by simp
        qed
      next
        case 3
        from stream_course_end [OF inv call [unfolded 3] f c rd ok] show ?thesis .
      qed
    qed
  next
    fix s ts assume "svc_calls w k = Some (Answered (map (sent_tick dur) ts) (Inr None))"
      and "bd_jobs (abs_service w) (a, jobID) = Some (Over s ts)"
    with answer_kept [OF call] over_kept [OF inv st] show ?thesis unfolding stream_course_def by blast
  qed
qed

interpretation streaming: invariant_steps "uncut_step dur k" "\<lambda>w. svc_inv dur w \<and> stream_course dur k a jobID w"
  for dur k a jobID
proof unfold_locales
  fix w e w' assume "svc_inv dur w \<and> stream_course dur k a jobID w" and "uncut_step dur k e w = Some w'"
  then show "svc_inv dur w' \<and> stream_course dur k a jobID w'"
    using stream_course_step [of dur w k a jobID e w'] service.step_keeps [of dur w e w']
    by (simp add: uncut_step_def split: if_splits)
qed

end
