(* ===== verification/Fair_Service.thy ===== *)
theory Fair_Service
  imports Fair_Job Drain Call_Course
begin

text \<open>
  The service under a fair scheduler. A run of the service is, for each of its jobs, a run of that job;
  if the scheduler is fair to the goroutines of the jobs and of the handlers, then every RPC that waits,
  a \<open>Stop\<close> or a stream, is answered, in every run.
\<close>

section \<open>The run of a job in a run of the service\<close>

text \<open>What an event of the service is to the job at \<open>p\<close>, if anything.\<close>

definition at_job :: "nat \<Rightarrow> nat \<Rightarrow> job_event \<Rightarrow> job_event option" where
  "at_job p q je = (if q = p then Some je else None)"

fun shop_event_at :: "nat \<Rightarrow> shop \<Rightarrow> shop_event \<Rightarrow> job_event option" where
  "shop_event_at p s (EvJob q je) = at_job p q je"
| "shop_event_at p s (EvGo k n i) =
     (case sh_shutdowns s k of
        Some (ShutWaiting ps) \<Rightarrow> at_job p (fst (ps ! n)) (CallStop i)
      | _ \<Rightarrow> None)"
| "shop_event_at p s e = None"

fun job_event_at :: "nat \<Rightarrow> service \<Rightarrow> service_event \<Rightarrow> job_event option" where
  "job_event_at p w (OnShop e) = shop_event_at p (svc_shop w) e"
| "job_event_at p w (OnStop k ctx jobID i) =
     (case findJob (svc_logger w) ctx jobID (svc_registry w) of
        (_, Inr (q, _)) \<Rightarrow> at_job p q (CallStop i)
      | _ \<Rightarrow> None)"
| "job_event_at p w (OnStream k ctx jobID r) =
     (case findJob (svc_logger w) ctx jobID (svc_registry w) of
        (_, Inr (q, _)) \<Rightarrow> at_job p q (OpenReader r)
      | _ \<Rightarrow> None)"
| "job_event_at p w (OnRead k e) =
     (case svc_calls w k of Some (Streaming a q r sent) \<Rightarrow> at_job p q (Reader r e) | _ \<Rightarrow> None)"
| "job_event_at p w (OnSend k failure) =
     (case svc_calls w k of
        Some (Streaming a q r sent) \<Rightarrow> at_job p q (Reader r (RdYield (failure = None)))
      | _ \<Rightarrow> None)"
| "job_event_at p w e = None"

text \<open>A job either stands still or takes its step.\<close>

definition job_follows :: "nat \<Rightarrow> job_event option \<Rightarrow> job_sys list \<Rightarrow> job_sys list \<Rightarrow> bool" where
  "job_follows p je jobs jobs' \<longleftrightarrow> p < length jobs' \<and>
     (case je of None \<Rightarrow> jobs' ! p = jobs ! p | Some e \<Rightarrow> job_step e (jobs ! p) = Some (jobs' ! p))"

lemma job_follows_same: "jobs' = jobs \<Longrightarrow> p < length jobs \<Longrightarrow> job_follows p None jobs jobs'"
  by (simp add: job_follows_def)

lemma job_event_follows:
  assumes "shop_move (EvJob q je) s = Some t" and "p < length (sh_jobs s)"
  shows "job_follows p (at_job p q je) (sh_jobs s) (sh_jobs t)"
  using assms by (auto simp: job_follows_def at_job_def set_job_def nth_list_update split: if_splits)

lemma shop_move_follows:
  assumes inv: "shop_inv s" and step: "shop_move e s = Some t" and p: "p < length (sh_jobs s)"
    and "background e"
  shows "job_follows p (shop_event_at p s e) (sh_jobs s) (sh_jobs t)"
proof (cases e)
  case (EvJob q je)
  with job_event_follows step p show ?thesis by (metis shop_event_at.simps(1))
next
  case (EvGo k n i)
  then obtain ps j where "sh_shutdowns s k = Some (ShutWaiting ps)"
    "job_step (CallStop i) (sh_jobs s ! fst (ps ! n)) = Some j" "sh_jobs t = (sh_jobs s)[fst (ps ! n) := j]"
    using step by (auto simp: set_job_def split: option.splits shutdown_pc.splits if_splits)
  with EvGo p show ?thesis by (auto simp: job_follows_def at_job_def nth_list_update)
qed (use assms in \<open>auto simp: Shutdown_snapshot_def intro!: job_follows_same
    split: option.splits shutdown_pc.splits if_splits\<close>)

lemma Start_jobs:
  assumes "Start lg now ctx count s = (st, logged, r)"
  shows "st_jobs st = st_jobs s \<or> (\<exists>job. st_jobs st = st_jobs s @ [job])"
proof -
  have "st = s \<or> (\<exists>a r. Create None now a (of_int32 count) s = (st, r))"
    using assms by (auto simp: Start_def split: sum.splits prod.splits if_splits)
  then show ?thesis by (auto elim: Create_cases)
qed

lemma service_step_follows:
  assumes inv: "svc_inv dur w" and step: "service_step dur e w = Some w'" and p: "p < length (svc_jobs w)"
  shows "job_follows p (job_event_at p w e) (svc_jobs w) (svc_jobs w')"
proof -
  have call: "call_step dur e w = Some w'" using step by (simp add: service_step_def split: if_splits)
  have sh: "shop_inv (svc_shop w)" using inv by (simp add: svc_inv_def)
  note same = job_follows_same [OF _ p] and turn = job_event_follows [OF _ p]
  show ?thesis
  proof (cases e)
    case (OnShop se)
    with call shop_move_follows [OF sh _ p] show ?thesis by (auto split: if_splits)
  next
    case (OnStart k ctx now count)
    obtain st logged r where start: "Start (svc_logger w) now ctx count (sh_store (svc_shop w)) = (st, logged, r)"
      using prod_cases3 by blast
    have "svc_shop w' = (svc_shop w)\<lparr>sh_store := st\<rparr>" using OnStart call start by (auto split: if_splits)
    moreover have "st_jobs st ! p = svc_jobs w ! p \<and> p < length (st_jobs st)"
      using Start_jobs [OF start] p by (elim disjE exE) (simp_all add: nth_append)
    ultimately show ?thesis using OnStart by (simp add: job_follows_def)
  next
    case (OnStop k ctx jobID i)
    with call turn same show ?thesis
      by (auto split: if_splits prod.splits sum.splits simp del: shop_move.simps)
  next
    case (OnStream k ctx jobID r)
    with call turn same show ?thesis
      by (auto split: if_splits prod.splits sum.splits simp del: shop_move.simps)
  next
    case (OnRead k re)
    with call turn show ?thesis
      by (auto split: option.splits call.splits revent.splits simp del: shop_move.simps)
  next
    case (OnSend k failure)
    with call turn show ?thesis
      by (auto simp: Let_def split: option.splits call.splits prod.splits simp del: shop_move.simps)
  qed (use call same in \<open>auto split: if_splits option.splits call.splits stop_pc.splits prod.splits sum.splits\<close>)
qed

text \<open>From where a job is there on, a run of the service is a run of it.\<close>

definition job_at :: "nat \<Rightarrow> (nat \<Rightarrow> service) \<Rightarrow> nat \<Rightarrow> job_sys" where
  "job_at p \<sigma> n = svc_jobs (\<sigma> n) ! p"

definition job_events :: "nat \<Rightarrow> (nat \<Rightarrow> service) \<Rightarrow> (nat \<Rightarrow> service_event option) \<Rightarrow> nat \<Rightarrow> job_event option" where
  "job_events p \<sigma> ev n = Option.bind (ev n) (job_event_at p (\<sigma> n))"

lemma job_run_in_service:
  assumes run: "follows (service_step dur) \<sigma> ev" and inv: "svc_inv dur (\<sigma> 0)" and p: "p < length (svc_jobs (\<sigma> 0))"
  shows "follows job_step (job_at p \<sigma>) (job_events p \<sigma> ev)" and "svc_inv dur (\<sigma> n) \<and> p < length (svc_jobs (\<sigma> n))"
proof -
  have one: "svc_inv dur w' \<and> job_follows p (job_event_at p w e) (svc_jobs w) (svc_jobs w')"
    if "svc_inv dur w \<and> p < length (svc_jobs w)" "service_step dur e w = Some w'" for e w w'
    using that service.step_keeps service_step_follows by blast
  have here: "svc_inv dur (\<sigma> n) \<and> p < length (svc_jobs (\<sigma> n))" for n
  proof (rule follows_stable [OF run, of 0 n])
    show "svc_inv dur w' \<and> p < length (svc_jobs w')"
      if "svc_inv dur w \<and> p < length (svc_jobs w)" "service_step dur e w = Some w'" for w e w'
      using one [OF that] by (simp add: job_follows_def)
  qed (use inv p in simp_all)
  then show "svc_inv dur (\<sigma> n) \<and> p < length (svc_jobs (\<sigma> n))" .
  show "follows job_step (job_at p \<sigma>) (job_events p \<sigma> ev)"
    unfolding follows_def
  proof
    fix n
    from follows_step [OF run, of n]
    show "case job_events p \<sigma> ev n of None \<Rightarrow> job_at p \<sigma> (Suc n) = job_at p \<sigma> n
      | Some e \<Rightarrow> job_step e (job_at p \<sigma> n) = Some (job_at p \<sigma> (Suc n))"
    proof (elim disjE exE conjE)
      fix e assume e: "ev n = Some e" and "service_step dur e (\<sigma> n) = Some (\<sigma> (Suc n))"
      from one [OF here this(2)] e show ?thesis by (simp add: job_events_def job_at_def job_follows_def split: option.splits)
    qed (simp add: job_events_def job_at_def)
  qed
qed

section \<open>What the scheduler owes a service\<close>

text \<open>
  The goroutines: the countdown of the job at \<open>p\<close>; the call \<open>i\<close> of \<open>Job.Stop\<close> on it; the handler that
  answers the \<open>Stop\<close> of call \<open>k\<close> once that has returned; the handler of the stream of call \<open>k\<close>; and, of the
  shutdown \<open>k\<close>, the goroutine it starts for the \<open>n\<close>th job and the one that waits for those.
\<close>

datatype goroutine =
    Countdown nat
  | StopCall nat nat
  | StopHandler nat
  | StreamHandler nat
  | Stopper nat nat
  | Closer nat

text \<open>Whose turn an event is. Panics, ends of contexts and new calls are nobody's.\<close>

fun turn_of :: "service_event \<Rightarrow> goroutine option" where
  "turn_of (OnShop (EvJob p (Worker e))) = (if is_work e \<and> \<not> is_panic e then Some (Countdown p) else None)"
| "turn_of (OnShop (EvJob p (StepStop i))) = Some (StopCall p i)"
| "turn_of (OnShop (EvGo k n i)) = Some (Stopper k n)"
| "turn_of (OnShop (EvWait k)) = Some (Closer k)"
| "turn_of (OnStopAnswer k) = Some (StopHandler k)"
| "turn_of (OnRead k e) = (if e = RdCancelled then None else Some (StreamHandler k))"
| "turn_of (OnSend k failure) = Some (StreamHandler k)"
| "turn_of (OnStreamEnd k) = Some (StreamHandler k)"
| "turn_of e = None"

abbreviation turns :: "goroutine \<Rightarrow> service_event \<Rightarrow> bool" where
  "turns g e \<equiv> turn_of e = Some g"

text \<open>
  A fair run of a service no job of which crashes the process. New calls, cancellations, panics, failures
  to send and shutdowns may come at any time and in any number.
\<close>

definition fair_service :: "(int \<Rightarrow> wire_duration) \<Rightarrow> (nat \<Rightarrow> service) \<Rightarrow> (nat \<Rightarrow> service_event option) \<Rightarrow> bool" where
  "fair_service dur \<sigma> ev \<longleftrightarrow> follows (service_step dur) \<sigma> ev
     \<and> (\<forall>n. live_jobs (svc_jobs (\<sigma> n)))
     \<and> (\<forall>p t n. p < length (svc_jobs (\<sigma> n)) \<longrightarrow> (\<exists>m\<ge>n. t \<le> cd_now (js_countdown (svc_jobs (\<sigma> m) ! p))))
     \<and> (\<forall>g. fair (service_step dur) (turns g) \<sigma> ev)"

lemma fair_serviceD:
  assumes "fair_service dur \<sigma> ev"
  shows "follows (service_step dur) \<sigma> ev" "live_jobs (svc_jobs (\<sigma> n))"
    "p < length (svc_jobs (\<sigma> n)) \<Longrightarrow> \<exists>m\<ge>n. t \<le> cd_now (js_countdown (svc_jobs (\<sigma> m) ! p))"
    "fair (service_step dur) (turns g) \<sigma> ev"
  using assms by (auto simp: fair_service_def)

lemma fair_service_from:
  assumes "fair_service dur \<sigma> ev"
  shows "fair_service dur (\<lambda>m. \<sigma> (n + m)) (\<lambda>m. ev (n + m))"
  unfolding fair_service_def
proof (intro conjI allI impI)
  fix p t m assume "p < length (svc_jobs (\<sigma> (n + m)))"
  from fair_serviceD(3) [OF assms this, of t] obtain l where
    "l \<ge> n + m" "t \<le> cd_now (js_countdown (svc_jobs (\<sigma> l) ! p))" by blast
  then show "\<exists>l\<ge>m. t \<le> cd_now (js_countdown (svc_jobs (\<sigma> (n + l)) ! p))"
    by (auto simp: le_iff_add add.assoc)
qed (use fair_serviceD [OF assms] follows_from fair_from in blast)+

text \<open>A background event of a job that can be taken is one the service can take.\<close>

lemma job_event_ready:
  assumes "live_jobs (svc_jobs w)" and "p < length (svc_jobs w)" and "job_step e (svc_jobs w ! p) \<noteq> None"
    and "background (EvJob p e)"
  shows "service_step dur (OnShop (EvJob p e)) w \<noteq> None"
  using assms by (auto simp: service_step_def)

section \<open>Every job ends\<close>

lemma job_scheduled:
  assumes fair: "fair_service dur \<sigma> ev" and inv: "svc_inv dur (\<sigma> 0)" and p: "p < length (svc_jobs (\<sigma> 0))"
  shows "scheduled (job_at p \<sigma>) (job_events p \<sigma> ev)"
  unfolding scheduled_def
proof (intro conjI allI)
  note run = job_run_in_service [OF fair_serviceD(1) [OF fair] inv p]
  show "follows job_step (job_at p \<sigma>) (job_events p \<sigma> ev)" by (rule run(1))
  show "cd_pc (js_countdown (job_at p \<sigma> n)) \<noteq> CCrashed" for n
    unfolding job_at_def using live_job [OF fair_serviceD(2) [OF fair]] run(2) by blast
  show "\<exists>m\<ge>n. t \<le> cd_now (js_countdown (job_at p \<sigma> m))" for t n
    unfolding job_at_def using fair_serviceD(3) [OF fair] run(2) by blast
  show "fair job_step statement (job_at p \<sigma>) (job_events p \<sigma> ev)"
  proof (rule fair_part [OF fair_serviceD(4) [OF fair, of "Countdown p"]])
    fix n assume "ready job_step statement (job_at p \<sigma> n)"
    then obtain e where e: "statement e" "job_step e (svc_jobs (\<sigma> n) ! p) \<noteq> None"
      by (auto simp: ready_def job_at_def)
    from e(1) obtain c where c: "e = Worker c" "is_work c" "\<not> is_panic c" by (cases e) auto
    then have "background (EvJob p e)" by (cases c) auto
    with e c job_event_ready [OF fair_serviceD(2) [OF fair]] run(2) [of n]
    show "ready (service_step dur) (turns (Countdown p)) (\<sigma> n)"
      by (intro readyI [of _ "OnShop (EvJob p e)"]) auto
  next
    fix n e assume "ev n = Some e" "turns (Countdown p) e"
    then show "\<exists>f. job_events p \<sigma> ev n = Some f \<and> statement f"
      by (cases e rule: turn_of.cases) (auto simp: job_events_def at_job_def split: if_splits)
  qed
qed

text \<open>The job at \<open>p\<close> keeps its invariant and comes to its end.\<close>

lemma job_ends:
  assumes "fair_service dur \<sigma> ev" and "svc_inv dur (\<sigma> 0)" and "p < length (svc_jobs (\<sigma> 0))"
  shows "sys_inv (job_at p \<sigma> n)" and "\<exists>d. job_ended (job_at p \<sigma> d)"
proof -
  show sys: "sys_inv (job_at p \<sigma> n)" for n
    using job_run_in_service(2) [OF fair_serviceD(1) [OF assms(1)] assms(2,3), of n]
    by (auto simp: job_at_def svc_inv_def shop_inv_def store_inv_def)
  show "\<exists>d. job_ended (job_at p \<sigma> d)" using goroutine_ends [OF job_scheduled [OF assms] sys] by blast
qed

section \<open>A Stop is answered\<close>

definition call_answered :: "nat \<Rightarrow> service \<Rightarrow> bool" where
  "call_answered k w \<longleftrightarrow> (\<exists>sent res. svc_calls w k = Some (Answered sent res))"

text \<open>A call that waits goes on waiting, for the same thing, until it is answered.\<close>

lemma stopping_waits:
  assumes "service_step dur e w = Some w'" and "svc_calls w k = Some (Stopping p i)"
  shows "call_answered k w' \<or> svc_calls w' k = Some (Stopping p i) \<and> e \<noteq> OnStopAnswer k"
proof -
  have call: "call_step dur e w = Some w'" using assms(1) by (simp add: service_step_def split: if_splits)
  show ?thesis
  proof (cases "event_call e = Some k")
    case True
    with call assms(2) show ?thesis
      by (cases e) (auto simp: call_answered_def split: option.splits stop_pc.splits prod.splits)
  qed (use other_calls_kept [OF call] assms(2) in auto)
qed

lemma waits_for_good:
  assumes run: "follows (service_step dur) \<sigma> ev" and never: "\<And>n. \<not> call_answered k (\<sigma> n)" and "P (\<sigma> 0)"
    and waits: "\<And>e w w'. service_step dur e w = Some w' \<Longrightarrow> P w \<Longrightarrow> call_answered k w' \<or> P w' \<and> Q e"
  shows "P (\<sigma> n)" and "ev n = Some e \<Longrightarrow> Q e"
proof -
  have one: "P (\<sigma> (Suc m)) \<and> (\<forall>e. ev m = Some e \<longrightarrow> Q e)" if "P (\<sigma> m)" for m
    using follows_step [OF run, of m]
  proof (elim disjE exE conjE)
    fix e assume "ev m = Some e" and step: "service_step dur e (\<sigma> m) = Some (\<sigma> (Suc m))"
    with waits [OF step that] never [of "Suc m"] show ?thesis by simp
  qed (use that in simp)
  show here: "P (\<sigma> n)" by (induction n) (use assms(3) one in auto)
  show "ev n = Some e \<Longrightarrow> Q e" using one [OF here] by blast
qed

lemma returned_for_good:
  "follows job_step \<sigma> ev \<Longrightarrow> m \<le> n \<Longrightarrow> js_stops (\<sigma> m) i = Some (StopReturned st)
    \<Longrightarrow> js_stops (\<sigma> n) i = Some (StopReturned st)"
  using follows_stable [of job_step \<sigma> ev m n "\<lambda>s. js_stops s i = Some (StopReturned st)"]
    stop_returned_step by blast

text \<open>A call of \<open>Job.Stop\<close>, whoever made it, returns.\<close>

lemma call_returns:
  assumes fair: "fair_service dur \<sigma> ev" and inv: "svc_inv dur (\<sigma> 0)" and p: "p < length (svc_jobs (\<sigma> 0))"
    and called: "js_stops (svc_jobs (\<sigma> 0) ! p) i \<noteq> None"
  shows "\<exists>m st. \<forall>n\<ge>m. js_stops (svc_jobs (\<sigma> n) ! p) i = Some (StopReturned st)"
proof -
  note run = job_run_in_service [OF fair_serviceD(1) [OF fair] inv p]
  note sys = job_ends(1) [OF fair inv p]
  obtain d where d: "job_ended (job_at p \<sigma> d)" using job_ends(2) [OF fair inv p] by blast
  have fairs: "fair job_step (\<lambda>e. e = StepStop i) (job_at p \<sigma>) (job_events p \<sigma> ev)"
  proof (rule fair_part [OF fair_serviceD(4) [OF fair, of "StopCall p i"]])
    fix n assume "ready job_step (\<lambda>e. e = StepStop i) (job_at p \<sigma> n)"
    with job_event_ready [OF fair_serviceD(2) [OF fair]] run(2) [of n]
    show "ready (service_step dur) (turns (StopCall p i)) (\<sigma> n)"
      by (intro readyI [of _ "OnShop (EvJob p (StepStop i))"]) (auto simp: ready_def job_at_def)
  next
    fix n e assume "ev n = Some e" "turns (StopCall p i) e"
    then show "\<exists>f. job_events p \<sigma> ev n = Some f \<and> f = StepStop i"
      by (cases e rule: turn_of.cases) (auto simp: job_events_def at_job_def split: if_splits)
  qed
  have "js_stops (job_at p \<sigma> 0) i \<noteq> None" using called by (simp add: job_at_def)
  then have "js_stops (job_at p \<sigma> d) i \<noteq> None" by (rule still_there(1) [OF run(1) le0])
  from caller_is_answered [OF run(1) fairs sys d this] obtain m st where
    "js_stops (job_at p \<sigma> m) i = Some (StopReturned st)" by blast
  with returned_for_good [OF run(1)] show ?thesis unfolding job_at_def by blast
qed

lemma stop_answered:
  assumes fair: "fair_service dur \<sigma> ev" and inv: "svc_inv dur (\<sigma> 0)" and c: "svc_calls (\<sigma> 0) k = Some (Stopping p i)"
  shows "\<exists>n. call_answered k (\<sigma> n)"
proof (rule ccontr)
  assume "\<nexists>n. call_answered k (\<sigma> n)"
  then have never: "\<not> call_answered k (\<sigma> n)" for n by blast
  note good = waits_for_good [of dur \<sigma> ev k "\<lambda>w. svc_calls w k = Some (Stopping p i)"
      "\<lambda>e. e \<noteq> OnStopAnswer k", OF fair_serviceD(1) [OF fair] never c]
  have waits: "svc_calls (\<sigma> n) k = Some (Stopping p i)" "ev n \<noteq> Some (OnStopAnswer k)" for n
    using good(1) good(2) [of n] stopping_waits by blast+
  have "call_inv dur (svc_shop (\<sigma> 0)) (Stopping p i)" using inv c by (simp add: svc_inv_def)
  then have "p < length (svc_jobs (\<sigma> 0))" "js_stops (svc_jobs (\<sigma> 0) ! p) i \<noteq> None"
    by (auto simp: call_inv_def)
  from call_returns [OF fair inv this] obtain m st where
    st: "js_stops (svc_jobs (\<sigma> n) ! p) i = Some (StopReturned st)" if "m \<le> n" for n by blast
  have "ready (service_step dur) (turns (StopHandler k)) (\<sigma> n)" if "m \<le> n" for n
    using fair_serviceD(2) [OF fair] waits(1) st [OF that]
    by (intro readyI [of _ "OnStopAnswer k"]) (auto simp: service_step_def split: prod.splits)
  with fair_serviceD(4) [OF fair, of "StopHandler k"] obtain n e where n: "ev n = Some e" "turns (StopHandler k) e"
    unfolding fair_def by blast
  then have "e = OnStopAnswer k" by (cases e rule: turn_of.cases) (auto split: if_splits)
  with n(1) waits(2) [of n] show False by simp
qed

section \<open>A stream ends\<close>

lemma streaming_waits:
  assumes "service_step dur e w = Some w'" and "\<exists>sent. svc_calls w k = Some (Streaming a p r sent)"
  shows "call_answered k w' \<or> (\<exists>sent. svc_calls w' k = Some (Streaming a p r sent)) \<and> e \<noteq> OnStreamEnd k"
proof -
  have call: "call_step dur e w = Some w'" using assms(1) by (simp add: service_step_def split: if_splits)
  show ?thesis
  proof (cases "event_call e = Some k")
    case True
    with call assms(2) show ?thesis
      by (cases e) (auto simp: call_answered_def Let_def simp del: shop_move.simps
        split: option.splits revent.splits prod.splits if_splits)
  qed (use other_calls_kept [OF call] assms(2) in auto)
qed

text \<open>What the reader of a stream is ready for, its handler is ready for.\<close>

lemma stream_ready:
  assumes live: "live_jobs (svc_jobs w)" and p: "p < length (svc_jobs w)"
    and c: "svc_calls w k = Some (Streaming a p r sent)"
    and ready: "ready job_step (reads r) (svc_jobs w ! p)"
  shows "ready (service_step dur) (turns (StreamHandler k)) w"
proof -
  from ready obtain re where re: "re \<noteq> RdCancelled" "job_step (Reader r re) (svc_jobs w ! p) \<noteq> None"
    unfolding ready_def by (metis reads.elims(2))
  show ?thesis
  proof (cases "\<exists>b. re = RdYield b")
    case True
    then obtain rd lo i hi wait where "js_readers (svc_jobs w ! p) r = Some rd"
      "rd_pc rd = RBatch lo i hi wait" "i < hi" "cd_pc (js_countdown (svc_jobs w ! p)) \<noteq> CCrashed"
      using re(2) by (auto simp: job_step_def split: if_splits option.splits rpc.splits)
    with live p c show ?thesis
      by (intro readyI [of _ "OnSend k None"])
         (auto simp: service_step_def Let_def job_step_def next_tick_def split: prod.splits)
  next
    case False
    with live p c re show ?thesis
      by (intro readyI [of _ "OnRead k re"]) (cases re; auto simp: service_step_def)+
  qed
qed

lemma reader_done_for_good:
  assumes run: "follows job_step \<sigma> ev" and "m \<le> n" and "js_readers (\<sigma> m) r = Some rd" and "\<not> reading (rd_pc rd)"
  shows "\<exists>rd. js_readers (\<sigma> n) r = Some rd \<and> \<not> reading (rd_pc rd)"
proof (rule follows_stable [OF run assms(2)])
  fix s s' e
  assume "\<exists>rd. js_readers s r = Some rd \<and> \<not> reading (rd_pc rd)" and step: "job_step e s = Some s'"
  then obtain rd where rd: "js_readers s r = Some rd" "\<not> reading (rd_pc rd)" by blast
  have "\<not> reading (rd_pc rd')" if "reader_step re j rd = Some rd'" for re j rd'
    using that rd(2) by (cases re; cases "rd_pc rd") auto
  with readers_step [OF step rd(1)] rd(2) show "\<exists>rd. js_readers s' r = Some rd \<and> \<not> reading (rd_pc rd)" by blast
qed (use assms(3,4) in blast)

lemma stream_events:
  assumes "svc_calls w k = Some (Streaming a p r sent)" and "turns (StreamHandler k) e" and "e \<noteq> OnStreamEnd k"
  shows "\<exists>f. job_event_at p w e = Some f \<and> reads r f"
  using assms by (cases e rule: turn_of.cases) (auto simp: at_job_def split: if_splits)

text \<open>The reader of a stream that is never answered comes to its end, for good.\<close>

lemma stream_reader_ends:
  assumes fair: "fair_service dur \<sigma> ev" and inv: "svc_inv dur (\<sigma> 0)"
    and waits: "\<And>n. \<exists>sent. svc_calls (\<sigma> n) k = Some (Streaming a p r sent)"
    and turn: "\<And>n e. ev n = Some e \<Longrightarrow> turns (StreamHandler k) e \<Longrightarrow> \<exists>f. job_events p \<sigma> ev n = Some f \<and> reads r f"
  shows "\<exists>m. \<forall>n\<ge>m. \<exists>rd. js_readers (job_at p \<sigma> n) r = Some rd \<and> \<not> reading (rd_pc rd)"
proof -
  obtain sent where "svc_calls (\<sigma> 0) k = Some (Streaming a p r sent)" using waits by blast
  then have "call_inv dur (svc_shop (\<sigma> 0)) (Streaming a p r sent)" using inv by (simp add: svc_inv_def)
  then have p: "p < length (svc_jobs (\<sigma> 0))" and opened: "js_readers (job_at p \<sigma> 0) r \<noteq> None"
    by (auto simp: call_inv_def job_at_def)
  note run = job_run_in_service [OF fair_serviceD(1) [OF fair] inv p]
  note sys = job_ends(1) [OF fair inv p]
  obtain d where d: "job_ended (job_at p \<sigma> d)" using job_ends(2) [OF fair inv p] by blast
  have fairs: "fair job_step (reads r) (job_at p \<sigma>) (job_events p \<sigma> ev)"
  proof (rule fair_part [OF fair_serviceD(4) [OF fair, of "StreamHandler k"] _ turn])
    show "ready (service_step dur) (turns (StreamHandler k)) (\<sigma> n)" if "ready job_step (reads r) (job_at p \<sigma> n)" for n
      using stream_ready [OF fair_serviceD(2) [OF fair]] run(2) [of n] waits [of n] that
      unfolding job_at_def by blast
  qed
  have "js_readers (job_at p \<sigma> d) r \<noteq> None" using still_there(2) [OF run(1) _ opened] by simp
  from reader_ends [OF run(1) fairs sys d this] obtain m rd where
    "js_readers (job_at p \<sigma> m) r = Some rd" "\<not> reading (rd_pc rd)" by blast
  with reader_done_for_good [OF run(1)] show ?thesis by blast
qed

lemma stream_answered:
  assumes fair: "fair_service dur \<sigma> ev" and inv: "svc_inv dur (\<sigma> 0)"
    and c: "svc_calls (\<sigma> 0) k = Some (Streaming a p r sent)"
  shows "\<exists>n. call_answered k (\<sigma> n)"
proof (rule ccontr)
  assume "\<nexists>n. call_answered k (\<sigma> n)"
  then have never: "\<not> call_answered k (\<sigma> n)" for n by blast
  have "\<exists>sent. svc_calls (\<sigma> 0) k = Some (Streaming a p r sent)" using c by blast
  note good = waits_for_good [of dur \<sigma> ev k "\<lambda>w. \<exists>sent. svc_calls w k = Some (Streaming a p r sent)"
      "\<lambda>e. e \<noteq> OnStreamEnd k", OF fair_serviceD(1) [OF fair] never this]
  have waits: "\<exists>sent. svc_calls (\<sigma> n) k = Some (Streaming a p r sent)" "ev n \<noteq> Some (OnStreamEnd k)" for n
    using good(1) good(2) [of n] streaming_waits by blast+
  have turn: "\<exists>f. job_events p \<sigma> ev n = Some f \<and> reads r f" if "ev n = Some e" "turns (StreamHandler k) e" for n e
    using stream_events [OF _ that(2)] waits [of n] that(1) by (auto simp: job_events_def)
  obtain m where over: "\<exists>rd. js_readers (job_at p \<sigma> n) r = Some rd \<and> \<not> reading (rd_pc rd)" if "m \<le> n" for n
    using stream_reader_ends [OF fair inv waits(1)] turn by blast
  have "p < length (svc_jobs (\<sigma> 0))" using call_job [OF inv c] by blast
  note run = job_run_in_service [OF fair_serviceD(1) [OF fair] inv this]
  have "ready (service_step dur) (turns (StreamHandler k)) (\<sigma> n)" if "m \<le> n" for n
  proof -
    obtain sent where c: "svc_calls (\<sigma> n) k = Some (Streaming a p r sent)" using waits(1) by blast
    then have "call_inv dur (svc_shop (\<sigma> n)) (Streaming a p r sent)" using run(2) [of n] by (simp add: svc_inv_def)
    with over [OF that] have "reader_ended (svc_jobs (\<sigma> n) ! p) r"
      by (auto simp: call_inv_def reader_ended_def job_at_def elim!: reading.elims intro: done_reason.exhaust)
    with c fair_serviceD(2) [OF fair] show ?thesis
      by (intro readyI [of _ "OnStreamEnd k"]) (simp_all add: service_step_def)
  qed
  with fair_serviceD(4) [OF fair, of "StreamHandler k"] obtain n e where n: "n \<ge> m" "ev n = Some e" "turns (StreamHandler k) e"
    unfolding fair_def by blast
  obtain f where f: "job_events p \<sigma> ev n = Some f" "reads r f" using turn [OF n(2,3)] by blast
  with follows_step [OF run(1), of n] done_reader_rests over [OF n(1)] show False by auto
qed

lemma call_is_answered:
  assumes "fair_service dur \<sigma> ev" and "svc_inv dur (\<sigma> 0)" and "svc_calls (\<sigma> 0) k = Some c"
  shows "\<exists>n. call_answered k (\<sigma> n)"
proof (cases c)
  case (Stopping p i)
  with stop_answered assms show ?thesis by blast
next
  case (Streaming a p r sent)
  with stream_answered assms show ?thesis by blast
next
  case (Answered sent res)
  with assms(3) show ?thesis unfolding call_answered_def by blast
qed

section \<open>What the answer is\<close>

text \<open>The job of a call has a name, for good, and what the board shows under it is its end.\<close>

lemma job_named:
  assumes "svc_inv dur w" and "p < length (svc_jobs w)"
  shows "\<exists>a jobID. Find a jobID (svc_registry w) = Some p"
  using assms by (simp add: svc_inv_def shop_inv_def store_inv_def)

lemma over_job:
  assumes "bd_jobs (abs_service w) (a, jobID) = Some (Over st ts)" and "Find a jobID (svc_registry w) = Some p"
  shows "Status (js_job (svc_jobs w ! p)) = st" "st \<noteq> StatusRunning" "job_ticks (js_job (svc_jobs w ! p)) = ts"
  using assms board_of_found [of a jobID w p] by (auto simp: abs_job_def Status_def split: if_splits)

lemma named_for_good:
  assumes run: "follows (service_step dur) \<sigma> ev" and inv: "svc_inv dur (\<sigma> n)" and "n \<le> m"
    and "Find a jobID (svc_registry (\<sigma> n)) = Some p"
  shows "svc_inv dur (\<sigma> m) \<and> Find a jobID (svc_registry (\<sigma> m)) = Some p"
proof (rule follows_stable [OF run assms(3)])
  show "svc_inv dur w' \<and> Find a jobID (svc_registry w') = Some p"
    if "svc_inv dur w \<and> Find a jobID (svc_registry w) = Some p" "service_step dur e w = Some w'" for w e w'
    using that service.step_keeps found_kept [of dur w e w' a jobID p] by (auto simp: service_step_def split: if_splits)
qed (use assms in blast)

lemma stop_result:
  assumes run: "follows (service_step dur) \<sigma> ev" and inv: "svc_inv dur (\<sigma> n)" and "n \<le> m"
    and c: "svc_calls (\<sigma> n) k = Some (Stopping p i)" and answer: "svc_calls (\<sigma> m) k = Some (Answered sent res)"
  shows "sent = [] \<and> Status (js_job (svc_jobs (\<sigma> m) ! p)) \<noteq> StatusRunning
    \<and> res = Inr (Some (StopResponse (wire_of (Status (js_job (svc_jobs (\<sigma> m) ! p))))))"
proof -
  obtain a jobID where f: "Find a jobID (svc_registry (\<sigma> n)) = Some p"
    using job_named [OF inv] call_job [OF inv c] by blast
  with c have course: "stop_course k a jobID (\<sigma> n)" unfolding stop_course_def by blast
  have "svc_inv dur (\<sigma> m) \<and> stop_course k a jobID (\<sigma> m)"
    by (rule follows_stable [OF run assms(3)]) (use inv course stopping.step_keeps in blast)+
  with answer obtain st ts where st: "sent = []" "res = Inr (Some (StopResponse (wire_of st)))"
    "bd_jobs (abs_service (\<sigma> m)) (a, jobID) = Some (Over st ts)"
    unfolding stop_course_def by auto
  with over_job [OF st(3)] named_for_good [OF run inv assms(3) f] show ?thesis by simp
qed

text \<open>A stream of which nothing is cut has, at any time, a reader whose context has not ended.\<close>

definition stream_stays :: "nat \<Rightarrow> service \<Rightarrow> bool" where
  "stream_stays k w \<longleftrightarrow> (\<forall>a p r sent. svc_calls w k = Some (Streaming a p r sent) \<longrightarrow>
     (\<exists>rd. js_readers (svc_jobs w ! p) r = Some rd \<and> \<not> rd_ctxDone rd \<and> rd_pc rd \<noteq> RDone ByContext))"

lemma stream_opened:
  assumes "call_step dur e w = Some w'" and "svc_calls w' k = Some (Streaming a p r sent)"
    and "\<nexists>sent. svc_calls w k = Some (Streaming a p r sent)"
  shows "js_readers (svc_jobs w' ! p) r = Some new_reader"
proof (cases "event_call e = Some k")
  case True
  with assms show ?thesis
    by (cases e) (auto simp: Let_def job_step_def set_job_def
      split: if_splits option.splits prod.splits sum.splits call.splits stop_pc.splits revent.splits)
qed (use other_calls_kept [OF assms(1)] assms(2,3) in auto)

lemma stream_named:
  assumes "svc_inv dur w" and "svc_calls w k = Some (Streaming a p r sent)"
  shows "\<exists>jobID. Find a jobID (svc_registry w) = Some p"
proof -
  have "call_inv dur (svc_shop w) (Streaming a p r sent)" using assms by (simp add: svc_inv_def)
  then show ?thesis by (auto simp: call_inv_def)
qed

lemma stays_course:
  assumes "svc_inv dur w" and "stream_stays k w" and "svc_calls w k = Some (Streaming a p r sent)"
  shows "\<exists>jobID. Find a jobID (svc_registry w) = Some p \<and> stream_course dur k a jobID w"
  using stream_named [OF assms(1,3)] assms(2,3) unfolding stream_stays_def stream_course_def by blast

lemma stream_stays_step:
  assumes inv: "svc_inv dur w" and stays: "stream_stays k w" and step: "uncut_step dur k e w = Some w'"
  shows "stream_stays k w'"
  unfolding stream_stays_def
proof (intro allI impI)
  fix a p r sent'
  assume c': "svc_calls w' k = Some (Streaming a p r sent')"
  have call: "call_step dur e w = Some w'" using step by (auto simp: uncut_step_def service_step_def split: if_splits)
  show "\<exists>rd. js_readers (svc_jobs w' ! p) r = Some rd \<and> \<not> rd_ctxDone rd \<and> rd_pc rd \<noteq> RDone ByContext"
  proof (cases "\<exists>sent. svc_calls w k = Some (Streaming a p r sent)")
    case True
    then obtain jobID where "stream_course dur k a jobID w" using stays_course [OF inv stays] by blast
    from stream_course_step [OF inv this step] c' show ?thesis unfolding stream_course_def by auto
  qed (use stream_opened [OF call c'] in \<open>simp add: new_reader_def\<close>)
qed

lemma follows_uncut:
  assumes "follows (service_step dur) \<sigma> ev" and "\<forall>n e. ev n = Some e \<longrightarrow> uncut k e"
  shows "follows (uncut_step dur k) \<sigma> ev"
  unfolding follows_def
proof
  fix n
  show "case ev n of None \<Rightarrow> \<sigma> (Suc n) = \<sigma> n | Some e \<Rightarrow> uncut_step dur k e (\<sigma> n) = Some (\<sigma> (Suc n))"
    using follows_step [OF assms(1), of n] assms(2) by (cases "ev n") (auto simp: uncut_step_def)
qed

lemma stream_result:
  assumes run: "follows (service_step dur) \<sigma> ev" and uncut: "\<forall>n e. ev n = Some e \<longrightarrow> uncut k e"
    and start: "svc_inv dur (\<sigma> 0)" "stream_stays k (\<sigma> 0)" and "n \<le> m"
    and c: "svc_calls (\<sigma> n) k = Some (Streaming a p r sent0)" and answer: "svc_calls (\<sigma> m) k = Some (Answered sent res)"
  shows "res = Inr None \<and> Status (js_job (svc_jobs (\<sigma> m) ! p)) \<noteq> StatusRunning
    \<and> sent = map (sent_tick dur) (job_ticks (js_job (svc_jobs (\<sigma> m) ! p)))"
proof -
  note urun = follows_uncut [OF run uncut]
  have "svc_inv dur (\<sigma> n) \<and> stream_stays k (\<sigma> n)"
  proof (rule follows_stable [OF urun, of 0 n])
    show "svc_inv dur w' \<and> stream_stays k w'" if "svc_inv dur w \<and> stream_stays k w" "uncut_step dur k e w = Some w'"
      for w e w'
    proof -
      have "service_step dur e w = Some w'" using that(2) by (auto simp: uncut_step_def split: if_splits)
      with that stream_stays_step service.step_keeps show ?thesis by blast
    qed
  qed (use start in auto)
  then have n: "svc_inv dur (\<sigma> n)" "stream_stays k (\<sigma> n)" by simp_all
  obtain jobID where f: "Find a jobID (svc_registry (\<sigma> n)) = Some p" "stream_course dur k a jobID (\<sigma> n)"
    using stays_course [OF n c] by blast
  have "svc_inv dur (\<sigma> m) \<and> stream_course dur k a jobID (\<sigma> m)"
    by (rule follows_stable [OF urun \<open>n \<le> m\<close>]) (use n(1) f(2) streaming.step_keeps in blast)+
  with answer obtain st ts where st: "sent = map (sent_tick dur) ts" "res = Inr None"
    "bd_jobs (abs_service (\<sigma> m)) (a, jobID) = Some (Over st ts)"
    unfolding stream_course_def by auto
  with over_job [OF st(3)] named_for_good [OF run n(1) \<open>n \<le> m\<close> f(1)] show ?thesis by simp
qed

section \<open>A fair run\<close>

text \<open>
  A service all of whose calls are answered, all of whose jobs have ended and all of whose shutdowns
  have returned has nothing to do.
\<close>

definition job_at_rest :: "job_sys \<Rightarrow> bool" where
  "job_at_rest j \<longleftrightarrow> job_ended j \<and> (\<forall>i pc. js_stops j i = Some pc \<longrightarrow> (\<exists>st. pc = StopReturned st))"

definition at_rest :: "service \<Rightarrow> bool" where
  "at_rest w \<longleftrightarrow> all_answered w \<and> list_all job_at_rest (svc_jobs w)
     \<and> (\<forall>k pc. sh_shutdowns (svc_shop w) k = Some pc \<longrightarrow> pc = ShutReturned)"

lemma at_rest_call: "at_rest w \<Longrightarrow> svc_calls w k = None \<or> (\<exists>sent res. svc_calls w k = Some (Answered sent res))"
  by (cases "svc_calls w k") (auto simp: at_rest_def all_answered_def)

lemma at_rest_shutdown: "at_rest w \<Longrightarrow> sh_shutdowns (svc_shop w) k \<in> {None, Some ShutReturned}"
  by (cases "sh_shutdowns (svc_shop w) k") (auto simp: at_rest_def)

lemma at_rest_job:
  assumes "at_rest w" and "p < length (svc_jobs w)"
  shows "statement e \<Longrightarrow> job_step e (svc_jobs w ! p) = None" "job_step (StepStop i) (svc_jobs w ! p) = None"
proof -
  have rest: "job_at_rest (svc_jobs w ! p)" using assms by (auto simp: at_rest_def list_all_length)
  show "statement e \<Longrightarrow> job_step e (svc_jobs w ! p) = None"
    using rest ended_rests by (auto simp: job_at_rest_def)
  show "job_step (StepStop i) (svc_jobs w ! p) = None"
    using rest by (cases "js_stops (svc_jobs w ! p) i")
      (auto simp: job_at_rest_def job_step_def stop_step_def split: stop_pc.split)
qed

lemma rests:
  assumes "at_rest w"
  shows "\<not> ready (service_step dur) (turns g) w"
proof -
  have "service_step dur e w = None" if "turns g e" for e
  proof (cases "event_call e")
    case (Some l)
    with that at_rest_call [OF assms, of l] show ?thesis
      by (cases e) (auto simp: service_step_def split: if_splits)
  next
    case None
    then obtain se where e: "e = OnShop se" by (cases e) auto
    have "shop_move se (svc_shop w) = None"
    proof (cases se)
      case (EvJob p je)
      with that e have "statement je \<or> (\<exists>i. je = StepStop i)" by (cases je) (auto split: if_splits)
      with at_rest_job [OF assms, of p] EvJob show ?thesis by auto
    next
      case (EvGo k n i)
      with at_rest_shutdown [OF assms, of k] show ?thesis by auto
    next
      case (EvWait k)
      with at_rest_shutdown [OF assms, of k] show ?thesis by auto
    qed (use that e in auto)
    with e show ?thesis by (simp add: service_step_def)
  qed
  then show ?thesis by (auto simp: ready_def)
qed

text \<open>The calls of \<open>sample_calls\<close> are answered, and then only time passes.\<close>

definition answered_calls :: "service_event list" where
  "answered_calls = sample_calls @ [OnStreamEnd 1, OnStopAnswer 2]"

definition answered_service :: service where
  "answered_service = the (run_events (service_step sample_dur) answered_calls (NewService None))"

definition answered_later :: "nat \<Rightarrow> service" where
  "answered_later n = answered_service\<lparr>svc_shop := set_job 0
     ((svc_jobs answered_service ! 0)\<lparr>js_countdown := (js_countdown (svc_jobs answered_service ! 0))
        \<lparr>cd_now := int n\<rparr>\<rparr>) (svc_shop answered_service)\<rparr>"

abbreviation answered_at :: "nat \<Rightarrow> service" where
  "answered_at \<equiv> run_then (service_step sample_dur) answered_calls (NewService None) answered_later"

abbreviation answered_event_at :: "nat \<Rightarrow> service_event option" where
  "answered_event_at \<equiv> events_then answered_calls (\<lambda>n. OnShop (EvJob 0 (Worker (EvTime (int (Suc n))))))"

lemma answered_to_later:
  "run_events (service_step sample_dur) answered_calls (NewService None) = Some (answered_later 0)"
  by (simp add: answered_later_def answered_service_def answered_calls_def sample_calls_def service_evals)

lemma answered_jobs:
  "length (svc_jobs answered_service) = 1" "job_ended (svc_jobs answered_service ! 0)"
  "js_stops (svc_jobs answered_service ! 0) i = (if i = 0 then Some (StopReturned StatusCompleted) else None)"
  by (simp_all add: answered_service_def answered_calls_def sample_calls_def service_evals)

lemma answered_calls_all: "all_answered answered_service"
  "sh_shutdowns (svc_shop answered_service) k = None"
  by (simp_all add: all_answered_def answered_service_def answered_calls_def sample_calls_def service_evals)

lemma answered_later_jobs:
  "svc_jobs (answered_later n) = [(svc_jobs answered_service ! 0)\<lparr>js_countdown :=
     (js_countdown (svc_jobs answered_service ! 0))\<lparr>cd_now := int n\<rparr>\<rparr>]"
  using answered_jobs(1) by (cases "svc_jobs answered_service") (simp_all add: answered_later_def set_job_def)

lemma answered_at_rest: "at_rest (answered_later n)"
  using answered_calls_all answered_jobs(2,3)
  by (simp add: at_rest_def answered_later_jobs job_at_rest_def)
     (simp add: answered_later_def all_answered_def set_job_def)

lemma answered_live: "live_jobs (svc_jobs (answered_later n))"
  by (simp add: live_jobs_def answered_later_jobs answered_jobs(2))

lemma answered_ticks:
  "service_step sample_dur (OnShop (EvJob 0 (Worker (EvTime (int (Suc n)))))) (answered_later n)
     = Some (answered_later (Suc n))"
  using answered_live
  by (simp add: service_step_def answered_later_jobs job_step_def answered_jobs(2))
     (simp add: answered_later_def set_job_def)

lemma answered_is_fair: "fair_service sample_dur answered_at answered_event_at"
proof -
  have run: "follows (service_step sample_dur) answered_at answered_event_at"
    by (rule run_then_follows [where later = answered_later, OF answered_to_later answered_ticks])
  have live: "live_jobs (svc_jobs (answered_at n))" for n
  proof (cases "n < length answered_calls")
    case True
    from run_then_before [where later = answered_later, OF answered_to_later this] show ?thesis
      by (auto simp: service_step_def split: if_splits)
  qed (simp add: run_then_later answered_live)
  have clock: "\<exists>m\<ge>n. t \<le> cd_now (js_countdown (svc_jobs (answered_at m) ! p))"
    if "p < length (svc_jobs (answered_at n))" for p t n
  proof -
    let ?m = "n + (length answered_calls + nat t)"
    have "svc_inv sample_dur (answered_at 0)" using NewService_inv by (simp add: run_then_def answered_calls_def)
    then have "svc_inv sample_dur (answered_at n)"
      using service.reaches_keeps [OF follows_reaches [OF run]] by blast
    from job_run_in_service(2) [OF follows_from [OF run, of n], of p "?m - n"] that this
    have "p < length (svc_jobs (answered_at ?m))" by simp
    then have "p = 0" by (simp add: run_then_later answered_later_jobs)
    then have "t \<le> cd_now (js_countdown (svc_jobs (answered_at ?m) ! p))"
      by (simp add: run_then_later answered_later_jobs)
    then show ?thesis by (intro exI [of _ ?m]) simp
  qed
  have "fair (service_step sample_dur) (turns g) answered_at answered_event_at" for g
    by (rule fair_then, rule rests, rule answered_at_rest)
  with run live clock show ?thesis unfolding fair_service_def by blast
qed

section \<open>The property\<close>

text \<open>
  C14. Every RPC that waits is answered, in every fair run of the service, whatever else happens in it
  and in whatever order: in a process that does not crash, once the clock passes every instant and no
  goroutine that is ready for good is left standing, every \<open>Stop\<close> is answered with the final status of
  its job, and every stream ends; one whose context does not end and whose sends do not fail is closed
  without an error once it has sent every tick of a job that is over.
\<close>

theorem fair_service_answers_all:
  assumes "fair_service dur \<sigma> ev" and "\<sigma> 0 = NewService lg" and "svc_calls (\<sigma> n) k = Some c"
  shows "\<exists>m\<ge>n. \<exists>sent res. svc_calls (\<sigma> m) k = Some (Answered sent res)
    \<and> (\<forall>p i. c = Stopping p i \<longrightarrow> sent = [] \<and> Status (js_job (svc_jobs (\<sigma> m) ! p)) \<noteq> StatusRunning
         \<and> res = Inr (Some (StopResponse (wire_of (Status (js_job (svc_jobs (\<sigma> m) ! p)))))))
    \<and> (\<forall>a p r sent0. c = Streaming a p r sent0 \<longrightarrow> (\<forall>l e. ev l = Some e \<longrightarrow> uncut k e) \<longrightarrow>
         res = Inr None \<and> Status (js_job (svc_jobs (\<sigma> m) ! p)) \<noteq> StatusRunning
         \<and> sent = map (sent_tick dur) (job_ticks (js_job (svc_jobs (\<sigma> m) ! p))))"
proof -
  note run = fair_serviceD(1) [OF assms(1)]
  have start: "svc_inv dur (\<sigma> 0)" "stream_stays k (\<sigma> 0)"
    using assms(2) NewService_inv by (simp_all add: stream_stays_def NewService_def)
  then have inv: "svc_inv dur (\<sigma> n)" using service.reaches_keeps [OF follows_reaches [OF run]] by blast
  have "\<exists>m. call_answered k (\<sigma> (n + m))"
    using call_is_answered [OF fair_service_from [OF assms(1), of n]] inv assms(3) by simp
  then obtain m sent res where "n \<le> m" and m: "svc_calls (\<sigma> m) k = Some (Answered sent res)"
    unfolding call_answered_def using le_add1 by blast
  show ?thesis
  proof (intro exI conjI allI impI)
    show "n \<le> m" "svc_calls (\<sigma> m) k = Some (Answered sent res)" by (rule \<open>n \<le> m\<close>, rule m)
  qed (use assms(3) stop_result [OF run inv \<open>n \<le> m\<close> _ m] stream_result [OF run _ start \<open>n \<le> m\<close> _ m] in blast)+
qed

theorem fair_service_answers_all_witness:
  "\<exists>m\<ge>16. svc_calls (answered_at m) 2 = Some (Answered [] (Inr (Some (StopResponse
     (wire_of (Status (js_job (svc_jobs (answered_at m) ! 0))))))))"
proof -
  have "answered_at 0 = NewService None" "svc_calls (answered_at 16) 2 = Some (Stopping 0 0)"
    by (simp_all add: run_then_def answered_calls_def sample_calls_def service_evals)
  from fair_service_answers_all [OF answered_is_fair this] show ?thesis by auto
qed

end
