(* ===== verification/Fair_Serve.thy ===== *)
theory Fair_Serve
  imports Fair_Service
begin

text \<open>
  The server under a fair scheduler: a shutdown of the service returns, every RPC is answered once the
  transport takes no more of them, and so \<open>Serve\<close>, told to stop, returns, in every fair run.
\<close>

section \<open>A shutdown returns\<close>

text \<open>A shutdown that waits keeps its snapshot, and every call it has made on a job.\<close>

definition keeps_entries :: "(nat \<times> nat option) list \<Rightarrow> (nat \<times> nat option) list \<Rightarrow> bool" where
  "keeps_entries ps qs \<longleftrightarrow> length qs = length ps \<and> (\<forall>n<length ps. snd (ps ! n) \<noteq> None \<longrightarrow> qs ! n = ps ! n)"

abbreviation shutdown_at :: "nat \<Rightarrow> service \<Rightarrow> shutdown_pc option" where
  "shutdown_at k w \<equiv> sh_shutdowns (svc_shop w) k"

lemma keeps_entries_refl: "keeps_entries ps ps"
  by (simp add: keeps_entries_def)

lemma keeps_entries_update: "n < length ps \<Longrightarrow> snd (ps ! n) = None \<Longrightarrow> keeps_entries ps (ps[n := x])"
  by (simp add: keeps_entries_def nth_list_update)

lemma shutdown_moves:
  assumes "shop_move e s = Some t" and ps: "sh_shutdowns s k = Some (ShutWaiting ps)"
  shows "sh_shutdowns t k = Some ShutReturned
    \<or> (\<exists>qs. sh_shutdowns t k = Some (ShutWaiting qs) \<and> keeps_entries ps qs)"
proof -
  have "sh_shutdowns t k = sh_shutdowns s k \<or> sh_shutdowns t k = Some ShutReturned
    \<or> (\<exists>n x. n < length ps \<and> snd (ps ! n) = None \<and> sh_shutdowns t k = Some (ShutWaiting (ps[n := x])))"
  proof (cases e)
    case (EvGo l n i)
    show ?thesis
    proof (cases "l = k")
      case True
      with EvGo assms have "n < length ps \<and> snd (ps ! n) = None
          \<and> sh_shutdowns t k = Some (ShutWaiting (ps[n := (fst (ps ! n), Some i)]))"
        by (auto simp: set_job_def split: if_splits)
      then show ?thesis by blast
    qed (use EvGo assms in \<open>auto simp: set_job_def split: if_splits option.splits shutdown_pc.splits\<close>)
  qed (use assms in \<open>auto simp: set_job_def split: if_splits option.splits shutdown_pc.splits prod.splits\<close>)
  with ps keeps_entries_refl keeps_entries_update show ?thesis by auto
qed

lemma shutdown_waits:
  assumes "service_step dur e w = Some w'" and "shutdown_at k w = Some (ShutWaiting ps)"
  shows "shutdown_at k w' = Some ShutReturned
    \<or> (\<exists>qs. shutdown_at k w' = Some (ShutWaiting qs) \<and> keeps_entries ps qs)"
proof -
  have "call_step dur e w = Some w'" using assms(1) by (simp add: service_step_def split: if_splits)
  from call_step_shop [OF this] show ?thesis
  proof (elim disjE exE)
    fix se assume "shop_move se (svc_shop w) = Some (svc_shop w')"
    from shutdown_moves [OF this assms(2)] show ?thesis .
  qed (use assms(2) keeps_entries_refl in auto)
qed

lemma stopper_calls:
  assumes "service_step dur e w = Some w'" and "turns (Stopper k n) e"
  shows "\<exists>qs. shutdown_at k w' = Some (ShutWaiting qs) \<and> n < length qs \<and> snd (qs ! n) \<noteq> None"
  using assms(2,1)
  by (cases e rule: turn_of.cases)
     (auto simp: service_step_def split: if_splits option.splits shutdown_pc.splits)

lemma closer_returns:
  assumes "service_step dur e w = Some w'" and "turns (Closer k) e"
  shows "shutdown_at k w' = Some ShutReturned"
  using assms(2,1)
  by (cases e rule: turn_of.cases)
     (auto simp: service_step_def split: if_splits option.splits shutdown_pc.splits)

text \<open>A goroutine whose job was not asked to stop yet can ask it.\<close>

lemma stopper_ready:
  assumes inv: "svc_inv dur w" and live: "live_jobs (svc_jobs w)"
    and ps: "shutdown_at k w = Some (ShutWaiting ps)" and n: "n < length ps" "snd (ps ! n) = None"
  shows "ready (service_step dur) (turns (Stopper k n)) w"
proof -
  let ?p = "fst (ps ! n)"
  have sh: "shop_inv (svc_shop w)" using inv by (simp add: svc_inv_def)
  then have "shut_inv (svc_shop w) (ShutWaiting ps)" using ps by (simp add: shop_inv_def)
  then have p: "?p < length (svc_jobs w)" using n(1) by (auto simp: shut_inv_def)
  then have "finite (dom (js_stops (svc_jobs w ! ?p)))" using sh by (simp add: shop_inv_def)
  then obtain i where "i \<notin> dom (js_stops (svc_jobs w ! ?p))" using ex_new_if_finite infinite_UNIV_nat by blast
  then have "js_stops (svc_jobs w ! ?p) i = None" by (simp add: domIff)
  with live live_job [OF live p] ps n show ?thesis
    by (intro readyI [of _ "OnShop (EvGo k n i)"]) (simp_all add: service_step_def job_step_def)
qed

text \<open>The entry \<open>n\<close> of a shutdown of \<open>N\<close> jobs is a call on the job at \<open>p\<close>.\<close>

definition entry_is :: "nat \<Rightarrow> nat \<Rightarrow> nat \<Rightarrow> nat \<times> nat option \<Rightarrow> service \<Rightarrow> bool" where
  "entry_is k N n x w \<longleftrightarrow> (\<exists>qs. shutdown_at k w = Some (ShutWaiting qs) \<and> length qs = N \<and> qs ! n = x)"

definition shutdown_waiting :: "nat \<Rightarrow> nat \<Rightarrow> service \<Rightarrow> bool" where
  "shutdown_waiting k N w \<longleftrightarrow> (\<exists>qs. shutdown_at k w = Some (ShutWaiting qs) \<and> length qs = N)"

lemma waiting_for_good:
  assumes run: "follows (service_step dur) \<sigma> ev" and never: "\<And>m. shutdown_at k (\<sigma> m) \<noteq> Some ShutReturned"
    and "shutdown_waiting k N (\<sigma> 0)"
  shows "shutdown_waiting k N (\<sigma> m)"
proof -
  have "shutdown_at k (\<sigma> m) = Some ShutReturned \<or> shutdown_waiting k N (\<sigma> m)"
  proof (rule follows_stable [OF run, of 0 m])
    fix w e w'
    assume "shutdown_at k w = Some ShutReturned \<or> shutdown_waiting k N w" and "service_step dur e w = Some w'"
    then show "shutdown_at k w' = Some ShutReturned \<or> shutdown_waiting k N w'"
      using returned_service_step shutdown_waits [of dur e w w' k]
      unfolding shutdown_waiting_def keeps_entries_def by blast
  qed (use assms(3) in simp_all)
  with never show ?thesis by blast
qed

lemma entry_for_good:
  assumes run: "follows (service_step dur) \<sigma> ev" and never: "\<And>m. shutdown_at k (\<sigma> m) \<noteq> Some ShutReturned"
    and "n < N" and "entry_is k N n (p, Some i) (\<sigma> l)" and "l \<le> m"
  shows "entry_is k N n (p, Some i) (\<sigma> m)"
proof -
  have "shutdown_at k (\<sigma> m) = Some ShutReturned \<or> entry_is k N n (p, Some i) (\<sigma> m)"
  proof (rule follows_stable [OF run assms(5)])
    fix w e w'
    assume "shutdown_at k w = Some ShutReturned \<or> entry_is k N n (p, Some i) w" and step: "service_step dur e w = Some w'"
    then show "shutdown_at k w' = Some ShutReturned \<or> entry_is k N n (p, Some i) w'"
    proof (elim disjE)
      assume "entry_is k N n (p, Some i) w"
      then obtain ps where "shutdown_at k w = Some (ShutWaiting ps)" "length ps = N" "ps ! n = (p, Some i)"
        unfolding entry_is_def by blast
      with shutdown_waits [OF step this(1)] assms(3) show ?thesis
        unfolding entry_is_def keeps_entries_def by fastforce
    qed (use returned_service_step step in blast)
  qed (use assms(4) in simp)
  with never show ?thesis by blast
qed

lemma entry_comes:
  assumes fair: "fair_service dur \<sigma> ev" and inv: "\<And>m. svc_inv dur (\<sigma> m)"
    and never: "\<And>m. shutdown_at k (\<sigma> m) \<noteq> Some ShutReturned"
    and start: "shutdown_waiting k N (\<sigma> 0)" and n: "n < N"
  shows "\<exists>m p i. entry_is k N n (p, Some i) (\<sigma> m)"
proof (rule ccontr)
  assume none: "\<nexists>m p i. entry_is k N n (p, Some i) (\<sigma> m)"
  have waits: "\<exists>qs. shutdown_at k (\<sigma> m) = Some (ShutWaiting qs) \<and> length qs = N \<and> snd (qs ! n) = None" for m
  proof -
    obtain qs where "shutdown_at k (\<sigma> m) = Some (ShutWaiting qs)" "length qs = N"
      using waiting_for_good [OF fair_serviceD(1) [OF fair] never start] unfolding shutdown_waiting_def by blast
    with none show ?thesis unfolding entry_is_def by (cases "qs ! n") (metis not_None_eq snd_conv)
  qed
  then have "ready (service_step dur) (turns (Stopper k n)) (\<sigma> m)" for m
    using stopper_ready [OF inv fair_serviceD(2) [OF fair]] n by metis
  with fair_serviceD(4) [OF fair, of "Stopper k n"] obtain m e where m: "ev m = Some e" "turns (Stopper k n) e"
    unfolding fair_def by blast
  have "service_step dur e (\<sigma> m) = Some (\<sigma> (Suc m))"
    using follows_step [OF fair_serviceD(1) [OF fair], of m] m(1) by auto
  from stopper_calls [OF this m(2)] waits [of "Suc m"] show False by auto
qed

text \<open>And that call returns.\<close>

definition entry_settled :: "nat \<Rightarrow> nat \<Rightarrow> nat \<Rightarrow> service \<Rightarrow> bool" where
  "entry_settled k N n w \<longleftrightarrow> (\<exists>qs. shutdown_at k w = Some (ShutWaiting qs) \<and> length qs = N
     \<and> stop_returned (svc_jobs w) (qs ! n))"

lemma entry_on_job:
  assumes "svc_inv dur w" and "entry_is k N n (p, Some i) w" and "n < N"
  shows "p < length (svc_jobs w)" "js_stops (svc_jobs w ! p) i \<noteq> None"
proof -
  obtain qs where qs: "shutdown_at k w = Some (ShutWaiting qs)" "length qs = N" "qs ! n = (p, Some i)"
    using assms(2) unfolding entry_is_def by blast
  have "shut_inv (svc_shop w) (ShutWaiting qs)" using assms(1) qs(1) by (simp add: svc_inv_def shop_inv_def)
  moreover have "(p, Some i) \<in> set qs" using qs(2,3) assms(3) nth_mem by metis
  ultimately show "p < length (svc_jobs w)" "js_stops (svc_jobs w ! p) i \<noteq> None"
    by (auto simp: shut_inv_def image_iff dest!: equalityD1)
qed

lemma entry_settles:
  assumes fair: "fair_service dur \<sigma> ev" and inv: "\<And>m. svc_inv dur (\<sigma> m)"
    and never: "\<And>m. shutdown_at k (\<sigma> m) \<noteq> Some ShutReturned"
    and start: "shutdown_waiting k N (\<sigma> 0)" and n: "n < N"
  shows "\<exists>m. \<forall>l\<ge>m. entry_settled k N n (\<sigma> l)"
proof -
  obtain m p i where e: "entry_is k N n (p, Some i) (\<sigma> m)" using entry_comes [OF assms] by blast
  have "p < length (svc_jobs (\<sigma> (m + 0)))" "js_stops (svc_jobs (\<sigma> (m + 0)) ! p) i \<noteq> None"
    using entry_on_job [OF inv e n] by simp_all
  from call_returns [OF fair_service_from [OF fair, of m] inv this] obtain d st where
    d: "js_stops (svc_jobs (\<sigma> (m + j)) ! p) i = Some (StopReturned st)" if "d \<le> j" for j by blast
  have st: "js_stops (svc_jobs (\<sigma> l) ! p) i = Some (StopReturned st)" if "m + d \<le> l" for l
    using d [of "l - m"] that by simp
  have "entry_settled k N n (\<sigma> l)" if l: "m + d \<le> l" for l
  proof -
    have "entry_is k N n (p, Some i) (\<sigma> l)"
      by (rule entry_for_good [OF fair_serviceD(1) [OF fair] never n e]) (use l in simp)
    with st [OF l] show ?thesis unfolding entry_is_def entry_settled_def by force
  qed
  then show ?thesis by blast
qed

lemma all_in_the_end:
  assumes "finite A" and "\<And>x. x \<in> A \<Longrightarrow> \<exists>m::nat. \<forall>l\<ge>m. Q x l"
  shows "\<exists>m. \<forall>l\<ge>m. \<forall>x\<in>A. Q x l"
  using assms
proof (induction A)
  case (insert x A)
  then obtain m m' where "\<forall>l\<ge>m. \<forall>x\<in>A. Q x l" "\<forall>l\<ge>m'. Q x l" by (metis insertI1 insertI2)
  then show ?case by (intro exI [of _ "max m m'"]) auto
qed simp

lemma shutdown_returns:
  assumes fair: "fair_service dur \<sigma> ev" and inv: "svc_inv dur (\<sigma> 0)" and "shutdown_at k (\<sigma> 0) \<noteq> None"
  shows "\<exists>n. shutdown_at k (\<sigma> n) = Some ShutReturned"
proof (rule ccontr)
  assume "\<nexists>n. shutdown_at k (\<sigma> n) = Some ShutReturned"
  then have never: "shutdown_at k (\<sigma> m) \<noteq> Some ShutReturned" for m by blast
  note run = fair_serviceD(1) [OF fair]
  have invs: "svc_inv dur (\<sigma> m)" for m using service.reaches_keeps [OF follows_reaches [OF run] inv] .
  obtain pc where pc: "shutdown_at k (\<sigma> 0) = Some pc" using assms(3) by blast
  with never [of 0] obtain ps where "pc = ShutWaiting ps" by (cases pc) auto
  with pc have start: "shutdown_waiting k (length ps) (\<sigma> 0)" unfolding shutdown_waiting_def by blast
  have "\<exists>m. \<forall>l\<ge>m. \<forall>n\<in>{..<length ps}. entry_settled k (length ps) n (\<sigma> l)"
    by (rule all_in_the_end) (use entry_settles [OF fair invs never start] in auto)
  then obtain m where settled: "\<forall>l\<ge>m. \<forall>n\<in>{..<length ps}. entry_settled k (length ps) n (\<sigma> l)" by blast
  have "ready (service_step dur) (turns (Closer k)) (\<sigma> l)" if "m \<le> l" for l
  proof -
    obtain qs where qs: "shutdown_at k (\<sigma> l) = Some (ShutWaiting qs)" "length qs = length ps"
      using waiting_for_good [OF run never start] unfolding shutdown_waiting_def by blast
    with settled that have "list_all (stop_returned (svc_jobs (\<sigma> l))) qs"
      by (auto simp: entry_settled_def list_all_length)
    with qs(1) fair_serviceD(2) [OF fair] show ?thesis
      by (intro readyI [of _ "OnShop (EvWait k)"]) (simp_all add: service_step_def)
  qed
  with fair_serviceD(4) [OF fair, of "Closer k"] obtain l e where l: "ev l = Some e" "turns (Closer k) e"
    unfolding fair_def by blast
  have "service_step dur e (\<sigma> l) = Some (\<sigma> (Suc l))" using follows_step [OF run, of l] l(1) by auto
  from closer_returns [OF this l(2)] never show False by blast
qed

section \<open>The calls run out\<close>

lemma unopened:
  assumes "service_step dur e w = Some w'" and "\<not> opens_call e" and "svc_calls w k = None"
  shows "svc_calls w' k = None"
proof (cases "event_call e = Some k")
  case True
  with assms show ?thesis by (cases e) (auto simp: service_step_def split: if_splits)
next
  case False
  have "call_step dur e w = Some w'" using assms(1) by (simp add: service_step_def split: if_splits)
  with other_calls_kept False assms(3) show ?thesis by simp
qed

lemma answered_for_good:
  assumes run: "follows (service_step dur) \<sigma> ev" and "m \<le> n" and "call_answered k (\<sigma> m)"
  shows "call_answered k (\<sigma> n)"
proof (rule follows_stable [OF run assms(2)])
  show "call_answered k w'" if "call_answered k w" "service_step dur e w = Some w'" for w e w'
    using that answer_kept unfolding call_answered_def by (auto simp: service_step_def split: if_splits)
qed (rule assms(3))

text \<open>Once no call comes in any more, all of them are answered in the end.\<close>

lemma calls_run_out:
  assumes fair: "fair_service dur \<sigma> ev" and inv: "svc_inv dur (\<sigma> 0)" and fin: "finite (dom (svc_calls (\<sigma> 0)))"
    and closed: "\<forall>n e. ev n = Some e \<longrightarrow> \<not> opens_call e"
  shows "\<exists>m. \<forall>l\<ge>m. all_answered (\<sigma> l)"
proof -
  note run = fair_serviceD(1) [OF fair]
  have none: "svc_calls (\<sigma> n) k = None" if "svc_calls (\<sigma> 0) k = None" for k n
  proof (induction n)
    case (Suc n)
    with follows_step [OF run, of n] closed unopened show ?case by metis
  qed (rule that)
  have "\<exists>m. \<forall>l\<ge>m. call_answered k (\<sigma> l)" if "k \<in> dom (svc_calls (\<sigma> 0))" for k
    using call_is_answered [OF fair inv] answered_for_good [OF run] that by (metis domIff not_None_eq)
  then have "\<exists>m. \<forall>l\<ge>m. \<forall>k\<in>dom (svc_calls (\<sigma> 0)). call_answered k (\<sigma> l)" by (rule all_in_the_end [OF fin])
  then obtain m where m: "\<forall>l\<ge>m. \<forall>k\<in>dom (svc_calls (\<sigma> 0)). call_answered k (\<sigma> l)" by blast
  have "all_answered (\<sigma> l)" if "m \<le> l" for l
    unfolding all_answered_def
  proof (intro allI impI)
    fix k c assume c: "svc_calls (\<sigma> l) k = Some c"
    then have "k \<in> dom (svc_calls (\<sigma> 0))" using none [of k l] by (auto simp: domIff)
    with m that have "call_answered k (\<sigma> l)" by blast
    with c show "\<exists>sent r. c = Answered sent r" by (auto simp: call_answered_def)
  qed
  then show ?thesis by blast
qed

section \<open>What the scheduler owes a server\<close>

text \<open>Besides the goroutines of the service, the one that runs \<open>Serve\<close> and the one it starts to drain.\<close>

datatype serve_goroutine = InService goroutine | MainLoop | Drainer

text \<open>The end of the grace, of the context and of the transport are nobody's turn.\<close>

fun serve_turn_of :: "serve_event \<Rightarrow> serve_goroutine option" where
  "serve_turn_of (EvService e) = map_option InService (turn_of e)"
| "serve_turn_of (EvDrainBegin k) = Some Drainer"
| "serve_turn_of EvJobsStopped = Some Drainer"
| "serve_turn_of EvTransportStopped = Some Drainer"
| "serve_turn_of EvTakeServed = Some MainLoop"
| "serve_turn_of EvTakeCtx = Some MainLoop"
| "serve_turn_of EvStopped = Some MainLoop"
| "serve_turn_of EvAfterStop = Some MainLoop"
| "serve_turn_of EvAwait = Some MainLoop"
| "serve_turn_of e = None"

abbreviation serve_turns :: "serve_goroutine \<Rightarrow> serve_event \<Rightarrow> bool" where
  "serve_turns g e \<equiv> serve_turn_of e = Some g"

text \<open>
  A fair run of a server in a process that does not crash; and, as \<open>grpc.Server.Serve\<close> documents, the
  transport returns once it was stopped.
\<close>

definition fair_serve :: "(int \<Rightarrow> wire_duration) \<Rightarrow> (service \<Rightarrow> bool \<Rightarrow> bool) \<Rightarrow> server
    \<Rightarrow> (nat \<Rightarrow> serving) \<Rightarrow> (nat \<Rightarrow> serve_event option) \<Rightarrow> bool" where
  "fair_serve dur drained srv \<sigma> ev \<longleftrightarrow> follows (serve_step dur drained srv) \<sigma> ev
     \<and> (\<forall>n. live_jobs (svc_jobs (sg_service (\<sigma> n))))
     \<and> (\<forall>p t n. p < length (svc_jobs (sg_service (\<sigma> n)))
          \<longrightarrow> (\<exists>m\<ge>n. t \<le> cd_now (js_countdown (svc_jobs (sg_service (\<sigma> m)) ! p))))
     \<and> (\<forall>g. fair (serve_step dur drained srv) (serve_turns g) \<sigma> ev)
     \<and> (\<forall>n. sg_drain (\<sigma> n) = DrainDone \<longrightarrow> (\<exists>m\<ge>n. \<not> sg_running (\<sigma> m)))"

lemma fair_serveD:
  assumes "fair_serve dur drained srv \<sigma> ev"
  shows "follows (serve_step dur drained srv) \<sigma> ev" "live_jobs (svc_jobs (sg_service (\<sigma> n)))"
    "fair (serve_step dur drained srv) (serve_turns g) \<sigma> ev"
    "sg_drain (\<sigma> n) = DrainDone \<Longrightarrow> \<exists>m\<ge>n. \<not> sg_running (\<sigma> m)"
  using assms by (auto simp: fair_serve_def)

section \<open>The run of the service in a run of the server\<close>

fun service_event_of :: "serve_event \<Rightarrow> service_event option" where
  "service_event_of (EvService e) = Some e"
| "service_event_of (EvDrainBegin k) = Some (OnShop (EvShutdown k))"
| "service_event_of e = None"

definition service_events :: "(nat \<Rightarrow> serve_event option) \<Rightarrow> nat \<Rightarrow> service_event option" where
  "service_events ev n = Option.bind (ev n) service_event_of"

lemma serve_step_service:
  assumes "serve_step dur drained srv e g = Some g'"
  shows "case service_event_of e of None \<Rightarrow> sg_service g' = sg_service g
    | Some se \<Rightarrow> service_step dur se (sg_service g) = Some (sg_service g')"
  using assms
  by (cases e) (auto split: if_splits serve_pc.splits drain_pc.splits option.splits elim!: map_option_SomeE)

lemma turns_not_opening: "turns g e \<Longrightarrow> \<not> opens_call e"
  by (cases e) auto

lemma service_is_fair:
  assumes "fair_serve dur drained srv \<sigma> ev"
  shows "fair_service dur (\<lambda>n. sg_service (\<sigma> n)) (service_events ev)"
proof -
  note run = fair_serveD(1) [OF assms]
  have "follows (service_step dur) (\<lambda>n. sg_service (\<sigma> n)) (service_events ev)"
    unfolding follows_def
  proof
    fix n
    show "case service_events ev n of None \<Rightarrow> sg_service (\<sigma> (Suc n)) = sg_service (\<sigma> n)
      | Some e \<Rightarrow> service_step dur e (sg_service (\<sigma> n)) = Some (sg_service (\<sigma> (Suc n)))"
      using follows_step [OF run, of n] serve_step_service [of dur drained srv _ "\<sigma> n" "\<sigma> (Suc n)"]
      by (auto simp: service_events_def)
  qed
  moreover have "fair (service_step dur) (turns g) (\<lambda>n. sg_service (\<sigma> n)) (service_events ev)" for g
  proof (rule fair_part [OF fair_serveD(3) [OF assms, of "InService g"]])
    fix n assume "ready (service_step dur) (turns g) (sg_service (\<sigma> n))"
    then obtain e where "turns g e" "service_step dur e (sg_service (\<sigma> n)) \<noteq> None" by (auto simp: ready_def)
    with turns_not_opening [of e g]
    show "ready (serve_step dur drained srv) (serve_turns (InService g)) (\<sigma> n)"
      by (intro readyI [of _ "EvService e"]) auto
  next
    fix n e assume "ev n = Some e" "serve_turns (InService g) e"
    then show "\<exists>f. service_events ev n = Some f \<and> turns g f"
      by (cases e) (auto simp: service_events_def)
  qed
  ultimately show ?thesis using assms unfolding fair_serve_def fair_service_def by blast
qed

lemma fair_serve_from:
  assumes "fair_serve dur drained srv \<sigma> ev"
  shows "fair_service dur (\<lambda>m. sg_service (\<sigma> (n + m))) (\<lambda>m. service_events ev (n + m))"
  using fair_service_from [OF service_is_fair [OF assms]] .

section \<open>The drain comes to its end\<close>

definition serve_inv :: "(int \<Rightarrow> wire_duration) \<Rightarrow> serving \<Rightarrow> bool" where
  "serve_inv dur g \<longleftrightarrow> serving_inv dur g \<and> drain_inv g"

lemma serve_inv_step:
  assumes "graceful_stop drained" and "serve_inv dur g" and "serve_step dur drained srv e g = Some g'"
  shows "serve_inv dur g'"
  using assms serving.step_keeps [of drained dur g srv e g'] serve_step_drain unfolding serve_inv_def by blast

text \<open>How far each of the two goroutines still is from its end.\<close>

fun drain_left :: "drain_pc \<Rightarrow> nat" where
  "drain_left DrainReady = 3"
| "drain_left (DrainService k) = 2"
| "drain_left DrainTransport = 1"
| "drain_left pc = 0"

fun main_left :: "serve_pc \<Rightarrow> nat" where
  "main_left SelectServe = 4"
| "main_left (InShutdown inHand) = 3"
| "main_left (AwaitStopped inHand) = 2"
| "main_left (AwaitServed isDrained) = 1"
| "main_left (ServeDone r) = 0"

lemma drain_moves:
  assumes "serve_inv dur g" and "sg_drain g \<noteq> DrainIdle" and "serve_step dur drained srv e g = Some g'"
  shows "sg_drain g' = sg_drain g \<and> \<not> serve_turns Drainer e
    \<or> sg_drain g' \<noteq> DrainIdle \<and> drain_left (sg_drain g') < drain_left (sg_drain g)"
  using assms
  by (cases e) (auto simp: serve_inv_def serving_inv_def
      split: if_splits serve_pc.splits drain_pc.splits option.splits elim!: map_option_SomeE)

lemma main_moves:
  assumes "serve_step dur drained srv e g = Some g'"
  shows "sg_main g' = sg_main g \<and> \<not> serve_turns MainLoop e \<or> main_left (sg_main g') < main_left (sg_main g)"
  using assms
  by (cases e) (auto simp: after_shutdown_def
      split: if_splits serve_pc.splits drain_pc.splits option.splits elim!: map_option_SomeE)

interpretation serve_drain: fair_steps "serve_step dur drained srv" "serve_turns Drainer"
  "\<lambda>g. graceful_stop drained \<and> serve_inv dur g \<and> sg_drain g \<noteq> DrainIdle" "\<lambda>g. sg_drain g = DrainDone"
  "\<lambda>g. drain_left (sg_drain g)" for dur drained srv
proof
  fix g e g'
  assume inv: "graceful_stop drained \<and> serve_inv dur g \<and> sg_drain g \<noteq> DrainIdle"
    and step: "serve_step dur drained srv e g = Some g'"
  with drain_moves [of dur g drained srv e g'] serve_inv_step [of drained dur g srv e g']
  show "sg_drain g' = DrainDone \<or> (graceful_stop drained \<and> serve_inv dur g' \<and> sg_drain g' \<noteq> DrainIdle)
      \<and> drain_left (sg_drain g') + (if serve_turns Drainer e then 1 else 0) \<le> drain_left (sg_drain g)"
    by auto
qed

text \<open>A goroutine that gets no further is where it is for good.\<close>

lemma drain_stands:
  assumes run: "follows (serve_step dur drained srv) \<sigma> ev"
    and still: "\<forall>m\<ge>k. (graceful_stop drained \<and> serve_inv dur (\<sigma> m) \<and> sg_drain (\<sigma> m) \<noteq> DrainIdle)
      \<and> sg_drain (\<sigma> m) \<noteq> DrainDone \<and> drain_left (sg_drain (\<sigma> m)) = drain_left (sg_drain (\<sigma> k))"
    and "k \<le> m"
  shows "sg_drain (\<sigma> m) = sg_drain (\<sigma> k)"
  using assms(3)
proof (induction m rule: dec_induct)
  case (step m)
  note a = still [rule_format, of m] still [rule_format, of "Suc m"]
  have "sg_drain (\<sigma> (Suc m)) = sg_drain (\<sigma> m)"
    using follows_step [OF run, of m]
  proof (elim disjE exE conjE)
    fix e assume "serve_step dur drained srv e (\<sigma> m) = Some (\<sigma> (Suc m))"
    from drain_moves [OF _ _ this] a step.hyps(1) show ?thesis by fastforce
  qed simp
  with step.IH show ?case by simp
qed simp

lemma begin_ready:
  assumes "drain_inv g" and "live_jobs (svc_jobs (sg_service g))" and "sg_drain g = DrainReady"
  shows "ready (serve_step dur drained srv) (serve_turns Drainer) g"
proof -
  let ?s = "svc_shop (sg_service g)"
  have "finite (dom (sh_shutdowns ?s))" using assms(1) by (simp add: drain_inv_def)
  then obtain k where "k \<notin> dom (sh_shutdowns ?s)" using ex_new_if_finite infinite_UNIV_nat by blast
  then have "sh_shutdowns ?s k = None" by (simp add: domIff)
  with assms(2,3) show ?thesis
    by (intro readyI [of _ "EvDrainBegin k"]) (simp_all add: service_step_def split: prod.splits)
qed

lemma no_calls_open:
  assumes run: "follows (serve_step dur drained srv) \<sigma> ev" and d: "sg_drain (\<sigma> n) = DrainTransport"
    and e: "service_events ev n = Some e"
  shows "\<not> opens_call e"
proof -
  obtain f where f: "ev n = Some f" "service_event_of f = Some e" using e by (auto simp: service_events_def bind_eq_Some_conv)
  have "serve_step dur drained srv f (\<sigma> n) = Some (\<sigma> (Suc n))" using follows_step [OF run, of n] f(1) by auto
  with f(2) d show ?thesis by (cases f) (auto split: if_splits)
qed

text \<open>What each of its waits is for comes to hold, for good.\<close>

lemma jobs_stopped_ready:
  assumes fair: "fair_serve dur drained srv \<sigma> ev" and inv: "serve_inv dur (\<sigma> k)"
    and d: "\<And>m. k \<le> m \<Longrightarrow> sg_drain (\<sigma> m) = DrainService j"
  shows "\<exists>m\<ge>k. \<forall>l\<ge>m. ready (serve_step dur drained srv) (serve_turns Drainer) (\<sigma> l)"
proof -
  note service = fair_serve_from [OF fair, of k]
  have "svc_inv dur (sg_service (\<sigma> (k + 0)))" "shutdown_at j (sg_service (\<sigma> (k + 0))) \<noteq> None"
    using inv d [of k] by (simp_all add: serve_inv_def serving_inv_def drain_inv_def)
  from shutdown_returns [OF service this] obtain i where
    i: "shutdown_at j (sg_service (\<sigma> (k + i))) = Some ShutReturned" by blast
  have "shutdown_at j (sg_service (\<sigma> (k + l))) = Some ShutReturned" if "i \<le> l" for l
    by (rule follows_stable [OF fair_serviceD(1) [OF service] that]) (use i returned_service_step in blast)+
  then have ret: "shutdown_at j (sg_service (\<sigma> l)) = Some ShutReturned" if "k + i \<le> l" for l
    using that by (metis add.assoc le_iff_add)
  have "ready (serve_step dur drained srv) (serve_turns Drainer) (\<sigma> l)" if "k + i \<le> l" for l
    using d [of l] ret [OF that] that by (intro readyI [of _ EvJobsStopped]) simp_all
  then show ?thesis by (intro exI [of _ "k + i"]) simp
qed

lemma transport_stopped_ready:
  assumes fair: "fair_serve dur drained srv \<sigma> ev" and ok: "graceful_stop drained" "stop_returns drained"
    and inv: "serve_inv dur (\<sigma> k)" and d: "\<And>m. k \<le> m \<Longrightarrow> sg_drain (\<sigma> m) = DrainTransport"
  shows "\<exists>m\<ge>k. \<forall>l\<ge>m. ready (serve_step dur drained srv) (serve_turns Drainer) (\<sigma> l)"
proof -
  note service = fair_serve_from [OF fair, of k]
  have closed: "\<forall>n e. service_events ev (k + n) = Some e \<longrightarrow> \<not> opens_call e"
    using no_calls_open [OF fair_serveD(1) [OF fair] d [OF le_add1]] by blast
  have "svc_inv dur (sg_service (\<sigma> (k + 0)))" "finite (dom (svc_calls (sg_service (\<sigma> (k + 0)))))"
    using inv by (simp_all add: serve_inv_def serving_inv_def drain_inv_def)
  from calls_run_out [OF service this closed] obtain i where
    i: "\<forall>l\<ge>i. all_answered (sg_service (\<sigma> (k + l)))" by blast
  then have ans: "all_answered (sg_service (\<sigma> l))" if "k + i \<le> l" for l
    using that by (metis add.assoc le_iff_add)
  have "drained (sg_service (\<sigma> l)) (sg_stopCalled (\<sigma> l))" if "k + i \<le> l" for l
    using ok ans [OF that] by (cases "sg_stopCalled (\<sigma> l)") (auto simp: graceful_stop_def stop_returns_def)
  then have "ready (serve_step dur drained srv) (serve_turns Drainer) (\<sigma> l)" if "k + i \<le> l" for l
    using d [of l] that by (intro readyI [of _ EvTransportStopped]) simp_all
  then show ?thesis by (intro exI [of _ "k + i"]) simp
qed

lemma drain_ends:
  assumes fair: "fair_serve dur drained srv \<sigma> ev" and ok: "graceful_stop drained" "stop_returns drained"
    and inv: "serve_inv dur (\<sigma> n)" and "sg_drain (\<sigma> n) \<noteq> DrainIdle"
  shows "\<exists>m\<ge>n. sg_drain (\<sigma> m) = DrainDone"
proof (rule serve_drain.gets_there [OF fair_serveD(1,3) [OF fair]])
  show "graceful_stop drained \<and> serve_inv dur (\<sigma> n) \<and> sg_drain (\<sigma> n) \<noteq> DrainIdle" using assms by blast
  fix k
  assume still: "\<forall>m\<ge>k. (graceful_stop drained \<and> serve_inv dur (\<sigma> m) \<and> sg_drain (\<sigma> m) \<noteq> DrainIdle)
      \<and> sg_drain (\<sigma> m) \<noteq> DrainDone \<and> drain_left (sg_drain (\<sigma> m)) = drain_left (sg_drain (\<sigma> k))"
  note d = drain_stands [OF fair_serveD(1) [OF fair] still]
  have k: "serve_inv dur (\<sigma> m)" if "k \<le> m" for m using still that by blast
  show "\<exists>m\<ge>k. \<forall>l\<ge>m. ready (serve_step dur drained srv) (serve_turns Drainer) (\<sigma> l)"
  proof (cases "sg_drain (\<sigma> k)")
    case DrainReady
    with d k begin_ready fair_serveD(2) [OF fair] have
      "ready (serve_step dur drained srv) (serve_turns Drainer) (\<sigma> l)" if "k \<le> l" for l
      using that by (simp add: serve_inv_def)
    then show ?thesis by blast
  next
    case (DrainService j)
    with d jobs_stopped_ready [OF fair k] show ?thesis by simp
  next
    case DrainTransport
    with d transport_stopped_ready [OF fair ok k] show ?thesis by simp
  qed (use still in blast)+
qed

section \<open>Serve returns\<close>

text \<open>Once told, \<open>Serve\<close> has something to take for as long as it selects.\<close>

definition told :: "serving \<Rightarrow> bool" where
  "told g \<longleftrightarrow> sg_main g = SelectServe \<longrightarrow> sg_ctxDone g \<or> sg_served g \<noteq> None"

lemma told_step: "told g \<Longrightarrow> serve_step dur drained srv e g = Some g' \<Longrightarrow> told g'"
  by (cases e) (auto simp: told_def after_shutdown_def
      split: if_splits serve_pc.splits drain_pc.splits option.splits elim!: map_option_SomeE)

definition returned :: "serving \<Rightarrow> bool" where
  "returned g \<longleftrightarrow> main_left (sg_main g) = 0"

lemma returned_iff: "returned g \<longleftrightarrow> (\<exists>r. sg_main g = ServeDone r)"
  by (cases "sg_main g") (simp_all add: returned_def)

interpretation serve_main: fair_steps "serve_step dur drained srv" "serve_turns MainLoop"
  "\<lambda>g. graceful_stop drained \<and> serve_inv dur g \<and> told g" returned
  "\<lambda>g. main_left (sg_main g)" for dur drained srv
proof
  fix g e g'
  assume "graceful_stop drained \<and> serve_inv dur g \<and> told g" and step: "serve_step dur drained srv e g = Some g'"
  with main_moves [OF step] serve_inv_step [of drained dur g srv e g'] told_step [OF _ step]
  show "returned g' \<or> (graceful_stop drained \<and> serve_inv dur g' \<and> told g')
      \<and> main_left (sg_main g') + (if serve_turns MainLoop e then 1 else 0) \<le> main_left (sg_main g)"
    by auto
qed

lemma main_stands:
  assumes run: "follows (serve_step dur drained srv) \<sigma> ev"
    and still: "\<And>m. k \<le> m \<Longrightarrow> main_left (sg_main (\<sigma> m)) = main_left (sg_main (\<sigma> k))" and "k \<le> m"
  shows "sg_main (\<sigma> m) = sg_main (\<sigma> k)"
  using assms(3)
proof (induction m rule: dec_induct)
  case (step m)
  have "sg_main (\<sigma> (Suc m)) = sg_main (\<sigma> m)"
    using follows_step [OF run, of m]
  proof (elim disjE exE conjE)
    fix e assume "serve_step dur drained srv e (\<sigma> m) = Some (\<sigma> (Suc m))"
    from main_moves [OF this] still [of m] still [of "Suc m"] step.hyps(1) show ?thesis by simp
  qed simp
  with step.IH show ?case by simp
qed simp

lemma drained_for_good:
  assumes run: "follows (serve_step dur drained srv) \<sigma> ev" and ok: "graceful_stop drained"
    and "serve_inv dur (\<sigma> m)" and "sg_drain (\<sigma> m) = DrainDone" and "m \<le> n"
  shows "serve_inv dur (\<sigma> n) \<and> sg_drain (\<sigma> n) = DrainDone"
proof (rule follows_stable [OF run assms(5)])
  fix g e g' assume g: "serve_inv dur g \<and> sg_drain g = DrainDone" and step: "serve_step dur drained srv e g = Some g'"
  with drain_moves [OF _ _ step] serve_inv_step [OF ok _ step]
  show "serve_inv dur g' \<and> sg_drain g' = DrainDone" by auto
qed (use assms in simp)

lemma stopped_for_good:
  assumes run: "follows (serve_step dur drained srv) \<sigma> ev" and "\<not> sg_running (\<sigma> m)" and "m \<le> n"
  shows "\<not> sg_running (\<sigma> n)"
proof (rule follows_stable [OF run assms(3)])
  show "\<not> sg_running g'" if "\<not> sg_running g" "serve_step dur drained srv e g = Some g'" for g e g'
    using that by (cases e) (auto split: if_splits serve_pc.splits drain_pc.splits option.splits elim!: map_option_SomeE)
qed (rule assms(2))

text \<open>Wherever \<open>Serve\<close> waits, it can go on in the end.\<close>

lemma main_ready:
  assumes fair: "fair_serve dur drained srv \<sigma> ev" and ok: "graceful_stop drained" "stop_returns drained"
    and inv: "\<And>m. k \<le> m \<Longrightarrow> serve_inv dur (\<sigma> m) \<and> told (\<sigma> m)"
    and still: "\<And>m. k \<le> m \<Longrightarrow> sg_main (\<sigma> m) = sg_main (\<sigma> k)" and "\<not> returned (\<sigma> k)"
  shows "\<exists>m\<ge>k. \<forall>l\<ge>m. ready (serve_step dur drained srv) (serve_turns MainLoop) (\<sigma> l)"
proof (cases "sg_main (\<sigma> k) = SelectServe")
  case True
  have "ready (serve_step dur drained srv) (serve_turns MainLoop) (\<sigma> l)" if "k \<le> l" for l
  proof (cases "sg_served (\<sigma> l)")
    case None
    with inv [OF that] still [OF that] True show ?thesis by (intro readyI [of _ EvTakeCtx]) (simp_all add: told_def)
  next
    case (Some err)
    with still [OF that] True show ?thesis by (intro readyI [of _ EvTakeServed]) simp_all
  qed
  then show ?thesis by blast
next
  case False
  then have "sg_drain (\<sigma> k) \<noteq> DrainIdle"
    using inv [OF order_refl] assms(6)
    by (cases "sg_main (\<sigma> k)") (auto simp: serve_inv_def drain_inv_def serving_inv_def returned_def)
  then obtain d where d: "d \<ge> k" "sg_drain (\<sigma> d) = DrainDone"
    using drain_ends [OF fair ok] inv [OF order_refl] by blast
  obtain r where r: "r \<ge> d" "\<not> sg_running (\<sigma> r)" using fair_serveD(4) [OF fair d(2)] by blast
  have "ready (serve_step dur drained srv) (serve_turns MainLoop) (\<sigma> l)" if l: "r \<le> l" for l
  proof -
    have kl: "k \<le> l" "d \<le> l" using d(1) r(1) l by simp_all
    have dn: "sg_drain (\<sigma> l) = DrainDone"
      using drained_for_good [OF fair_serveD(1) [OF fair] ok(1) _ d(2) kl(2)] inv [OF d(1)] by blast
    have quiet: "\<not> sg_running (\<sigma> l)" by (rule stopped_for_good [OF fair_serveD(1) [OF fair] r(2) l])
    show ?thesis
    proof (cases "sg_main (\<sigma> k)")
      case (InShutdown inHand)
      with dn still [OF kl(1)] show ?thesis by (intro readyI [of _ EvStopped]) simp_all
    next
      case (AwaitStopped inHand)
      with dn still [OF kl(1)] show ?thesis by (intro readyI [of _ EvAfterStop]) simp_all
    next
      case (AwaitServed isDrained)
      with quiet inv [OF kl(1)] still [OF kl(1)] have "sg_served (\<sigma> l) \<noteq> None"
        by (simp add: serve_inv_def drain_inv_def served_later_def)
      with AwaitServed still [OF kl(1)] show ?thesis by (intro readyI [of _ EvAwait]) auto
    qed (use False assms(6) in \<open>simp_all add: returned_def\<close>)
  qed
  then show ?thesis using d(1) r(1) by (intro exI [of _ r]) simp
qed

lemma serve_returns:
  assumes fair: "fair_serve dur drained srv \<sigma> ev" and ok: "graceful_stop drained" "stop_returns drained"
    and inv: "serve_inv dur (\<sigma> n)" and "told (\<sigma> n)"
  shows "\<exists>m\<ge>n. returned (\<sigma> m)"
proof (rule serve_main.gets_there [OF fair_serveD(1,3) [OF fair]])
  show "graceful_stop drained \<and> serve_inv dur (\<sigma> n) \<and> told (\<sigma> n)" using assms by blast
  fix k
  assume still: "\<forall>m\<ge>k. (graceful_stop drained \<and> serve_inv dur (\<sigma> m) \<and> told (\<sigma> m)) \<and> \<not> returned (\<sigma> m)
      \<and> main_left (sg_main (\<sigma> m)) = main_left (sg_main (\<sigma> k))"
  then have "sg_main (\<sigma> m) = sg_main (\<sigma> k)" if "k \<le> m" for m
    using main_stands [OF fair_serveD(1) [OF fair] _ that] by blast
  then show "\<exists>m\<ge>k. \<forall>l\<ge>m. ready (serve_step dur drained srv) (serve_turns MainLoop) (\<sigma> l)"
    using main_ready [OF fair ok] still by blast
qed

section \<open>A fair run\<close>

text \<open>The events of \<open>sample_serve\<close>, after which the context is cancelled again and again.\<close>

definition served_at :: "server \<Rightarrow> nat \<Rightarrow> serving" where
  "served_at srv = run_then (serve_step sample_dur cut_or_answered srv) sample_serve (Serve srv)
     (\<lambda>n. the (run_events (serve_step sample_dur cut_or_answered srv) sample_serve (Serve srv)))"

definition served_event_at :: "nat \<Rightarrow> serve_event option" where
  "served_event_at = events_then sample_serve (\<lambda>n. EvCtxDone)"

lemmas serve_evals = sample_serve_def Serve_def NewService_def open_shop_def New_registry_def
  service_step_def live_jobs_def Shutdown_snapshot_def cut_or_answered_def all_answered_def
  after_shutdown_def serve_result_def

lemma sample_serve_end:
  assumes "srv_service srv = NewService lg"
  obtains g where "run_events (serve_step dur cut_or_answered srv) sample_serve (Serve srv) = Some g"
    "sg_main g = ServeDone (Inr ())" "sg_drain g = DrainDone" "sg_ctxDone g" "\<not> sg_running g"
    "at_rest (sg_service g)" "svc_jobs (sg_service g) = []"
  by (simp add: serve_evals assms at_rest_def)

lemma sample_serve_jobs:
  assumes "srv_service srv = NewService lg" and "n < length sample_serve"
  shows "svc_jobs (sg_service (served_at srv n)) = []"
  using assms(2)
  by (auto simp: served_at_def run_then_def serve_evals assms(1) less_Suc_eq)

lemma served_is_fair:
  assumes "srv_service srv = NewService lg"
  shows "fair_serve sample_dur cut_or_answered srv (served_at srv) served_event_at"
proof -
  let ?step = "serve_step sample_dur cut_or_answered srv"
  obtain g where g: "run_events ?step sample_serve (Serve srv) = Some g"
    "sg_main g = ServeDone (Inr ())" "sg_drain g = DrainDone" "sg_ctxDone g" "\<not> sg_running g"
    "at_rest (sg_service g)" "svc_jobs (sg_service g) = []"
    by (rule sample_serve_end [OF assms])
  have at: "served_at srv = run_then ?step sample_serve (Serve srv) (\<lambda>n. g)" by (simp add: served_at_def g(1))
  then have late: "served_at srv n = g" if "length sample_serve \<le> n" for n using that by (simp add: run_then_later)
  have jobs: "svc_jobs (sg_service (served_at srv n)) = []" for n
    using sample_serve_jobs [OF assms, of n] late [of n] g(7) by (cases "n < length sample_serve") simp_all
  have "?step EvCtxDone g = Some g" using g(4) by simp
  then have "follows ?step (served_at srv) served_event_at"
    unfolding at served_event_at_def using g(1) by (intro run_then_follows) simp_all
  moreover have "\<not> ready ?step (serve_turns h) g" for h
  proof -
    have "?step e g = None" if "serve_turns h e" for e
    proof (cases e)
      case (EvService se)
      with that obtain f where "turns f se" by (auto split: option.splits)
      with rests [OF g(6), of sample_dur f] have "service_step sample_dur se (sg_service g) = None"
        by (auto simp: ready_def)
      with EvService show ?thesis by simp
    qed (use that g in simp_all)
    then show ?thesis by (auto simp: ready_def)
  qed
  then have "fair ?step (serve_turns h) (served_at srv) served_event_at" for h unfolding at by (rule fair_then)
  moreover have "\<exists>m\<ge>n. \<not> sg_running (served_at srv m)" for n
    using late [of "n + length sample_serve"] g(5) by (intro exI [of _ "n + length sample_serve"]) simp
  ultimately show ?thesis unfolding fair_serve_def by (simp add: jobs live_jobs_def)
qed

section \<open>The property\<close>

text \<open>
  C19. \<open>Serve\<close> returns, in every fair run of the server, whatever else happens in it and in whatever
  order. In a process that does not crash, once the clock passes every instant and no goroutine that is
  ready for good is left standing, \<open>Serve\<close> returns after its context has ended, the transport has returned
  or the shutdown has begun, provided \<open>GracefulStop\<close> returns once every RPC is answered and the transport
  returns once it is stopped. Every job is over by then, and every RPC is answered unless the grace ran out.
\<close>

theorem fair_Serve_returns:
  assumes "graceful_stop drained" and "stop_returns drained"
    and "New_server x listen now cfg lg = Some (logged, Inr srv)"
    and "fair_serve dur drained srv \<sigma> ev" and "\<sigma> 0 = Serve srv"
    and "sg_ctxDone (\<sigma> n) \<or> sg_served (\<sigma> n) \<noteq> None \<or> sg_main (\<sigma> n) \<noteq> SelectServe"
  shows "\<exists>m\<ge>n. \<exists>r. sg_main (\<sigma> m) = ServeDone r
    \<and> (\<forall>p<length (svc_jobs (sg_service (\<sigma> m))). Status (js_job (svc_jobs (sg_service (\<sigma> m)) ! p)) \<noteq> StatusRunning)
    \<and> (sg_stopCalled (\<sigma> m) \<or> all_answered (sg_service (\<sigma> m)))"
proof -
  note run = fair_serveD(1) [OF assms(4)]
  have start: "serve_inv dur (\<sigma> 0)" using Serve_drain_inv [OF assms(3)] assms(5) by (simp add: serve_inv_def)
  have inv: "serve_inv dur (\<sigma> m)" for m
    by (rule follows_stable [OF run le0]) (use start serve_inv_step [OF assms(1)] in blast)+
  have "told (\<sigma> n)" using assms(6) by (auto simp: told_def)
  from serve_returns [OF assms(4,1,2) inv this] obtain m r where m: "m \<ge> n" "sg_main (\<sigma> m) = ServeDone r"
    by (auto simp: returned_iff)
  have "reaches (serve_step dur drained srv) (Serve srv) (\<sigma> m)" using follows_reaches [OF run] assms(5) by simp
  from Serve_end [OF assms(1,3) this m(2)] inv [of m] m show ?thesis
    by (auto simp: serve_inv_def serving_inv_def)
qed

theorem fair_Serve_returns_witness:
  "\<exists>srv. New_server sample_externals Inr 10 sample_config None = Some ([], Inr srv)
    \<and> (\<exists>m\<ge>1. \<exists>r. sg_main (served_at srv m) = ServeDone r)"
proof -
  obtain srv where srv: "New_server sample_externals Inr 10 sample_config None = Some ([], Inr srv)"
    using sample_server_exists [of None] by (auto simp: OrDiscard_def discard_logger_def audit_discarded)
  obtain lg where lg: "srv_service srv = NewService lg" using New_server_service [OF srv] by blast
  have ok: "graceful_stop cut_or_answered" "stop_returns cut_or_answered"
    by (simp_all add: graceful_stop_def stop_returns_def cut_or_answered_def)
  have "served_at srv 0 = Serve srv" "sg_ctxDone (served_at srv 1)"
    by (simp_all add: served_at_def run_then_def sample_serve_def)
  with fair_Serve_returns [OF ok srv served_is_fair [OF lg], of 1] srv show ?thesis by blast
qed

end
