(* ===== verification/Client.thy ===== *)
theory Client
  imports Service
begin

text \<open>
  \<open>internal/client\<close>: the client of the four RPCs. A connection, which gRPC gives, is the record of
  what its calls return; a stream is the list of what \<open>Recv\<close> has returned so far. \<open>code_of\<close> stands for
  \<open>status.Code\<close>, \<open>dial\<close> for \<open>grpc.NewClient\<close> and \<open>json\<close> for \<open>protojson\<close> and the validity check of
  \<open>encoding/json\<close>. A function that ranges over \<open>StreamOutput\<close> is its loop body, \<open>yield\<close>, on the
  state of that function.
\<close>

section \<open>Failures\<close>

definition client_class :: "grpc_code \<Rightarrow> client_sentinel" where
  "client_class code =
     (case code of
        CodeInvalidArgument \<Rightarrow> ErrInvalidArgument
      | CodeNotFound \<Rightarrow> ErrNotFound
      | CodePermissionDenied \<Rightarrow> ErrPermissionDenied
      | CodeUnauthenticated \<Rightarrow> ErrUnauthenticated
      | CodeUnavailable \<Rightarrow> ErrUnavailable
      | CodeCanceled \<Rightarrow> ErrCanceled
      | CodeDeadlineExceeded \<Rightarrow> ErrDeadlineExceeded
      | _ \<Rightarrow> ErrRPC)"

text \<open>
  \<open>errorFrom\<close> is called with an error alone, so the branch in which the code answers nil to nil has no case.
\<close>

definition errorFrom :: "(go_error \<Rightarrow> grpc_code) \<Rightarrow> string \<Rightarrow> go_error \<Rightarrow> go_error" where
  "errorFrom code_of operation err =
     Wrap2 (operation @ '': '') (Sentinel (SClient (client_class (code_of err)))) err"

text \<open>What \<open>status.Code\<close> is documented to return for the errors the server answers with.\<close>

definition status_codes :: "(go_error \<Rightarrow> grpc_code) \<Rightarrow> bool" where
  "status_codes code_of \<longleftrightarrow> (\<forall>c m. code_of (StatusErr c m) = c)"

section \<open>Building a client\<close>

record client_config =
  client_Address :: string
  client_CAPath :: string
  client_CertPath :: string
  client_KeyPath :: string

record connection =
  conn_Close :: "go_error option"
  rpc_Start :: "32 word \<Rightarrow> string result"
  rpc_Stop :: "string \<Rightarrow> wire_status result"
  rpc_GetStatus :: "string \<Rightarrow> wire_status result"
  rpc_StreamOutput :: "string \<Rightarrow> wire_tick result list result"

record client =
  cl_connection :: connection

text \<open>The records it logs, and the client; \<open>None\<close> when reading the trust bundle does not return.\<close>

definition New_client :: "externals \<Rightarrow> (string \<Rightarrow> tls_config \<Rightarrow> connection result) \<Rightarrow> int \<Rightarrow> client_config
    \<Rightarrow> logger option \<Rightarrow> (log_record list \<times> client result) option" where
  "New_client x dial now cfg lg =
     (let invalid = (\<lambda>p e. Wrap2 p (Sentinel (SClient ErrConfig)) e)
      in if client_Address cfg = '''' then
           Some ([], Inl (Wrap1 ''new client: empty address: '' (Sentinel (SClient ErrConfig))))
         else
           (case NewAuthenticator x (client_CAPath cfg) lg of
              None \<Rightarrow> None
            | Some (logged, Inl err) \<Rightarrow> Some (logged, Inl (invalid ''new client: '' err))
            | Some (logged, Inr authenticator) \<Rightarrow>
                Some (logged,
                  case ClientConfig x now authenticator (client_CertPath cfg) (client_KeyPath cfg) of
                    Inl err \<Rightarrow> Inl (invalid ''new client: '' err)
                  | Inr tlsConfig \<Rightarrow>
                      (case dial (client_Address cfg) tlsConfig of
                         Inl err \<Rightarrow> Inl (invalid (''new client ['' @ client_Address cfg @ '']: '') err)
                       | Inr connection \<Rightarrow> Inr \<lparr>cl_connection = connection\<rparr>))))"

definition Close_client :: "(go_error \<Rightarrow> grpc_code) \<Rightarrow> client \<Rightarrow> unit result" where
  "Close_client code_of c =
     (case conn_Close (cl_connection c) of
        Some err \<Rightarrow> if code_of err \<noteq> CodeCanceled then Inl (Wrap1 ''close: '' err) else Inr ()
      | None \<Rightarrow> Inr ())"

section \<open>The unary calls\<close>

text \<open>\<open>Status.String\<close> of the generated code.\<close>

primrec wire_text :: "wire_status \<Rightarrow> string" where
  "wire_text STATUS_UNSPECIFIED = ''STATUS_UNSPECIFIED''"
| "wire_text STATUS_RUNNING = ''STATUS_RUNNING''"
| "wire_text STATUS_COMPLETED = ''STATUS_COMPLETED''"
| "wire_text STATUS_STOPPED = ''STATUS_STOPPED''"
| "wire_text STATUS_FAILED = ''STATUS_FAILED''"
| "wire_text (STATUS_OTHER n) = show_int n"

definition statusFrom :: "wire_status \<Rightarrow> job_status result" where
  "statusFrom wire =
     (let unknown = Inl (Wrap1 (''status ['' @ wire_text wire @ '']: '') (Sentinel (SClient ErrUnknownStatus)))
      in case wire of
           STATUS_RUNNING \<Rightarrow> Inr StatusRunning
         | STATUS_COMPLETED \<Rightarrow> Inr StatusCompleted
         | STATUS_STOPPED \<Rightarrow> Inr StatusStopped
         | STATUS_FAILED \<Rightarrow> Inr StatusFailed
         | STATUS_UNSPECIFIED \<Rightarrow> unknown
         | STATUS_OTHER n \<Rightarrow> unknown)"

definition client_Start :: "(go_error \<Rightarrow> grpc_code) \<Rightarrow> client \<Rightarrow> int \<Rightarrow> job_id result" where
  "client_Start code_of c count =
     (let operation = ''start ['' @ show_int count @ '']''
      in if count < min_int32 \<or> max_int32 < count then
           Inl (Wrap1 (operation @ '': '') (Sentinel (SClient ErrInvalidArgument)))
         else
           (case rpc_Start (cl_connection c) (to_int32 count) of
              Inl err \<Rightarrow> Inl (errorFrom code_of operation err)
            | Inr jobID \<Rightarrow> Inr jobID))"

definition client_Stop :: "(go_error \<Rightarrow> grpc_code) \<Rightarrow> client \<Rightarrow> job_id \<Rightarrow> job_status result" where
  "client_Stop code_of c jobID =
     (let operation = ''stop ['' @ jobID @ '']''
      in case rpc_Stop (cl_connection c) jobID of
           Inl err \<Rightarrow> Inl (errorFrom code_of operation err)
         | Inr response \<Rightarrow> wrapping (operation @ '': '') (statusFrom response) Inr)"

definition client_GetStatus :: "(go_error \<Rightarrow> grpc_code) \<Rightarrow> client \<Rightarrow> job_id \<Rightarrow> job_status result" where
  "client_GetStatus code_of c jobID =
     (let operation = ''get status ['' @ jobID @ '']''
      in case rpc_GetStatus (cl_connection c) jobID of
           Inl err \<Rightarrow> Inl (errorFrom code_of operation err)
         | Inr response \<Rightarrow> wrapping (operation @ '': '') (statusFrom response) Inr)"

section \<open>Ticks as JSON\<close>

text \<open>
  \<open>json.Compact\<close> copies a valid text without the white space outside its string literals. Where the
  copy is: between tokens, in a literal, after a backslash in one.
\<close>

datatype json_place = Outside | Inside | Escaped

definition json_next :: "json_place \<Rightarrow> char \<Rightarrow> json_place" where
  "json_next p c =
     (case p of
        Outside \<Rightarrow> if c = CHR 0x22 then Inside else Outside
      | Inside \<Rightarrow> if c = CHR 0x22 then Outside else if c = CHR 0x5C then Escaped else Inside
      | Escaped \<Rightarrow> Inside)"

definition json_space :: "char \<Rightarrow> bool" where
  "json_space c \<longleftrightarrow> c = CHR '' '' \<or> c = CHR 0x09 \<or> c = CHR 0x0A \<or> c = CHR 0x0D"

fun compact_bytes :: "json_place \<Rightarrow> string \<Rightarrow> string" where
  "compact_bytes p [] = []"
| "compact_bytes p (c # cs) =
     (if p = Outside \<and> json_space c then compact_bytes p cs
      else c # compact_bytes (json_next p c) cs)"

text \<open>
  \<open>Marshal\<close> of a tick with the given \<open>EmitDefaultValues\<close>, and the error of a text that is not JSON.
\<close>

record json_codec =
  json_Marshal :: "bool \<Rightarrow> wire_tick \<Rightarrow> string result"
  json_check :: "string \<Rightarrow> go_error option"

definition json_Compact :: "json_codec \<Rightarrow> string \<Rightarrow> string result" where
  "json_Compact json src =
     (case json_check json src of Some err \<Rightarrow> Inl err | None \<Rightarrow> Inr (compact_bytes Outside src))"

definition tickJSON :: "json_codec \<Rightarrow> wire_tick \<Rightarrow> string result" where
  "tickJSON json tick =
     wrapping ''tick json: '' (json_Marshal json True tick) (\<lambda>encoded.
     wrapping ''tick json: '' (json_Compact json encoded) (\<lambda>compacted.
     Inr compacted))"

section \<open>The stream\<close>

text \<open>
  A sequence has ended, by itself or because its consumer left it, or it waits for the next \<open>Recv\<close>. Every
  return of the sequence runs its deferred \<open>cancel\<close>, so \<open>SeqEnded\<close> is also the end of the RPC's context.
\<close>

datatype seq_end = SeqEnded | SeqWaiting

type_synonym 's consumer = "string result \<Rightarrow> 's \<Rightarrow> 's \<times> bool"

fun stream_loop :: "(go_error \<Rightarrow> grpc_code) \<Rightarrow> json_codec \<Rightarrow> string \<Rightarrow> 's consumer \<Rightarrow> wire_tick result list
    \<Rightarrow> 's \<Rightarrow> 's \<times> seq_end" where
  "stream_loop code_of json operation yield [] s = (s, SeqWaiting)"
| "stream_loop code_of json operation yield (Inl err # recvs) s =
     (if errors_is err (SStd IoEOF) then (s, SeqEnded)
      else (fst (yield (Inl (errorFrom code_of operation err)) s), SeqEnded))"
| "stream_loop code_of json operation yield (Inr tick # recvs) s =
     (case tickJSON json tick of
        Inl err \<Rightarrow> (fst (yield (Inl (Wrap1 (operation @ '': '') err)) s), SeqEnded)
      | Inr encoded \<Rightarrow>
          (case yield (Inr encoded) s of
             (s', False) \<Rightarrow> (s', SeqEnded)
           | (s', True) \<Rightarrow> stream_loop code_of json operation yield recvs s'))"

definition client_StreamOutput :: "(go_error \<Rightarrow> grpc_code) \<Rightarrow> json_codec \<Rightarrow> client \<Rightarrow> job_id
    \<Rightarrow> 's consumer \<Rightarrow> 's \<Rightarrow> 's \<times> seq_end" where
  "client_StreamOutput code_of json c jobID yield s =
     (let operation = ''stream output ['' @ jobID @ '']''
      in case rpc_StreamOutput (cl_connection c) jobID of
           Inl err \<Rightarrow> (fst (yield (Inl (errorFrom code_of operation err)) s), SeqEnded)
         | Inr recvs \<Rightarrow> stream_loop code_of json operation yield recvs s)"

section \<open>Lemmas\<close>

lemma client_class_is [simp]:
  "errors_is (errorFrom code_of operation err) (SClient s)
     \<longleftrightarrow> s = client_class (code_of err) \<or> errors_is err (SClient s)"
  by (auto simp: errorFrom_def)

lemma errorFrom_keeps: "errors_is err t \<Longrightarrow> errors_is (errorFrom code_of operation err) t"
  by (simp add: errorFrom_def)

text \<open>The white space a valid text has is all outside its literals, where no control byte may be.\<close>

fun control_inside :: "json_place \<Rightarrow> string \<Rightarrow> bool" where
  "control_inside p [] \<longleftrightarrow> False"
| "control_inside p (c # cs) \<longleftrightarrow>
     p \<noteq> Outside \<and> of_char c < (32 :: nat) \<or> control_inside (json_next p c) cs"

definition rejects_controls :: "json_codec \<Rightarrow> bool" where
  "rejects_controls json \<longleftrightarrow> (\<forall>s. json_check json s = None \<longrightarrow> \<not> control_inside Outside s)"

lemma compact_one_line:
  "\<not> control_inside p s \<Longrightarrow> CHR 0x0A \<notin> set (compact_bytes p s)"
  by (induction p s rule: compact_bytes.induct) (auto simp: json_space_def json_next_def split: if_splits)

lemma compact_idem: "compact_bytes p (compact_bytes p s) = compact_bytes p s"
  by (induction p s rule: compact_bytes.induct) auto

lemma tickJSON_one_line:
  "rejects_controls json \<Longrightarrow> tickJSON json tick = Inr line \<Longrightarrow> CHR 0x0A \<notin> set line"
  by (auto simp: tickJSON_def json_Compact_def rejects_controls_def compact_one_line split: option.splits)

text \<open>What a stream has to yield, in order: its ticks up to the first failure, and that failure.\<close>

definition stream_item :: "(go_error \<Rightarrow> grpc_code) \<Rightarrow> json_codec \<Rightarrow> string \<Rightarrow> wire_tick result
    \<Rightarrow> string result" where
  "stream_item code_of json operation r =
     (case r of
        Inl err \<Rightarrow> Inl (errorFrom code_of operation err)
      | Inr tick \<Rightarrow> map_sum (Wrap1 (operation @ '': '')) id (tickJSON json tick))"

definition stream_items :: "(go_error \<Rightarrow> grpc_code) \<Rightarrow> json_codec \<Rightarrow> string \<Rightarrow> wire_tick result list
    \<Rightarrow> string result list" where
  "stream_items code_of json operation recvs =
     (let item = stream_item code_of json operation; good = takeWhile (\<lambda>r. is_ok (item r)) recvs
      in map item good
         @ (case drop (length good) recvs of
              [] \<Rightarrow> []
            | r # _ \<Rightarrow> if fails_with r (SStd IoEOF) then [] else [item r]))"

definition stream_over :: "(go_error \<Rightarrow> grpc_code) \<Rightarrow> json_codec \<Rightarrow> string \<Rightarrow> wire_tick result list \<Rightarrow> bool" where
  "stream_over code_of json operation recvs \<longleftrightarrow>
     list_ex (\<lambda>r. \<not> is_ok (stream_item code_of json operation r)) recvs"

lemma stream_items_simps [simp]:
  "stream_items code_of json operation [] = []"
  "stream_items code_of json operation (Inl err # recvs) =
     (if errors_is err (SStd IoEOF) then [] else [Inl (errorFrom code_of operation err)])"
  "tickJSON json tick = Inl err \<Longrightarrow>
     stream_items code_of json operation (Inr tick # recvs) = [Inl (Wrap1 (operation @ '': '') err)]"
  "tickJSON json tick = Inr line \<Longrightarrow>
     stream_items code_of json operation (Inr tick # recvs) = Inr line # stream_items code_of json operation recvs"
  by (simp_all add: stream_items_def stream_item_def Let_def)

text \<open>A consumer that keeps what it is yielded and leaves the range after \<open>Suc n\<close> items.\<close>

definition collect :: "nat \<Rightarrow> string result list consumer" where
  "collect n i acc = (acc @ [i], length acc < n)"

lemma stream_loop_collect:
  assumes "length acc \<le> n"
  shows "stream_loop code_of json operation (collect n) recvs acc =
    (acc @ take (Suc n - length acc) (stream_items code_of json operation recvs),
     if length (stream_items code_of json operation recvs) \<le> n - length acc
        \<and> \<not> stream_over code_of json operation recvs
     then SeqWaiting else SeqEnded)"
  using assms
proof (induction recvs arbitrary: acc)
  case (Cons r recvs)
  show ?case
  proof (cases r)
    case (Inl err)
    with Cons.prems show ?thesis
      by (simp add: collect_def stream_over_def stream_item_def Suc_diff_le)
  next
    case (Inr tick)
    show ?thesis
    proof (cases "tickJSON json tick")
      case (Inl err)
      with \<open>r = _\<close> Cons.prems show ?thesis
        by (simp add: collect_def stream_over_def stream_item_def Suc_diff_le)
    next
      case (Inr line)
      show ?thesis
      proof (cases "length acc < n")
        case True
        with Cons.IH [of "acc @ [Inr line]"] \<open>r = _\<close> Inr show ?thesis
          by (auto simp: collect_def stream_over_def stream_item_def Suc_diff_le)
      next
        case False
        with \<open>r = _\<close> Inr Cons.prems show ?thesis by (simp add: collect_def)
      qed
    qed
  qed
qed (simp add: stream_over_def)



text \<open>A client on the sample parameters, for the witnesses of what calls it.\<close>

definition sample_client_config :: client_config where
  "sample_client_config =
     \<lparr>client_Address = ''h:1'', client_CAPath = ''ca.crt'', client_CertPath = ''agent.crt'',
      client_KeyPath = ''agent.key''\<rparr>"

lemma sample_client:
  "New_client sample_externals (\<lambda>address cfg. Inr conn) 10 sample_client_config None =
     Some ([], Inr \<lparr>cl_connection = conn\<rparr>)"
proof -
  obtain cfg where "ClientConfig sample_externals 10 (sample_auth discard_logger) ''agent.crt'' ''agent.key'' = Inr cfg"
    using sample_tls_configs by (auto simp: is_ok_conv)
  then show ?thesis
    by (simp add: New_client_def sample_client_config_def sample_authenticator OrDiscard_def
        audit_discarded discard_logger_def)
qed

section \<open>Properties\<close>

text \<open>
  The status a job has is the status a client reports: what the service puts on the wire for each of
  the four is read back as that one, without a warning; and any other wire status, which no status of a
  job is sent as, is the error \<open>ErrUnknownStatus\<close>.
\<close>

lemma client_status_roundtrip:
  "protoStatus lg (status_text st) = ([], snd (protoStatus lg (status_text st)))
   \<and> statusFrom (snd (protoStatus lg (status_text st))) = Inr st
   \<and> (case statusFrom wire of
        Inr st' \<Rightarrow> wire = snd (protoStatus lg (status_text st'))
      | Inl e \<Rightarrow> errors_is e (SClient ErrUnknownStatus) \<and> wire \<noteq> snd (protoStatus lg (status_text st)))"
  by (cases st; cases wire) (simp_all add: protoStatus_def statusFrom_def)

text \<open>
  C38. What ranging over a stream yields. A consumer that leaves after \<open>Suc n\<close> items is handed the first
  \<open>Suc n\<close> of these: the JSON of each tick in the order received, up to the first receive that fails or
  tick that cannot be encoded, and that failure as the last item, unless it is the end of the stream.
  The sequence ends at that point or when the consumer leaves, and waits for a receive otherwise.
\<close>

theorem client_stream_sequence:
  "client_StreamOutput code_of json c jobID (collect n) [] =
     (let operation = ''stream output ['' @ jobID @ '']''
      in case rpc_StreamOutput (cl_connection c) jobID of
           Inl err \<Rightarrow> ([Inl (errorFrom code_of operation err)], SeqEnded)
         | Inr recvs \<Rightarrow>
             (take (Suc n) (stream_items code_of json operation recvs),
              if length (stream_items code_of json operation recvs) \<le> n
                 \<and> list_all (\<lambda>r. is_ok (stream_item code_of json operation r)) recvs
              then SeqWaiting else SeqEnded))"
  by (simp add: client_StreamOutput_def stream_loop_collect stream_over_def Let_def collect_def
      list_all_iff list_ex_iff split: sum.split)

end
