(* ===== verification/Flags.thy ===== *)
theory Flags
  imports Go_Errors
begin

text \<open>
  What the two commands use of the standard library to read a command line: \<open>flag.FlagSet.Parse\<close> for
  string flags with \<open>ContinueOnError\<close>, and \<open>strconv.Atoi\<close> on a 64-bit platform. A flag set is the
  list of its flags with their values, in the order they were defined; \<open>quote\<close> stands for the
  quoting of a string in an error message. Their outputs are writers.
\<close>

section \<open>Flags\<close>

type_synonym flag_set = "(string \<times> string) list"

text \<open>A word with a minus in front is a flag; it is cut at the first equals sign after its first byte.\<close>

definition is_flag :: "string \<Rightarrow> bool" where
  "is_flag s \<longleftrightarrow> 2 \<le> length s \<and> hd s = CHR ''-''"

definition flag_name :: "string \<Rightarrow> string" where
  "flag_name s = (if take 2 s = ''--'' then drop 2 s else drop 1 s)"

definition bad_flag :: "string \<Rightarrow> bool" where
  "bad_flag word \<longleftrightarrow> word = [] \<or> hd word = CHR ''-'' \<or> hd word = CHR ''=''"

definition split_value :: "string \<Rightarrow> string \<times> string option" where
  "split_value name =
     (case name of
        [] \<Rightarrow> ([], None)
      | c # cs \<Rightarrow>
          (case dropWhile (\<lambda>b. b \<noteq> CHR ''='') cs of
             [] \<Rightarrow> (name, None)
           | _ # value \<Rightarrow> (c # takeWhile (\<lambda>b. b \<noteq> CHR ''='') cs, Some value)))"

definition in_quotes :: "string \<Rightarrow> string" where
  "in_quotes s = [CHR 0x22] @ s @ [CHR 0x22]"

definition flag_help :: go_error where "flag_help = Sentinel (SStd FlagErrHelp)"

text \<open>
  The words that are left when the flags end, and the flag set with the values given. A value is in
  the flag's own word or the next one.
\<close>

fun Parse_flags :: "flag_set \<Rightarrow> string list \<Rightarrow> (string list \<times> flag_set) result" where
  "Parse_flags fs [] = Inr ([], fs)"
| "Parse_flags fs (s # args) =
     (if \<not> is_flag s then Inr (s # args, fs)
      else if s = ''--'' then Inr (args, fs)
      else
        (let word = flag_name s
         in if bad_flag word then Inl (Foreign (''bad flag syntax: '' @ s))
            else
              (case split_value word of
                 (name, given) \<Rightarrow>
                   if map_of fs name = None then
                     (if name = ''help'' \<or> name = ''h'' then Inl flag_help
                      else Inl (Foreign (''flag provided but not defined: -'' @ name)))
                   else
                     (case given of
                        Some value \<Rightarrow> Parse_flags (AList.update name value fs) args
                      | None \<Rightarrow>
                          (case args of
                             [] \<Rightarrow> Inl (Foreign (''flag needs an argument: -'' @ name))
                           | value # rest \<Rightarrow> Parse_flags (AList.update name value fs) rest)))))"

text \<open>The value of a defined flag.\<close>

definition flag_value :: "flag_set \<Rightarrow> string \<Rightarrow> string" where
  "flag_value fs name = the (map_of fs name)"

section \<open>Integers\<close>

text \<open>
  Decimal digits, most significant first, up to 64 bits: the first byte that is not a digit or the
  first digit that overflows ends the reading.
\<close>

fun uint64_digits :: "nat \<Rightarrow> string \<Rightarrow> string + nat" where
  "uint64_digits acc [] = Inr acc"
| "uint64_digits acc (c # cs) =
     (case digit_value c of
        None \<Rightarrow> Inl ''invalid syntax''
      | Some d \<Rightarrow>
          (let n = acc * 10 + d
           in if 2 ^ 64 \<le> n then Inl ''value out of range'' else uint64_digits n cs))"

text \<open>An optional sign and decimal digits, within the range of a 64-bit integer.\<close>

definition Atoi :: "(string \<Rightarrow> string) \<Rightarrow> string \<Rightarrow> int result" where
  "Atoi quote s =
     (let failed = (\<lambda>why. Inl (Foreign (''strconv.Atoi: parsing '' @ quote s @ '': '' @ why)));
          neg = (s \<noteq> [] \<and> hd s = CHR ''-'');
          digits = (if s \<noteq> [] \<and> (hd s = CHR ''-'' \<or> hd s = CHR ''+'') then tl s else s)
      in if digits = [] then failed ''invalid syntax''
         else case uint64_digits 0 digits of
                Inl why \<Rightarrow> failed why
              | Inr n \<Rightarrow>
                  (let i = (if neg then - int n else int n)
                   in if i < min_int64 \<or> max_int64 < i then failed ''value out of range'' else Inr i))"

section \<open>Writers\<close>

text \<open>What a write leaves of the text written before, and the error it returns.\<close>

type_synonym writer = "string \<Rightarrow> string \<Rightarrow> string \<times> go_error option"

text \<open>A writer that takes everything it is given.\<close>

definition takes_all :: "writer \<Rightarrow> bool" where
  "takes_all put \<longleftrightarrow> (\<forall>out s. put out s = (out @ s, None))"

lemma takes_all_put [simp]: "takes_all put \<Longrightarrow> put out s = (out @ s, None)"
  by (simp add: takes_all_def)

section \<open>Lemmas\<close>

lemma digits_value_grows: "digits_value acc s = Some n \<Longrightarrow> acc \<le> n"
  by (induction acc s rule: digits_value.induct) (fastforce split: option.splits)+

lemma uint64_digits_value:
  "digits_value acc s = Some n \<Longrightarrow> n < 2 ^ 64 \<Longrightarrow> uint64_digits acc s = Inr n"
proof (induction acc s rule: digits_value.induct)
  case (2 acc c cs)
  then obtain d where d: "digit_value c = Some d" "digits_value (acc * 10 + d) cs = Some n"
    by (auto split: option.splits simp: mult.commute)
  have "acc * 10 + d \<le> n" by (rule digits_value_grows [OF d(2)])
  with 2 d show ?case by (auto simp: Let_def mult.commute)
qed simp

lemma uint64_digits_show: "n < 2 ^ 64 \<Longrightarrow> uint64_digits 0 (show_nat n) = Inr n"
  by (rule uint64_digits_value [OF digits_value_show])

lemma Atoi_show_int:
  assumes "min_int64 \<le> i" and "i \<le> max_int64"
  shows "Atoi quote (show_int i) = Inr i"
proof (cases "i < 0")
  case True
  then show ?thesis
    using assms uint64_digits_show [of "nat (- i)"]
    by (simp add: Atoi_def show_int_base_def Let_def int_bounds)
next
  case False
  have d: "c \<noteq> CHR ''-'' \<and> c \<noteq> CHR ''+''" if "is_digit c" for c
    using that by (auto simp: byte_class_defs)
  have "hd (show_nat (nat i)) \<in> set (show_nat (nat i))" by simp
  from d [OF show_nat_digits [OF this]] False assms uint64_digits_show [of "nat i"] show ?thesis
    by (simp add: Atoi_def show_int_base_def Let_def int_bounds)
qed

lemma split_value_plain: "CHR ''='' \<notin> set name \<Longrightarrow> split_value name = (name, None)"
proof (cases name)
  case (Cons c cs)
  moreover assume "CHR ''='' \<notin> set name"
  ultimately have "takeWhile (\<lambda>b. b \<noteq> CHR ''='') cs = cs" by (auto simp: takeWhile_eq_all_conv)
  then have "dropWhile (\<lambda>b. b \<noteq> CHR ''='') cs = []"
    by (metis append_self_conv takeWhile_dropWhile_id)
  then show ?thesis by (simp only: Cons split_value_def list.case)
qed (simp add: split_value_def)

text \<open>A flag given by its name, with its value in the next word.\<close>

lemma Parse_flags_next:
  assumes "map_of fs name \<noteq> None" and "CHR ''='' \<notin> set name" and "name \<noteq> []" and "hd name \<noteq> CHR ''-''"
  shows "Parse_flags fs ((''--'' @ name) # value # args) = Parse_flags (AList.update name value fs) args"
proof -
  have "hd name \<noteq> CHR ''=''" using assms(2,3) by (cases name) auto
  with assms show ?thesis
    by (auto simp: is_flag_def flag_name_def bad_flag_def split_value_plain Let_def)
qed

lemma Parse_flags_operand:
  "\<not> is_flag s \<Longrightarrow> Parse_flags fs (s # args) = Inr (s # args, fs)"
  by simp

text \<open>Parsing changes values only: the flags stay the ones that are defined.\<close>

lemma update_names:
  "map_of fs n \<noteq> None \<Longrightarrow> fst ` set (AList.update n v fs) = fst ` set fs"
  unfolding dom_map_of_conv_image_fst [symmetric] by (auto simp: update_conv split: if_splits)

lemma Parse_flags_names:
  "Parse_flags fs args = Inr (rest, fs') \<Longrightarrow> fst ` set fs' = fst ` set fs"
proof (induction "length args" arbitrary: fs args rule: less_induct)
  case less
  show ?case
  proof (cases args)
    case (Cons s args')
    have p: "Parse_flags fs (s # args') = Inr (rest, fs')" using less.prems Cons by simp
    obtain name given where split: "split_value (flag_name s) = (name, given)" by fastforce
    consider "fs' = fs"
      | v where "map_of fs name \<noteq> None" "Parse_flags (AList.update name v fs) args' = Inr (rest, fs')"
      | v args'' where "map_of fs name \<noteq> None" "args' = v # args''"
          "Parse_flags (AList.update name v fs) args'' = Inr (rest, fs')"
      using p split by (auto simp: Let_def split: if_splits option.splits list.splits)
    then show ?thesis
    proof cases
      case 2
      with less.hyps [OF _ 2(2)] Cons update_names [OF 2(1)] show ?thesis by simp
    next
      case 3
      with less.hyps [OF _ 3(3)] Cons update_names [OF 3(1)] show ?thesis by simp
    qed simp
  qed (use less.prems in simp)
qed

text \<open>Flags given by name, each with its value in the next word; a later one overrides an earlier one.\<close>

definition flag_words :: "(string \<times> string) list \<Rightarrow> string list" where
  "flag_words settings = concat (map (\<lambda>s. [''--'' @ fst s, snd s]) settings)"

definition plain_flag :: "string \<Rightarrow> bool" where
  "plain_flag name \<longleftrightarrow> name \<noteq> [] \<and> hd name \<noteq> CHR ''-'' \<and> CHR ''='' \<notin> set name"

lemma Parse_flags_words:
  assumes "\<forall>s\<in>set settings. fst s \<in> fst ` set fs \<and> plain_flag (fst s)"
    and "rest = [] \<or> \<not> is_flag (hd rest)"
  shows "\<exists>fs'. Parse_flags fs (flag_words settings @ rest) = Inr (rest, fs')
    \<and> (\<forall>n. map_of fs' n = (case map_of (rev settings) n of None \<Rightarrow> map_of fs n | Some v \<Rightarrow> Some v))"
  using assms(1)
proof (induction settings arbitrary: fs)
  case Nil
  from assms(2) show ?case by (cases rest) (auto simp: flag_words_def)
next
  case (Cons s settings)
  obtain n v where s: "s = (n, v)" by fastforce
  have n: "n \<in> fst ` set fs" "plain_flag n" using Cons.prems s by auto
  then have d: "map_of fs n \<noteq> None" by (simp add: map_of_eq_None_iff)
  let ?fs = "AList.update n v fs"
  have "\<forall>s\<in>set settings. fst s \<in> fst ` set ?fs \<and> plain_flag (fst s)"
    using Cons.prems update_names [OF d] by auto
  from Cons.IH [OF this] obtain fs' where fs': "Parse_flags ?fs (flag_words settings @ rest) = Inr (rest, fs')"
    "\<forall>m. map_of fs' m = (case map_of (rev settings) m of None \<Rightarrow> map_of ?fs m | Some w \<Rightarrow> Some w)"
    by blast
  have "Parse_flags fs (flag_words (s # settings) @ rest) = Inr (rest, fs')"
    using Parse_flags_next [OF d] n(2) fs'(1)
    by (simp del: Parse_flags.simps add: s flag_words_def plain_flag_def)
  moreover have "map_of fs' m = (case map_of (rev (s # settings)) m of None \<Rightarrow> map_of fs m | Some w \<Rightarrow> Some w)"
    for m
    using fs'(2) by (simp add: s update_conv map_add_def split: option.split)
  ultimately show ?case by blast
qed

text \<open>Every value of a flag set is the default or was given.\<close>

lemma flag_value_given:
  "map_of fs' n = (case map_of (rev settings) n of None \<Rightarrow> map_of fs n | Some v \<Rightarrow> Some v) \<Longrightarrow>
     flag_value fs' n = (case map_of (rev settings) n of None \<Rightarrow> flag_value fs n | Some v \<Rightarrow> v)"
  by (simp add: flag_value_def split: option.split)

text \<open>A request for help, or an error the flag package words.\<close>

lemma Parse_flags_error:
  "Parse_flags fs args = Inl e \<Longrightarrow> e = flag_help \<or> (\<exists>m. e = Foreign m)"
proof (induction "length args" arbitrary: fs args rule: less_induct)
  case less
  show ?case
  proof (cases args)
    case (Cons s args')
    obtain name given where split: "split_value (flag_name s) = (name, given)" by fastforce
    have p: "Parse_flags fs (s # args') = Inl e" using less.prems Cons by simp
    consider "e = flag_help \<or> (\<exists>m. e = Foreign m)"
      | v where "Parse_flags (AList.update name v fs) args' = Inl e"
      | v args'' where "args' = v # args''" "Parse_flags (AList.update name v fs) args'' = Inl e"
      using p split by (auto simp: Let_def split: if_splits option.splits list.splits)
    then show ?thesis
    proof cases
      case 2
      with less.hyps [OF _ 2] Cons show ?thesis by simp
    next
      case 3
      with less.hyps [OF _ 3(2)] Cons show ?thesis by simp
    qed simp
  qed (use less.prems in simp)
qed

end
