(* ===== verification/Fizzle.thy ===== *)
theory Fizzle
  imports Client Flags
begin

text \<open>
  \<open>cmd/fizzle\<close>: the command line client. The process is the texts of its two outputs and its exit code. What the
  command meets outside \<open>src/\<close> is one record. A command that has not returned, because a stream is
  still open or the trust bundle never ends, is \<open>None\<close>.
\<close>

section \<open>Exit codes\<close>

definition exitSuccess :: int where "exitSuccess = 0"
definition exitFailure :: int where "exitFailure = 1"
definition exitUsage :: int where "exitUsage = 2"

lemmas exit_codes = exitSuccess_def exitFailure_def exitUsage_def

definition errUsage :: go_error where "errUsage = Sentinel (SFizzle FizzleErrUsage)"

definition exitCodeFor :: "go_error option \<Rightarrow> int" where
  "exitCodeFor err =
     (case err of
        None \<Rightarrow> exitSuccess
      | Some e \<Rightarrow>
          if errors_is e (SFizzle FizzleErrUsage) \<or> errors_is e (SClient ErrInvalidArgument)
             \<or> errors_is e (SClient ErrConfig)
          then exitUsage else exitFailure)"

section \<open>The command line\<close>

definition commandStart :: string where "commandStart = ''start''"
definition commandStop :: string where "commandStop = ''stop''"
definition commandStatus :: string where "commandStatus = ''status''"
definition commandOutputs :: string where "commandOutputs = ''outputs''"

lemmas command_names = commandStart_def commandStop_def commandStatus_def commandOutputs_def

definition defaultAddress :: string where "defaultAddress = ''localhost:8443''"
definition defaultCAPath :: string where "defaultCAPath = ''.secrets/ca.crt''"
definition defaultCertPath :: string where "defaultCertPath = ''.secrets/agent-smith.crt''"
definition defaultKeyPath :: string where "defaultKeyPath = ''.secrets/agent-smith-private.key''"

definition usage :: string where
  "usage = concat (map (\<lambda>line. line @ [CHR 0x0A])
     [''fizzle runs stochastic countdowns on a fizzled server.'',
      '''',
      ''Usage:'',
      ''  fizzle <command> [flags] <argument>'',
      '''',
      ''Commands:'',
      ''  start <count>    start a job, and print its job id'',
      ''  stop <id>        request a stop, whether or not it is still running'',
      ''  status <id>      print RUNNING, COMPLETED, STOPPED or FAILED'',
      ''  outputs <id>     print every tick as one line of JSON, until the stream ends'',
      '''',
      ''Flags:'',
      ''  --server <address>   the server to dial (default '' @ in_quotes ''localhost:8443'' @ '')'',
      ''  --ca <path>          the trust bundle the server is verified against'',
      ''                       (default '' @ in_quotes ''.secrets/ca.crt'' @ '')'',
      ''  --cert <path>        the certificate this client presents'',
      ''                       (default '' @ in_quotes ''.secrets/agent-smith.crt'' @ '')'',
      ''  --key <path>         the private key for that certificate'',
      ''                       (default '' @ in_quotes ''.secrets/agent-smith-private.key'' @ '')'',
      '''',
      ''Exit codes:'',
      ''  0   the command succeeded'',
      ''  1   the command failed at the server, never reached it, or was interrupted'',
      ''  2   the command line, or the files it named, could not be used''])"

record invocation =
  inv_name :: string
  inv_argument :: string
  inv_config :: client_config

definition newFlagSet :: flag_set where
  "newFlagSet =
     [(''server'', defaultAddress), (''ca'', defaultCAPath), (''cert'', defaultCertPath),
      (''key'', defaultKeyPath)]"

text \<open>What the flags leave in the variables they are bound to.\<close>

definition flags_config :: "flag_set \<Rightarrow> client_config" where
  "flags_config fs =
     \<lparr>client_Address = flag_value fs ''server'', client_CAPath = flag_value fs ''ca'',
      client_CertPath = flag_value fs ''cert'', client_KeyPath = flag_value fs ''key''\<rparr>"

definition isHelpRequest :: "string \<Rightarrow> bool" where
  "isHelpRequest arg \<longleftrightarrow> arg = ''-h'' \<or> arg = ''-help'' \<or> arg = ''--help''"

definition fizzle_parse :: "string list \<Rightarrow> invocation result" where
  "fizzle_parse args =
     (case args of
        [] \<Rightarrow> Inl (Wrap1 ''parse: no command given: '' errUsage)
      | name # words \<Rightarrow>
          fail_if (isHelpRequest name) (Wrap1 ''parse: '' flag_help)
         (fail_if (name \<noteq> commandStart \<and> name \<noteq> commandStop \<and> name \<noteq> commandStatus \<and> name \<noteq> commandOutputs)
            (Wrap1 (''parse: unknown command ['' @ name @ '']: '') errUsage)
         (case Parse_flags newFlagSet words of
            Inl err \<Rightarrow>
              if errors_is err (SStd FlagErrHelp) then Inl (Wrap1 (''parse ['' @ name @ '']: '') err)
              else Inl (Wrap2 (''parse ['' @ name @ '']: '') errUsage err)
          | Inr (positionalArguments, fs) \<Rightarrow>
              (case positionalArguments of
                 [argument] \<Rightarrow>
                   Inr \<lparr>inv_name = name, inv_argument = argument, inv_config = flags_config fs\<rparr>
               | _ \<Rightarrow>
                   Inl (Wrap1 (''parse ['' @ name @ '']: expected one positional argument, got ''
                      @ show_int (int (length positionalArguments)) @ '': '') errUsage)))))"

datatype command =
    startCommand int
  | stopCommand job_id
  | statusCommand job_id
  | outputsCommand job_id

definition newCommand :: "(string \<Rightarrow> string) \<Rightarrow> string \<Rightarrow> string \<Rightarrow> command result" where
  "newCommand quote name argument =
     (if name = commandStart then
        (case Atoi quote argument of
           Inl err \<Rightarrow> Inl (Wrap2 (''new command ['' @ name @ '']: '') errUsage err)
         | Inr count \<Rightarrow> Inr (startCommand count))
      else if name = commandStop then Inr (stopCommand argument)
      else if name = commandStatus then Inr (statusCommand argument)
      else if name = commandOutputs then Inr (outputsCommand argument)
      else Inl (Wrap1 (''new command: unknown name ['' @ name @ '']: '') errUsage))"

section \<open>Running a command\<close>

record fizzle_env =
  env_externals :: externals
  env_dial :: "string \<Rightarrow> tls_config \<Rightarrow> connection result"
  env_now :: int
  env_code_of :: "go_error \<Rightarrow> grpc_code"
  env_json :: json_codec
  env_quote :: "string \<Rightarrow> string"
  env_status_text :: "grpc_code \<Rightarrow> string \<Rightarrow> string"
  env_stdout :: writer
  env_stderr :: writer

definition writeLine :: "writer \<Rightarrow> string \<Rightarrow> string \<Rightarrow> string \<times> unit result" where
  "writeLine put out line =
     (case put out (line @ [CHR 0x0A]) of
        (out', None) \<Rightarrow> (out', Inr ())
      | (out', Some err) \<Rightarrow> (out', Inl (Wrap1 ''write line: '' err)))"

text \<open>The loop of \<open>outputs\<close>: what it has written, and the error it returns with.\<close>

definition print_tick :: "writer \<Rightarrow> job_id \<Rightarrow> (string \<times> go_error option) consumer" where
  "print_tick put jobID item s =
     (case item of
        Inl err \<Rightarrow> ((fst s, Some (Wrap1 (''outputs ['' @ jobID @ '']: '') err)), False)
      | Inr tick \<Rightarrow>
          (case writeLine put (fst s) tick of
             (out, Inl err) \<Rightarrow> ((out, Some (Wrap1 (''outputs ['' @ jobID @ '']: '') err)), False)
           | (out, Inr _) \<Rightarrow> ((out, None), True)))"

fun execute_command :: "fizzle_env \<Rightarrow> client \<Rightarrow> command \<Rightarrow> string \<Rightarrow> (string \<times> unit result) option" where
  "execute_command env c (startCommand count) out =
     (case client_Start (env_code_of env) c count of
        Inl err \<Rightarrow> Some (out, Inl (Wrap1 (''start execute ['' @ show_int count @ '']: '') err))
      | Inr jobID \<Rightarrow> Some (writeLine (env_stdout env) out jobID))"
| "execute_command env c (stopCommand jobID) out =
     (case client_Stop (env_code_of env) c jobID of
        Inl err \<Rightarrow> Some (out, Inl (Wrap1 (''stop execute ['' @ jobID @ '']: '') err))
      | Inr _ \<Rightarrow> Some (out, Inr ()))"
| "execute_command env c (statusCommand jobID) out =
     (case client_GetStatus (env_code_of env) c jobID of
        Inl err \<Rightarrow> Some (out, Inl (Wrap1 (''status execute ['' @ jobID @ '']: '') err))
      | Inr st \<Rightarrow> Some (writeLine (env_stdout env) out (status_text st)))"
| "execute_command env c (outputsCommand jobID) out =
     (case client_StreamOutput (env_code_of env) (env_json env) c jobID
             (print_tick (env_stdout env) jobID) (out, None) of
        (s, SeqWaiting) \<Rightarrow> None
      | ((out', None), SeqEnded) \<Rightarrow> Some (out', Inr ())
      | ((out', Some err), SeqEnded) \<Rightarrow> Some (out', Inl err))"

text \<open>Whatever closing the connection returns is dropped.\<close>

definition fizzle_execute :: "fizzle_env \<Rightarrow> string list \<Rightarrow> string \<Rightarrow> (string \<times> unit result) option" where
  "fizzle_execute env args out =
     (case fizzle_parse args of
        Inl err \<Rightarrow> Some (out, Inl err)
      | Inr parsed \<Rightarrow>
          (case newCommand (env_quote env) (inv_name parsed) (inv_argument parsed) of
             Inl err \<Rightarrow> Some (out, Inl err)
           | Inr cmd \<Rightarrow>
               (case New_client (env_externals env) (env_dial env) (env_now env) (inv_config parsed) None of
                  None \<Rightarrow> None
                | Some (logged, Inl err) \<Rightarrow>
                    Some (out, Inl (Wrap1 (''execute ['' @ inv_name parsed @ '']: '') err))
                | Some (logged, Inr c) \<Rightarrow> execute_command env c cmd out)))"

definition diagnostic :: "fizzle_env \<Rightarrow> go_error \<Rightarrow> string" where
  "diagnostic env err = ''fizzle: '' @ error_text (env_status_text env) err @ [CHR 0x0A]"

text \<open>The texts on stdout and stderr and the exit code of a process that starts with none.\<close>

definition fizzle_run :: "fizzle_env \<Rightarrow> string list \<Rightarrow> (string \<times> string \<times> int) option" where
  "fizzle_run env args =
     (case fizzle_execute env args '''' of
        None \<Rightarrow> None
      | Some (out, Inr _) \<Rightarrow> Some (out, '''', exitSuccess)
      | Some (out, Inl err) \<Rightarrow>
          if errors_is err (SStd FlagErrHelp) then Some (fst (env_stdout env out usage), '''', exitSuccess)
          else
            (let said = (if errors_is err (SFizzle FizzleErrUsage) then fst (env_stderr env '''' usage) else '''')
             in Some (out, fst (env_stderr env said (diagnostic env err)), exitCodeFor (Some err))))"

text \<open>
  \<open>main\<close>: the arguments are the process's without its name, and slicing an empty list panics; the signals
  that end the context end the calls made under it.
\<close>

definition fizzle_main :: "fizzle_env \<Rightarrow> string list \<Rightarrow> (string \<times> string \<times> int) outcome option" where
  "fizzle_main env argv =
     (case argv of
        [] \<Rightarrow> Some (Panicked (PanicErr (Foreign ''slice bounds out of range'')))
      | program # args \<Rightarrow> map_option Returned (fizzle_run env args))"

section \<open>Lemmas\<close>

lemma plain_flags: "n \<in> fst ` set newFlagSet \<Longrightarrow> plain_flag n"
  by (auto simp: newFlagSet_def plain_flag_def)

lemma command_not_help:
  "name \<in> {commandStart, commandStop, commandStatus, commandOutputs} \<Longrightarrow> \<not> isHelpRequest name"
  by (auto simp: command_names isHelpRequest_def)

text \<open>An error of the parser is a request for help or a mistake of usage, never both.\<close>

lemma fizzle_parse_error:
  "fizzle_parse args = Inl e \<Longrightarrow>
     errors_is e (SStd FlagErrHelp) \<noteq> errors_is e (SFizzle FizzleErrUsage)"
  by (auto simp: fizzle_parse_def errUsage_def flag_help_def fail_if_def
      dest!: Parse_flags_error split: list.splits if_splits sum.splits prod.splits)

lemma newCommand_error:
  "newCommand quote name argument = Inl e \<Longrightarrow>
     errors_is e (SFizzle FizzleErrUsage) \<and> \<not> errors_is e (SStd FlagErrHelp)"
  by (auto simp: newCommand_def errUsage_def Atoi_def Let_def split: if_splits sum.splits)

lemma New_client_error:
  "New_client x dial now cfg lg = Some (logged, Inl e) \<Longrightarrow> errors_is e (SClient ErrConfig)"
  by (auto simp: New_client_def Let_def split: if_splits option.splits sum.splits prod.splits)

text \<open>An error that carries neither of the two sentinels the process looks for in its own errors.\<close>

definition plain_failure :: "go_error \<Rightarrow> bool" where
  "plain_failure e \<longleftrightarrow> \<not> errors_is e (SStd FlagErrHelp) \<and> \<not> errors_is e (SFizzle FizzleErrUsage)"

text \<open>The text of the lines among the items of a stream.\<close>

definition lines_of :: "string result list \<Rightarrow> string list" where
  "lines_of items = concat (map (\<lambda>i. case i of Inr l \<Rightarrow> [l] | Inl e \<Rightarrow> []) items)"

lemma lines_of_simps [simp]:
  "lines_of [] = []" "lines_of (Inr l # items) = l # lines_of items" "lines_of (Inl e # items) = lines_of items"
  by (simp_all add: lines_of_def)

definition text_of :: "string list \<Rightarrow> string" where
  "text_of ls = concat (map (\<lambda>l. l @ [CHR 0x0A]) ls)"

lemma text_of_simps [simp]: "text_of [] = []" "text_of (l # ls) = l @ CHR 0x0A # text_of ls"
  by (simp_all add: text_of_def)

lemma split_text_of: "\<forall>l\<in>set ls. CHR 0x0A \<notin> set l \<Longrightarrow> split_on (CHR 0x0A) (text_of ls) = ls @ [[]]"
  by (induction ls) (auto simp: split_on_append)

lemma print_stream:
  assumes "takes_all put"
  shows "stream_loop code_of json operation (print_tick put jobID) recvs (out, None) =
    (let items = stream_items code_of json operation recvs
     in (out @ text_of (lines_of items),
         case filter (\<lambda>i. \<not> is_ok i) items of
           Inl e # _ \<Rightarrow> Some (Wrap1 (''outputs ['' @ jobID @ '']: '') e)
         | _ \<Rightarrow> None),
      if stream_over code_of json operation recvs then SeqEnded else SeqWaiting)"
proof (induction recvs arbitrary: out)
  case (Cons r recvs)
  note evals = print_tick_def writeLine_def assms stream_over_def stream_item_def Let_def
  show ?case
  proof (cases r)
    case (Inl err)
    then show ?thesis by (simp add: evals)
  next
    case (Inr tick)
    with Cons.IH show ?thesis by (cases "tickJSON json tick") (simp_all add: evals)
  qed
qed (simp add: stream_over_def)

lemma lines_of_stream:
  "l \<in> set (lines_of (stream_items code_of json operation recvs)) \<Longrightarrow> \<exists>tick. tickJSON json tick = Inr l"
proof (induction recvs)
  case (Cons r recvs)
  show ?case
  proof (cases r)
    case (Inr tick)
    with Cons show ?thesis by (cases "tickJSON json tick") auto
  qed (use Cons.prems in \<open>simp split: if_splits\<close>)
qed simp

lemma open_stream_ok:
  "\<not> stream_over code_of json operation recvs \<Longrightarrow>
     list_all is_ok (stream_items code_of json operation recvs) \<and> list_all is_ok recvs"
proof (induction recvs)
  case (Cons r recvs)
  show ?case
  proof (cases r)
    case (Inr tick)
    with Cons show ?thesis
      by (cases "tickJSON json tick") (auto simp: stream_over_def stream_item_def)
  qed (use Cons.prems in \<open>simp add: stream_over_def stream_item_def\<close>)
qed simp

text \<open>Parameters to look at: a server that starts \<open>ann/0\<close> and streams two ticks.\<close>

definition sample_connection :: connection where
  "sample_connection =
     \<lparr>conn_Close = None, rpc_Start = (\<lambda>n. Inr ''ann/0''), rpc_Stop = (\<lambda>j. Inr STATUS_STOPPED),
      rpc_GetStatus = (\<lambda>j. Inr STATUS_RUNNING),
      rpc_StreamOutput =
        (\<lambda>j. Inr [Inr (Some Tick_Stopped), Inr None, Inl (Sentinel (SStd IoEOF))])\<rparr>"

definition sample_env :: fizzle_env where
  "sample_env =
     \<lparr>env_externals = sample_externals, env_dial = (\<lambda>address cfg. Inr sample_connection), env_now = 10,
      env_code_of = (\<lambda>e. CodeUnknown),
      env_json =
        \<lparr>json_Marshal = (\<lambda>emit t. Inr ''{ }''),
         json_check = (\<lambda>s. if control_inside Outside s then Some (Foreign ''bad'') else None)\<rparr>,
      env_quote = id, env_status_text = (\<lambda>c m. m),
      env_stdout = (\<lambda>out s. (out @ s, None)), env_stderr = (\<lambda>out s. (out @ s, None))\<rparr>"

lemmas parse_evals = fizzle_parse_def isHelpRequest_def command_names is_flag_def flag_name_def
  bad_flag_def split_value_def newFlagSet_def flags_config_def flag_value_def defaultAddress_def
  defaultCAPath_def defaultCertPath_def defaultKeyPath_def sample_client_config_def Let_def

lemma sample_env_takes: "takes_all (env_stdout sample_env)" "takes_all (env_stderr sample_env)"
  by (simp_all add: sample_env_def takes_all_def)

lemma sample_env_json: "rejects_controls (env_json sample_env)"
  by (simp add: sample_env_def rejects_controls_def)

section \<open>Properties\<close>

text \<open>
  The command line that is read: one of the four commands, then any of the four flags, each with
  its value in the next word, then one operand that is not a flag. The invocation has that command and
  operand, and each path and the address is the last value given for its flag, or else its default.
\<close>

lemma fizzle_parse_reads:
  assumes "name \<in> {''start'', ''stop'', ''status'', ''outputs''}"
    and "\<forall>s\<in>set settings. fst s \<in> {''server'', ''ca'', ''cert'', ''key''}"
    and "\<not> is_flag argument"
  shows "fizzle_parse (name # flag_words settings @ [argument]) =
    (let given = (\<lambda>n d. case map_of (rev settings) n of None \<Rightarrow> d | Some v \<Rightarrow> v)
     in Inr \<lparr>inv_name = name, inv_argument = argument,
             inv_config =
               \<lparr>client_Address = given ''server'' ''localhost:8443'',
                client_CAPath = given ''ca'' ''.secrets/ca.crt'',
                client_CertPath = given ''cert'' ''.secrets/agent-smith.crt'',
                client_KeyPath = given ''key'' ''.secrets/agent-smith-private.key''\<rparr>\<rparr>)"
proof -
  have known: "\<forall>s\<in>set settings. fst s \<in> fst ` set newFlagSet \<and> plain_flag (fst s)"
    using assms(2) plain_flags by (auto simp: newFlagSet_def)
  have "[argument] = [] \<or> \<not> is_flag (hd [argument])" using assms(3) by simp
  from Parse_flags_words [OF known this] obtain fs where
    fs: "Parse_flags newFlagSet (flag_words settings @ [argument]) = Inr ([argument], fs)"
    "\<And>n. map_of fs n = (case map_of (rev settings) n of None \<Rightarrow> map_of newFlagSet n | Some v \<Rightarrow> Some v)"
    by blast
  have "flag_value newFlagSet ''server'' = ''localhost:8443''" "flag_value newFlagSet ''ca'' = ''.secrets/ca.crt''"
    "flag_value newFlagSet ''cert'' = ''.secrets/agent-smith.crt''"
    "flag_value newFlagSet ''key'' = ''.secrets/agent-smith-private.key''"
    by (simp_all add: flag_value_def newFlagSet_def defaultAddress_def defaultCAPath_def
        defaultCertPath_def defaultKeyPath_def)
  note config = flags_config_def [of fs, unfolded flag_value_given [OF fs(2)] this]
  have "name \<in> {commandStart, commandStop, commandStatus, commandOutputs}"
    using assms(1) by (simp add: command_names)
  then have "fizzle_parse (name # flag_words settings @ [argument]) =
      Inr \<lparr>inv_name = name, inv_argument = argument, inv_config = flags_config fs\<rparr>"
    using command_not_help fs(1) by (auto simp: fizzle_parse_def simp del: Parse_flags.simps)
  then show ?thesis by (simp add: config Let_def)
qed

text \<open>
  C39. How the process ends, on two outputs that take what they are given. A request for help prints the
  usage on stdout and exits 0. A command line that cannot be read leaves stdout empty, prints the usage
  and a diagnostic on stderr and exits 2, before any file or connection is touched. A client that cannot
  be built exits 2 with a diagnostic only. A command that runs exits 0 when it succeeds, and when it
  fails 2 if the server called an argument invalid, else 1, with a diagnostic and what it had printed.
\<close>

theorem fizzle_exit_code:
  assumes "takes_all (env_stdout env)" and "takes_all (env_stderr env)"
  shows "case fizzle_parse args of
      Inl e \<Rightarrow> fizzle_run env args =
        Some (if errors_is e (SStd FlagErrHelp) then (usage, [], 0) else ([], usage @ diagnostic env e, 2))
    | Inr parsed \<Rightarrow>
        (case newCommand (env_quote env) (inv_name parsed) (inv_argument parsed) of
           Inl e \<Rightarrow> fizzle_run env args = Some ([], usage @ diagnostic env e, 2)
         | Inr cmd \<Rightarrow>
             (case New_client (env_externals env) (env_dial env) (env_now env) (inv_config parsed) None of
                None \<Rightarrow> fizzle_run env args = None
              | Some (logged, Inl e) \<Rightarrow> plain_failure e \<longrightarrow>
                  fizzle_run env args =
                    Some ([], diagnostic env (Wrap1 (''execute ['' @ inv_name parsed @ '']: '') e), 2)
              | Some (logged, Inr c) \<Rightarrow>
                  (case execute_command env c cmd [] of
                     None \<Rightarrow> fizzle_run env args = None
                   | Some (out, Inr u) \<Rightarrow> fizzle_run env args = Some (out, [], 0)
                   | Some (out, Inl e) \<Rightarrow> plain_failure e \<longrightarrow>
                       fizzle_run env args = Some (out, diagnostic env e,
                         if errors_is e (SClient ErrInvalidArgument) \<or> errors_is e (SClient ErrConfig)
                         then 2 else 1))))"
proof (cases "fizzle_parse args")
  case (Inl e)
  with fizzle_parse_error [OF Inl] assms show ?thesis
    by (auto simp: fizzle_run_def fizzle_execute_def exitCodeFor_def exit_codes Let_def)
next
  case (Inr parsed)
  note parsed = this
  show ?thesis
  proof (cases "newCommand (env_quote env) (inv_name parsed) (inv_argument parsed)")
    case (Inl e)
    with newCommand_error [OF Inl] parsed assms show ?thesis
      by (simp add: fizzle_run_def fizzle_execute_def exitCodeFor_def exit_codes Let_def)
  next
    case (Inr cmd)
    with parsed assms show ?thesis
      by (auto simp: fizzle_run_def fizzle_execute_def exitCodeFor_def exit_codes Let_def
          plain_failure_def dest: New_client_error split: option.split sum.split)
  qed
qed

theorem fizzle_exit_code_witness:
  "fizzle_run sample_env [''start'', ''--server'', ''h:1'', ''--ca'', ''ca.crt'', ''--cert'', ''agent.crt'',
       ''--key'', ''agent.key'', ''5''] = Some (''ann/0'' @ [CHR 0x0A], [], 0)
   \<and> fizzle_run sample_env [''bogus''] =
       Some ([], usage @ ''fizzle: parse: unknown command [bogus]: invalid usage'' @ [CHR 0x0A], 2)"
proof
  have parse: "fizzle_parse [''start'', ''--server'', ''h:1'', ''--ca'', ''ca.crt'', ''--cert'', ''agent.crt'',
       ''--key'', ''agent.key'', ''5''] =
     Inr \<lparr>inv_name = ''start'', inv_argument = ''5'', inv_config = sample_client_config\<rparr>"
    by (simp add: parse_evals)
  have cmd: "newCommand (env_quote sample_env) ''start'' ''5'' = Inr (startCommand 5)"
    by (simp add: newCommand_def command_names Atoi_def digit_value_def byte_class_defs int_bounds)
  note fizzle_exit_code [of sample_env, OF sample_env_takes]
  note this [of "[''start'', ''--server'', ''h:1'', ''--ca'', ''ca.crt'', ''--cert'', ''agent.crt'',
       ''--key'', ''agent.key'', ''5'']"]
  then show "fizzle_run sample_env [''start'', ''--server'', ''h:1'', ''--ca'', ''ca.crt'', ''--cert'', ''agent.crt'',
       ''--key'', ''agent.key'', ''5''] = Some (''ann/0'' @ [CHR 0x0A], [], 0)"
    by (simp only: parse cmd sum.case invocation.select_convs)
       (simp add: sample_env_def sample_client client_Start_def int_bounds sample_connection_def writeLine_def)
  have bogus: "fizzle_parse [''bogus''] = Inl (Wrap1 ''parse: unknown command [bogus]: '' errUsage)"
    by (simp add: parse_evals)
  from fizzle_exit_code [of sample_env, OF sample_env_takes, of "[''bogus'']"]
  show "fizzle_run sample_env [''bogus''] =
       Some ([], usage @ ''fizzle: parse: unknown command [bogus]: invalid usage'' @ [CHR 0x0A], 2)"
    by (simp only: bogus sum.case) (simp add: errUsage_def diagnostic_def)
qed

text \<open>
  What \<open>outputs\<close> prints. While the stream gives ticks the command does not return; when it does,
  stdout is the JSON of every tick received, in order, each on a line of its own, and the command fails
  exactly when the stream did or a tick could not be encoded, with that failure.
\<close>

lemma fizzle_outputs_prints:
  assumes "takes_all (env_stdout env)" and "rejects_controls (env_json env)"
    and "rpc_StreamOutput (cl_connection c) jobID = Inr recvs"
  shows "let items = stream_items (env_code_of env) (env_json env) (''stream output ['' @ jobID @ '']'') recvs
    in case execute_command env c (outputsCommand jobID) [] of
         None \<Rightarrow> list_all is_ok items \<and> list_all is_ok recvs
       | Some (out, r) \<Rightarrow>
           split_on (CHR 0x0A) out = lines_of items @ [[]]
           \<and> (case filter (\<lambda>i. \<not> is_ok i) items of
                Inl e # _ \<Rightarrow> r = Inl (Wrap1 (''outputs ['' @ jobID @ '']: '') e)
              | _ \<Rightarrow> r = Inr ())"
proof -
  define operation where "operation = ''stream output ['' @ jobID @ '']''"
  define items where "items = stream_items (env_code_of env) (env_json env) operation recvs"
  have lines: "\<forall>l\<in>set (lines_of items). CHR 0x0A \<notin> set l"
    unfolding items_def using lines_of_stream tickJSON_one_line [OF assms(2)] by blast
  have waiting: "list_all is_ok items \<and> list_all is_ok recvs"
    if "\<not> stream_over (env_code_of env) (env_json env) operation recvs"
    using that unfolding items_def by (rule open_stream_ok)
  have "execute_command env c (outputsCommand jobID) [] =
      (if stream_over (env_code_of env) (env_json env) operation recvs
       then Some (text_of (lines_of items),
         case filter (\<lambda>i. \<not> is_ok i) items of
           Inl e # _ \<Rightarrow> Inl (Wrap1 (''outputs ['' @ jobID @ '']: '') e) | _ \<Rightarrow> Inr ())
       else None)"
    using assms(3)
    by (simp add: client_StreamOutput_def print_stream [OF assms(1)] Let_def operation_def items_def
        split: list.split sum.split)
  with waiting split_text_of [OF lines] show ?thesis
    unfolding items_def operation_def by (auto simp: Let_def split: list.split sum.split)
qed

end
