(* ===== verification/Endpoint.thy ===== *)
theory Endpoint
  imports Call_Course Fizzle
begin

text \<open>
  A client in front of a server: what its RPCs get is what the interceptors and the service give. A call
  that waits, \<open>Stop\<close> or a stream, is looked at after a run of the service, in which anything may happen
  to the other calls and to the jobs.
\<close>

section \<open>A client in front of a server\<close>

text \<open>
  The answer a unary call was given, the handler that takes an RPC to its event of the service as call
  \<open>k\<close> and to what the service has come to by the events \<open>es\<close> after it, and the unary RPCs of a client
  through the interceptor to it. A handler whose service cannot take these events, because it has crashed
  or \<open>k\<close> is in use, is not called in what follows.
\<close>

definition answer_of :: "service \<Rightarrow> nat \<Rightarrow> unary_response result" where
  "answer_of w k =
     (case svc_calls w k of
        Some (Answered sent (Inr (Some response))) \<Rightarrow> Inr response
      | Some (Answered sent (Inl e)) \<Rightarrow> Inl e
      | _ \<Rightarrow> Inl (Foreign ''unanswered''))"

definition handle :: "(int \<Rightarrow> wire_duration) \<Rightarrow> nat \<Rightarrow> (agent_id \<Rightarrow> service_event)
    \<Rightarrow> service_event list \<Rightarrow> (service, unary_response) handler" where
  "handle dur k event es agent w =
     (case run_events (service_step dur) (event agent # es) w of
        None \<Rightarrow> (w, [], Panicked (PanicVal ''no step''))
      | Some w' \<Rightarrow> (w', [], Returned (answer_of w' k)))"

record endpoint =
  ep_externals :: externals
  ep_now :: int
  ep_stack :: string
  ep_interceptor :: interceptor
  ep_peer :: rpc_peer
  ep_dur :: "int \<Rightarrow> wire_duration"
  ep_call :: nat
  ep_service :: service

definition rpc_answer :: "endpoint \<Rightarrow> string \<Rightarrow> rpc_request \<Rightarrow> (agent_id \<Rightarrow> service_event)
    \<Rightarrow> service_event list \<Rightarrow> unary_response result" where
  "rpc_answer ep rpc request event es =
     snd (snd (Unary (ep_externals ep) (ep_now ep) (ep_stack ep) (ep_interceptor ep) (ep_peer ep) rpc request
       (handle (ep_dur ep) (ep_call ep) event es) (ep_service ep)))"

definition connected :: "endpoint \<Rightarrow> client \<Rightarrow> bool" where
  "connected ep c \<longleftrightarrow>
     (\<forall>n. rpc_Start (cl_connection c) n =
        map_sum id (\<lambda>r. case r of StartResponse jobID \<Rightarrow> jobID | _ \<Rightarrow> [])
          (rpc_answer ep FizzledService_Start_FullMethodName (StartRequest n)
             (\<lambda>a. OnStart (ep_call ep) (Some a) (ep_now ep) n) []))
     \<and> (\<forall>j. rpc_GetStatus (cl_connection c) j =
        map_sum id (\<lambda>r. case r of GetStatusResponse ws \<Rightarrow> ws | _ \<Rightarrow> STATUS_UNSPECIFIED)
          (rpc_answer ep FizzledService_GetStatus_FullMethodName (GetStatusRequest j)
             (\<lambda>a. OnGetStatus (ep_call ep) (Some a) j) []))"

text \<open>The service is one it can reach, its process is alive, and the call is a new one.\<close>

definition runnable :: "endpoint \<Rightarrow> bool" where
  "runnable ep \<longleftrightarrow> (\<exists>lg. reaches (service_step (ep_dur ep)) (NewService lg) (ep_service ep))
     \<and> live_jobs (svc_jobs (ep_service ep)) \<and> svc_calls (ep_service ep) (ep_call ep) = None"

definition caller_of :: "endpoint \<Rightarrow> action \<Rightarrow> agent_id option" where
  "caller_of ep = caller (ep_externals ep) (ep_now ep) (ep_interceptor ep) (ep_peer ep)"

definition refusal_of :: "endpoint \<Rightarrow> string \<Rightarrow> client_sentinel" where
  "refusal_of ep rpc =
     client_class (refusal_code (ep_externals ep) (ep_now ep) (ep_interceptor ep) (ep_peer ep) rpc)"

lemma rpc_answer_refused:
  assumes "Option.bind (actionFor rpc) (caller_of ep) = None"
  shows "\<exists>m. rpc_answer ep rpc request event es =
    Inl (StatusErr (refusal_code (ep_externals ep) (ep_now ep) (ep_interceptor ep) (ep_peer ep) rpc) m)"
  using authorize_none [of rpc "ep_externals ep" "ep_now ep" "ep_interceptor ep" "ep_peer ep"
      "targetJobID request"] assms
  by (auto simp: rpc_answer_def Unary_def intercept_def guard_def caller_of_def)

lemma rpc_answer_handled:
  assumes "Option.bind (actionFor rpc) (caller_of ep) = Some a"
    and "run_events (service_step (ep_dur ep)) (event a # es) (ep_service ep) = Some w'"
  shows "rpc_answer ep rpc request event es = answer_of w' (ep_call ep)"
  using authorize_some [of rpc "ep_externals ep" "ep_now ep" "ep_interceptor ep" "ep_peer ep" a
      "targetJobID request"] assms
  by (simp add: rpc_answer_def Unary_def intercept_def guard_def caller_of_def handle_def del: run_events.simps)

lemma unary_actions:
  "actionFor FizzledService_Start_FullMethodName = Some ActionStart"
  "actionFor FizzledService_GetStatus_FullMethodName = Some ActionGetStatus"
  by (simp_all add: actionFor_def method_names)

lemma Start_answered:
  assumes "service_step dur (OnStart k (Some a) now count) w = Some w'"
  shows "answer_of w' k = snd (snd (Start (svc_logger w) now (Some a) count (sh_store (svc_shop w))))"
proof -
  obtain s' l r where s: "Start (svc_logger w) now (Some a) count (sh_store (svc_shop w)) = (s', l, r)"
    using prod_cases3 by blast
  with assms show ?thesis
    by (cases r) (auto simp: service_step_def answer_def answer_of_def split: if_splits)
qed

lemma runnable_Start:
  "runnable ep \<Longrightarrow> \<exists>w'. service_step (ep_dur ep) (OnStart (ep_call ep) (Some a) (ep_now ep) n) (ep_service ep) = Some w'"
  by (auto simp: runnable_def service_step_def split: prod.split)

lemma runnable_GetStatus:
  "runnable ep \<Longrightarrow> \<exists>w'. service_step (ep_dur ep) (OnGetStatus (ep_call ep) (Some a) jobID) (ep_service ep) = Some w'"
  by (auto simp: runnable_def service_step_def split: prod.split sum.split)

lemma Start_in_range:
  "client_Start code_of c count =
     (if count < min_int32 \<or> max_int32 < count
      then Inl (Wrap1 (''start ['' @ show_int count @ '']: '') (Sentinel (SClient ErrInvalidArgument)))
      else map_sum (errorFrom code_of (''start ['' @ show_int count @ '']'')) id
             (rpc_Start (cl_connection c) (to_int32 count)))"
  by (simp add: client_Start_def Let_def split: sum.split)

section \<open>Calls that wait\<close>

text \<open>The service after the first event of a call and those that follow.\<close>

definition after :: "endpoint \<Rightarrow> service_event \<Rightarrow> service_event list \<Rightarrow> service option" where
  "after ep e es = run_events (service_step (ep_dur ep)) (e # es) (ep_service ep)"

text \<open>What \<open>Stop\<close> answers, and what a stream has given its client: the ticks sent, and its end if it has one.\<close>

definition stop_rpc :: "endpoint \<Rightarrow> job_id \<Rightarrow> nat \<Rightarrow> service_event list \<Rightarrow> wire_status result" where
  "stop_rpc ep jobID i es =
     map_sum id (\<lambda>r. case r of StopResponse ws \<Rightarrow> ws | _ \<Rightarrow> STATUS_UNSPECIFIED)
       (rpc_answer ep FizzledService_Stop_FullMethodName (StopRequest jobID)
          (\<lambda>a. OnStop (ep_call ep) (Some a) jobID i) es)"

definition sent_by :: "service \<Rightarrow> nat \<Rightarrow> wire_tick list" where
  "sent_by w k =
     (case svc_calls w k of
        Some (Streaming a p r sent) \<Rightarrow> sent
      | Some (Answered sent res) \<Rightarrow> sent
      | _ \<Rightarrow> [])"

text \<open>The handler of a stream: an error, or whether it has returned.\<close>

definition handle_stream :: "(int \<Rightarrow> wire_duration) \<Rightarrow> nat \<Rightarrow> job_id \<Rightarrow> nat \<Rightarrow> service_event list
    \<Rightarrow> (service, bool) handler" where
  "handle_stream dur k jobID r es agent w =
     (case run_events (service_step dur) (OnStream k (Some agent) jobID r # es) w of
        None \<Rightarrow> (w, [], Panicked (PanicVal ''no step''))
      | Some w' \<Rightarrow>
          (w', [], Returned
             (case svc_calls w' k of
                Some (Answered sent (Inl e)) \<Rightarrow> Inl e
              | Some (Answered sent (Inr _)) \<Rightarrow> Inr True
              | _ \<Rightarrow> Inr False)))"

definition stream_rpc :: "endpoint \<Rightarrow> job_id \<Rightarrow> nat \<Rightarrow> service_event list \<Rightarrow> wire_tick result list" where
  "stream_rpc ep jobID r es =
     (case Stream (ep_externals ep) (ep_now ep) (ep_stack ep) (ep_interceptor ep) (ep_peer ep)
             FizzledService_StreamOutput_FullMethodName
             (handle_stream (ep_dur ep) (ep_call ep) jobID r es) (ep_service ep) of
        (w', logged, res) \<Rightarrow>
          map Inr (sent_by w' (ep_call ep))
          @ (case res of
               Inl e \<Rightarrow> [Inl e]
             | Inr returned \<Rightarrow> if returned then [Inl (Sentinel (SStd IoEOF))] else []))"

lemma waiting_actions:
  "actionFor FizzledService_Stop_FullMethodName = Some ActionStop"
  "actionFor FizzledService_StreamOutput_FullMethodName = Some ActionStreamOutput"
  by (simp_all add: actionFor_def method_names)

lemma stream_rpc_refused:
  assumes "runnable ep" and "caller_of ep ActionStreamOutput = None"
  shows "\<exists>m. stream_rpc ep jobID r es = [Inl (StatusErr (refusal_code (ep_externals ep) (ep_now ep)
    (ep_interceptor ep) (ep_peer ep) FizzledService_StreamOutput_FullMethodName) m)]"
proof -
  have "Option.bind (actionFor FizzledService_StreamOutput_FullMethodName)
      (caller (ep_externals ep) (ep_now ep) (ep_interceptor ep) (ep_peer ep)) = None"
    using assms(2) by (simp add: waiting_actions caller_of_def)
  from authorize_none [OF this, of "[]"] assms(1) show ?thesis
    by (auto simp: stream_rpc_def Stream_def intercept_def guard_def sent_by_def runnable_def)
qed

lemma stream_rpc_handled:
  assumes "caller_of ep ActionStreamOutput = Some a"
    and "after ep (OnStream (ep_call ep) (Some a) jobID r) es = Some w'"
  shows "stream_rpc ep jobID r es =
    (case svc_calls w' (ep_call ep) of
       Some (Streaming b p q sent) \<Rightarrow> map Inr sent
     | Some (Answered sent (Inl e)) \<Rightarrow> map Inr sent @ [Inl e]
     | Some (Answered sent (Inr _)) \<Rightarrow> map Inr sent @ [Inl (Sentinel (SStd IoEOF))]
     | _ \<Rightarrow> [])"
proof -
  have "Option.bind (actionFor FizzledService_StreamOutput_FullMethodName)
      (caller (ep_externals ep) (ep_now ep) (ep_interceptor ep) (ep_peer ep)) = Some a"
    using assms(1) by (simp add: waiting_actions caller_of_def)
  from authorize_some [OF this, of "[]"] assms(2) show ?thesis
    by (simp add: stream_rpc_def Stream_def intercept_def guard_def handle_stream_def sent_by_def after_def
        del: run_events.simps split: option.split call.split sum.split)
qed

text \<open>What follows the first event of a call on a job that is the agent's, or on none.\<close>

lemma answer_run_kept:
  "run_events (service_step dur) es w = Some w' \<Longrightarrow> svc_calls w k = Some (Answered sent res)
     \<Longrightarrow> svc_calls w' k = Some (Answered sent res)"
proof (induction es arbitrary: w)
  case (Cons e es)
  then obtain w1 where w1: "service_step dur e w = Some w1" "run_events (service_step dur) es w1 = Some w'"
    by (auto split: option.splits)
  then have "call_step dur e w = Some w1" by (simp add: service_step_def split: if_splits)
  from Cons.IH [OF w1(2) answer_kept [OF this Cons.prems(2)]] show ?case .
qed simp

lemma run_moves_job:
  assumes "svc_inv dur w" and "run_events (service_step dur) es w = Some w'"
    and "bd_jobs (abs_service w) key = Some x"
  shows "\<exists>y. bd_jobs (abs_service w') key = Some y \<and> spec_step\<^sup>*\<^sup>* x y"
proof -
  have "reaches (service_step dur) w w'" using assms(2) reaches_iff_run by metis
  from board_runs_job [OF board.reaches_refines [OF this assms(1)] assms(3)] show ?thesis .
qed

lemma board_found:
  "bd_jobs (abs_service w) (a, jobID) = (case Find a jobID (svc_registry w) of
     None \<Rightarrow> None | Some p \<Rightarrow> Some (abs_job (svc_jobs w ! p)))"
  by (simp add: abs_service_def abs_shop_def split: option.split)

lemma after_obtains:
  assumes "runnable ep" and "after ep e es = Some w'"
  obtains w1 where "svc_inv (ep_dur ep) (ep_service ep)" "call_step (ep_dur ep) e (ep_service ep) = Some w1"
    "svc_inv (ep_dur ep) w1" "run_events (service_step (ep_dur ep)) es w1 = Some w'"
proof -
  have inv: "svc_inv (ep_dur ep) (ep_service ep)" using assms(1) reachable_service by (auto simp: runnable_def)
  obtain w1 where "service_step (ep_dur ep) e (ep_service ep) = Some w1"
    "run_events (service_step (ep_dur ep)) es w1 = Some w'"
    using assms(2) by (auto simp: after_def split: option.splits)
  with inv service.step_keeps [OF inv] that show ?thesis by (simp add: service_step_def split: if_splits)
qed

lemma after_inv:
  assumes "runnable ep" and "after ep e es = Some w'"
  shows "svc_inv (ep_dur ep) w'"
  by (rule after_obtains [OF assms]) (rule service.run_keeps)

lemma over_status: "bd_jobs (abs_service w) key = Some (Over st ts) \<Longrightarrow> st \<noteq> StatusRunning"
  by (cases key) (auto simp: board_found abs_job_def split: option.splits if_splits)

lemma over_forever:
  assumes "reaches (service_step dur) w w'" and "svc_inv dur w" and "bd_jobs (abs_service w) key = Some (Over st ts)"
  shows "bd_jobs (abs_service w') key = Some (Over st ts)"
  using assms(1)
proof (induction rule: reaches.induct)
  case (reaches_step w1 e w2)
  from over_kept [OF service.reaches_keeps [OF reaches_step.hyps(1) assms(2)] reaches_step.hyps(2) reaches_step.IH]
  show ?case .
qed (rule assms(3))

lemma Stop_comes:
  assumes run: "runnable ep" and es: "after ep (OnStop (ep_call ep) (Some a) jobID i) es = Some w'"
  shows "case bd_jobs (abs_service (ep_service ep)) (a, jobID) of
      None \<Rightarrow> svc_calls w' (ep_call ep) = Some (Answered [] (Inl (StatusErr CodeNotFound ''job not found'')))
    | Some x \<Rightarrow> stop_course (ep_call ep) a jobID w'
        \<and> (\<exists>y. bd_jobs (abs_service w') (a, jobID) = Some y \<and> spec_step\<^sup>*\<^sup>* x y)"
  using run es
proof (rule after_obtains)
  fix w1
  let ?w = "ep_service ep" and ?k = "ep_call ep"
  assume inv: "svc_inv (ep_dur ep) ?w" and step: "call_step (ep_dur ep) (OnStop ?k (Some a) jobID i) ?w = Some w1"
    and inv1: "svc_inv (ep_dur ep) w1" and es: "run_events (service_step (ep_dur ep)) es w1 = Some w'"
  show ?thesis
  proof (cases "Find a jobID (svc_registry ?w)")
    case None
    with step have "svc_calls w1 ?k = Some (Answered [] (Inl (StatusErr CodeNotFound ''job not found'')))"
      by (auto simp: findJob_def service_agentID_def split: if_splits)
    from answer_run_kept [OF es this] None show ?thesis by (simp add: board_found)
  next
    case (Some p)
    with step have "svc_calls w1 ?k = Some (Stopping p i)"
      by (auto simp: findJob_def service_agentID_def simp del: shop_move.simps split: if_splits)
    with found_kept [OF inv step Some] have "stop_course ?k a jobID w1" by (auto simp: stop_course_def)
    with stopping.run_keeps [OF es] inv1 have "stop_course ?k a jobID w'" by blast
    moreover have "service_step (ep_dur ep) (OnStop ?k (Some a) jobID i) ?w = Some w1"
      using step run by (simp add: runnable_def service_step_def)
    then have "run_events (service_step (ep_dur ep)) (OnStop ?k (Some a) jobID i # es) ?w = Some w'" using es by simp
    note run_moves_job [OF inv this board_of_found [OF Some]]
    ultimately show ?thesis by (simp add: board_of_found [OF Some])
  qed
qed

lemma Stream_comes:
  assumes run: "runnable ep" and es: "after ep (OnStream (ep_call ep) (Some a) jobID r) es = Some w'"
    and uncut: "list_all (uncut (ep_call ep)) es"
  shows "case bd_jobs (abs_service (ep_service ep)) (a, jobID) of
      None \<Rightarrow> svc_calls w' (ep_call ep) = Some (Answered [] (Inl (StatusErr CodeNotFound ''job not found'')))
    | Some x \<Rightarrow> stream_course (ep_dur ep) (ep_call ep) a jobID w'
        \<and> (\<exists>y. bd_jobs (abs_service w') (a, jobID) = Some y \<and> spec_step\<^sup>*\<^sup>* x y)"
  using run es
proof (rule after_obtains)
  fix w1
  let ?w = "ep_service ep" and ?k = "ep_call ep" and ?dur = "ep_dur ep"
  assume inv: "svc_inv ?dur ?w" and step: "call_step ?dur (OnStream ?k (Some a) jobID r) ?w = Some w1"
    and inv1: "svc_inv ?dur w1" and es: "run_events (service_step ?dur) es w1 = Some w'"
  show ?thesis
  proof (cases "Find a jobID (svc_registry ?w)")
    case None
    with step have "svc_calls w1 ?k = Some (Answered [] (Inl (StatusErr CodeNotFound ''job not found'')))"
      by (auto simp: findJob_def service_agentID_def split: if_splits)
    from answer_run_kept [OF es this] None show ?thesis by (simp add: board_found)
  next
    case (Some p)
    with step have c: "svc_calls w1 ?k = Some (Streaming a p r [])"
      and m: "shop_move (EvJob p (OpenReader r)) (svc_shop ?w) = Some (svc_shop w1)"
      by (auto simp: findJob_def service_agentID_def simp del: shop_move.simps split: if_splits)
    have "js_readers (sh_jobs s ! p) r = Some new_reader"
      if "shop_move (EvJob p (OpenReader r)) (svc_shop ?w) = Some s" for s
      using that by (auto simp: job_step_def set_job_def split: if_splits option.splits)
    from this [OF m] have "js_readers (svc_jobs w1 ! p) r = Some new_reader" .
    with c found_kept [OF inv step Some] have "stream_course ?dur ?k a jobID w1"
      by (auto simp: stream_course_def new_reader_def)
    with streaming.run_keeps [OF es [folded uncut_run [OF uncut]]] inv1 have "stream_course ?dur ?k a jobID w'"
      by blast
    moreover have "service_step ?dur (OnStream ?k (Some a) jobID r) ?w = Some w1"
      using step run by (simp add: runnable_def service_step_def)
    then have "run_events (service_step ?dur) (OnStream ?k (Some a) jobID r # es) ?w = Some w'" using es by simp
    note run_moves_job [OF inv this board_of_found [OF Some]]
    ultimately show ?thesis by (simp add: board_of_found [OF Some])
  qed
qed

text \<open>What \<open>outputs\<close> makes of a stream whose ticks can all be encoded.\<close>

lemma ticks_then:
  assumes "\<forall>t\<in>set ts. is_ok (tickJSON json t)"
  shows "stream_items code_of json operation (map Inr ts @ rest) =
      map Inr (lines_of (map (tickJSON json) ts)) @ stream_items code_of json operation rest"
    and "stream_over code_of json operation (map Inr ts @ rest) = stream_over code_of json operation rest"
  using assms
  by (induction ts) (auto simp: is_ok_conv stream_over_def stream_item_def)

lemma lines_of_Inr [simp]: "lines_of (map Inr ls @ items) = ls @ lines_of items"
  by (induction ls) simp_all

lemma filter_failures [simp]: "filter (\<lambda>i. \<not> is_ok i) (map Inr ls) = []"
  by (induction ls) simp_all

lemma outputs_of_stream:
  assumes "takes_all (env_stdout env)" and "\<forall>t\<in>set ts. is_ok (tickJSON (env_json env) t)"
    and "rpc_StreamOutput (cl_connection c) jobID = Inr (map Inr ts @ rest)"
  shows "rest = [] \<Longrightarrow> execute_command env c (outputsCommand jobID) [] = None"
    and "rest = [Inl e] \<Longrightarrow> execute_command env c (outputsCommand jobID) [] =
      Some (text_of (lines_of (map (tickJSON (env_json env)) ts)),
        if errors_is e (SStd IoEOF) then Inr ()
        else Inl (Wrap1 (''outputs ['' @ jobID @ '']: '')
               (errorFrom (env_code_of env) (''stream output ['' @ jobID @ '']'') e)))"
  using assms(3) ticks_then [OF assms(2), where rest = rest]
  by (simp_all add: client_StreamOutput_def print_stream [OF assms(1)]
      stream_over_def stream_item_def Let_def)

lemma encoded_lines:
  assumes "rejects_controls json"
  shows "split_on (CHR 0x0A) (text_of (lines_of (map (tickJSON json) ts))) = lines_of (map (tickJSON json) ts) @ [[]]"
proof (rule split_text_of)
  have "\<exists>tick. tickJSON json tick = Inr l" if "l \<in> set (lines_of (map (tickJSON json) ts))" for l
    using that by (auto simp: lines_of_def split: sum.splits)
  with tickJSON_one_line [OF assms] show "\<forall>l\<in>set (lines_of (map (tickJSON json) ts)). CHR 0x0A \<notin> set l"
    by blast
qed

lemma lines_of_ticks:
  "\<forall>t\<in>set ts. is_ok (tickJSON json t) \<Longrightarrow> lines_of (map (tickJSON json) ts) = map (\<lambda>t. projr (tickJSON json t)) ts"
  by (induction ts) (auto simp: is_ok_conv)

text \<open>A \<open>Stop\<close> that is answered and a stream that is closed, as the client and the command see them.\<close>

lemma client_Stop_answered:
  assumes "caller_of ep ActionStop = Some a" and "after ep (OnStop (ep_call ep) (Some a) jobID i) es = Some w'"
    and "svc_calls w' (ep_call ep) = Some (Answered [] (Inr (Some (StopResponse (wire_of st)))))"
    and "st \<noteq> StatusRunning" and "rpc_Stop (cl_connection c) jobID = stop_rpc ep jobID i es"
  shows "client_Stop code_of c jobID = Inr st"
proof -
  have "Option.bind (actionFor FizzledService_Stop_FullMethodName) (caller_of ep) = Some a"
    using assms(1) by (simp add: waiting_actions)
  from rpc_answer_handled [OF this, where event = "\<lambda>a. OnStop (ep_call ep) (Some a) jobID i" and es = es] assms(2)
  have "rpc_Stop (cl_connection c) jobID = map_sum id
      (\<lambda>r. case r of StopResponse ws \<Rightarrow> ws | _ \<Rightarrow> STATUS_UNSPECIFIED) (answer_of w' (ep_call ep))"
    by (simp add: assms(5) stop_rpc_def after_def del: run_events.simps)
  with assms(3,4) show ?thesis
    by (cases st) (simp_all add: client_Stop_def answer_of_def statusFrom_def Let_def)
qed

lemma outputs_closed:
  assumes "takes_all (env_stdout env)" and "rejects_controls (env_json env)"
    and "\<forall>t. is_ok (tickJSON (env_json env) (sent_tick (ep_dur ep) t))"
    and "caller_of ep ActionStreamOutput = Some a"
    and "after ep (OnStream (ep_call ep) (Some a) jobID i) es = Some w'"
    and "svc_calls w' (ep_call ep) = Some (Answered (map (sent_tick (ep_dur ep)) ts) (Inr None))"
    and "rpc_StreamOutput (cl_connection c) jobID = Inr (stream_rpc ep jobID i es)"
  shows "\<exists>out. execute_command env c (outputsCommand jobID) [] = Some (out, Inr ())
    \<and> split_on (CHR 0x0A) out = map (\<lambda>t. projr (tickJSON (env_json env) (sent_tick (ep_dur ep) t))) ts @ [[]]"
proof -
  let ?json = "env_json env" and ?ts = "map (sent_tick (ep_dur ep)) ts"
  have ok: "\<forall>t\<in>set ?ts. is_ok (tickJSON ?json t)" using assms(3) by auto
  have "rpc_StreamOutput (cl_connection c) jobID = Inr (map Inr ?ts @ [Inl (Sentinel (SStd IoEOF))])"
    using assms(6,7) stream_rpc_handled [OF assms(4,5)] by simp
  from outputs_of_stream(2) [OF assms(1) ok this]
  have "execute_command env c (outputsCommand jobID) [] =
      Some (text_of (lines_of (map (tickJSON ?json) ?ts)), Inr ())" by simp
  with encoded_lines [OF assms(2), of ?ts] lines_of_ticks [OF ok]
  show ?thesis by (auto simp: o_def simp del: execute_command.simps split_on.simps)
qed

section \<open>How a start ends\<close>

text \<open>A failure that is of one class of the client's, and no request for help or mistake of usage.\<close>

definition rpc_failure :: "'a result \<Rightarrow> client_sentinel \<Rightarrow> bool" where
  "rpc_failure r s \<longleftrightarrow>
     (case r of
        Inl e \<Rightarrow> plain_failure e \<and> (\<forall>t. errors_is e (SClient t) \<longleftrightarrow> t = s)
      | Inr a \<Rightarrow> False)"

lemma rpc_failure_fails: "rpc_failure r s \<Longrightarrow> fails_with r (SClient s)"
  by (auto simp: rpc_failure_def split: sum.splits)

lemma rpc_failure_status [simp]:
  "rpc_failure (Inl (errorFrom code_of operation (StatusErr code m))) s \<longleftrightarrow> s = client_class (code_of (StatusErr code m))"
  "rpc_failure (Inl (Wrap1 p (Sentinel (SClient t)))) s \<longleftrightarrow> s = t"
  "\<not> rpc_failure (Inr a) s"
  by (auto simp: rpc_failure_def plain_failure_def errorFrom_def)

lemma client_Start_outcome:
  assumes "runnable ep" and "connected ep c" and "status_codes code_of"
  shows "let r = client_Start code_of c count; w = ep_service ep in
    if count < min_int32 \<or> max_int32 < count then rpc_failure r ErrInvalidArgument
    else case caller_of ep ActionStart of
      None \<Rightarrow> rpc_failure r (refusal_of ep FizzledService_Start_FullMethodName)
    | Some a \<Rightarrow>
        if \<not> bd_open (abs_service w) then rpc_failure r ErrUnavailable
        else if count < 1 \<or> 100 < count then rpc_failure r ErrInvalidArgument
        else (\<exists>jobID w'. r = Inr jobID
               \<and> service_step (ep_dur ep) (OnStart (ep_call ep) (Some a) (ep_now ep) (to_int32 count)) w = Some w'
               \<and> (\<forall>b. bd_jobs (abs_service w') (b, jobID) = (if b = a then Some (Live count []) else None)))"
proof (cases "count < min_int32 \<or> max_int32 < count")
  case True
  then show ?thesis by (auto simp: Start_in_range Let_def)
next
  case False
  let ?w = "ep_service ep" and ?n = "to_int32 count"
  have n: "of_int32 ?n = count" using False by (simp add: of_to_int32)
  have r: "client_Start code_of c count = map_sum (errorFrom code_of (''start ['' @ show_int count @ '']''))
      (\<lambda>r. case r of StartResponse jobID \<Rightarrow> jobID | _ \<Rightarrow> [])
      (rpc_answer ep FizzledService_Start_FullMethodName (StartRequest ?n)
         (\<lambda>a. OnStart (ep_call ep) (Some a) (ep_now ep) ?n) [])"
    using assms(2) False by (simp add: Start_in_range connected_def sum.map_comp o_def)
  show ?thesis
  proof (cases "caller_of ep ActionStart")
    case None
    then have "Option.bind (actionFor FizzledService_Start_FullMethodName) (caller_of ep) = None"
      by (simp add: unary_actions)
    from rpc_answer_refused [OF this, of "StartRequest ?n" "\<lambda>a. OnStart (ep_call ep) (Some a) (ep_now ep) ?n" "[]"]
    obtain m where "rpc_answer ep FizzledService_Start_FullMethodName (StartRequest ?n)
        (\<lambda>a. OnStart (ep_call ep) (Some a) (ep_now ep) ?n) [] =
      Inl (StatusErr (refusal_code (ep_externals ep) (ep_now ep) (ep_interceptor ep) (ep_peer ep)
        FizzledService_Start_FullMethodName) m)" by blast
    with None False assms(3) show ?thesis
      by (auto simp: r status_codes_def refusal_of_def Let_def)
  next
    case (Some a)
    obtain w' where w': "service_step (ep_dur ep) (OnStart (ep_call ep) (Some a) (ep_now ep) ?n) ?w = Some w'"
      using runnable_Start [OF assms(1)] by blast
    obtain lg where reach: "reaches (service_step (ep_dur ep)) (NewService lg) ?w"
      using assms(1) by (auto simp: runnable_def)
    have "Option.bind (actionFor FizzledService_Start_FullMethodName) (caller_of ep) = Some a"
      using Some by (simp add: unary_actions)
    from rpc_answer_handled [OF this, where event = "\<lambda>a. OnStart (ep_call ep) (Some a) (ep_now ep) ?n" and es = "[]"] w'
    have ans: "rpc_answer ep FizzledService_Start_FullMethodName (StartRequest ?n)
        (\<lambda>a. OnStart (ep_call ep) (Some a) (ep_now ep) ?n) [] = answer_of w' (ep_call ep)" by simp
    have acc: "bd_open (abs_service ?w) = reg_isAcceptingJobs (svc_registry ?w)"
      by (simp add: abs_service_def abs_shop_def)
    note table = Start_table [OF reach, where now = "ep_now ep" and ctx = "Some a" and count = ?n, unfolded n]
    note moves = Start_moves_board [OF reachable_service [OF reach] w', unfolded n]
    show ?thesis
      using table moves Start_answered [OF w'] Some False assms(3) w'
      by (auto simp: r ans acc status_codes_def client_class_def Let_def answer_of_def split: prod.splits if_splits)
  qed
qed

section \<open>Parameters to look at\<close>

text \<open>The sample agent's connection to a new service, for the witnesses.\<close>

definition sample_endpoint :: endpoint where
  "sample_endpoint =
     \<lparr>ep_externals = sample_externals, ep_now = 10, ep_stack = [],
      ep_interceptor =
        \<lparr>ic_authenticator = sample_auth discard_logger,
         ic_authorizer = \<lparr>roles = [(''smith'', RoleUser)]\<rparr>, ic_logger = discard_logger\<rparr>,
      ep_peer = Some (TLSInfo \<lparr>PeerCertificates = [Some (sample_leaf (agent_uri ''smith''))]\<rparr>),
      ep_dur = sample_dur, ep_call = 0, ep_service = NewService None\<rparr>"

definition wired :: "endpoint \<Rightarrow> client" where
  "wired ep =
     \<lparr>cl_connection =
        \<lparr>conn_Close = None,
         rpc_Start = (\<lambda>n. map_sum id (\<lambda>r. case r of StartResponse jobID \<Rightarrow> jobID | _ \<Rightarrow> [])
          (rpc_answer ep FizzledService_Start_FullMethodName (StartRequest n)
             (\<lambda>a. OnStart (ep_call ep) (Some a) (ep_now ep) n) [])),
         rpc_Stop = (\<lambda>j. Inr STATUS_STOPPED),
         rpc_GetStatus = (\<lambda>j. map_sum id (\<lambda>r. case r of GetStatusResponse ws \<Rightarrow> ws | _ \<Rightarrow> STATUS_UNSPECIFIED)
          (rpc_answer ep FizzledService_GetStatus_FullMethodName (GetStatusRequest j)
             (\<lambda>a. OnGetStatus (ep_call ep) (Some a) j) [])),
         rpc_StreamOutput = (\<lambda>j. Inr [])\<rparr>\<rparr>"

lemma wired_connected: "connected ep (wired ep)"
  by (simp add: connected_def wired_def)

definition plain_code :: "go_error \<Rightarrow> grpc_code" where
  "plain_code e = (case e of StatusErr c m \<Rightarrow> c | _ \<Rightarrow> CodeUnknown)"

lemma plain_code_ok: "status_codes plain_code"
  by (simp add: status_codes_def plain_code_def)

lemma sample_endpoint_runnable: "runnable sample_endpoint"
  by (auto simp: runnable_def sample_endpoint_def NewService_def open_shop_def New_registry_def
      live_jobs_def intro: reaches_start)

lemma sample_endpoint_caller:
  "caller_of sample_endpoint ActionStart = Some ''smith''"
  "caller_of sample_endpoint ActionGetStatus = Some ''smith''"
  by code_simp+

lemma sample_endpoint_board: "abs_service (ep_service sample_endpoint) = empty_board"
  by (simp add: sample_endpoint_def abs_NewService)

text \<open>
  The sample agent's job of one count, on a new service; what goes on after it asks for the ticks, up to
  the end of the stream; and after it asks for a stop, up to the answer.
\<close>

definition job_endpoint :: endpoint where
  "job_endpoint = sample_endpoint\<lparr>ep_call := 1,
     ep_service := the (service_step sample_dur (OnStart 0 (Some ''smith'') 0 1) (NewService None))\<rparr>"

definition sample_stream :: "service_event list" where
  "sample_stream =
     [OnShop (EvJob 0 (Worker EvReport)), OnRead 1 RdSnapshot, OnSend 1 None,
      OnShop (EvJob 0 (Worker (EvDraw 0))), OnShop (EvJob 0 (Worker EvTimer)),
      OnShop (EvJob 0 (Worker EvFinish)), OnRead 1 RdBatchEnd, OnRead 1 RdSnapshot, OnSend 1 None,
      OnStreamEnd 1]"

definition sample_stop :: "service_event list" where
  "sample_stop =
     [OnShop (EvJob 0 (Worker EvReport)), OnShop (EvJob 0 (Worker (EvDraw 0))),
      OnShop (EvJob 0 (Worker EvCancelled)), OnShop (EvJob 0 (Worker EvFinish)),
      OnShop (EvJob 0 (Worker EvAudit)), OnShop (EvJob 0 (Worker EvCloseFinished)),
      OnShop (EvJob 0 (StepStop 0)), OnShop (EvJob 0 (StepStop 0)), OnStopAnswer 1]"

lemma job_endpoint_service:
  "service_step sample_dur (OnStart 0 (Some ''smith'') 0 1) (NewService None) = Some (ep_service job_endpoint)"
  by (simp add: job_endpoint_def service_evals)

lemma job_endpoint_runnable: "runnable job_endpoint"
proof -
  have "reaches (service_step (ep_dur job_endpoint)) (NewService None) (ep_service job_endpoint)"
    by (rule reaches_step [where step = "service_step (ep_dur job_endpoint)", OF reaches_start])
       (use job_endpoint_service in \<open>simp add: job_endpoint_def sample_endpoint_def\<close>)
  moreover have "live_jobs (svc_jobs (ep_service job_endpoint))"
    "svc_calls (ep_service job_endpoint) (ep_call job_endpoint) = None"
    by (simp_all add: job_endpoint_def service_evals)
  ultimately show ?thesis unfolding runnable_def by blast
qed

lemma job_endpoint_caller:
  "caller_of job_endpoint ActionStop = Some ''smith''" "caller_of job_endpoint ActionStreamOutput = Some ''smith''"
proof -
  have "caller_of job_endpoint act = caller_of sample_endpoint act" for act
    by (simp add: caller_of_def job_endpoint_def)
  moreover have "caller_of sample_endpoint ActionStop = Some ''smith''"
    "caller_of sample_endpoint ActionStreamOutput = Some ''smith''" by code_simp+
  ultimately show "caller_of job_endpoint ActionStop = Some ''smith''"
    "caller_of job_endpoint ActionStreamOutput = Some ''smith''" by simp_all
qed

lemma job_endpoint_board:
  "bd_jobs (abs_service (ep_service job_endpoint)) (''smith'', ''smith/0'') = Some (Live 1 [])"
  by (simp add: board_found job_endpoint_def abs_job_def service_evals)

lemma job_endpoint_runs:
  "\<exists>w. after job_endpoint (OnStream 1 (Some ''smith'') ''smith/0'' 0) sample_stream = Some w
     \<and> svc_calls w 1 = Some (Answered [Some (Tick_Progress \<lparr>wire_seconds = 0, wire_nanos = 0\<rparr> 1),
         Some (Tick_Progress \<lparr>wire_seconds = 0, wire_nanos = 0\<rparr> 0)] (Inr None))"
  "\<exists>w. after job_endpoint (OnStop 1 (Some ''smith'') ''smith/0'' 0) sample_stop = Some w
     \<and> svc_calls w 1 = Some (Answered [] (Inr (Some (StopResponse STATUS_STOPPED))))"
  by (simp_all add: after_def job_endpoint_def sample_endpoint_def sample_stream_def sample_stop_def
      service_evals sample_dur_def to_int32_def)

text \<open>A client whose calls that wait are looked at after the given runs.\<close>

definition waiting :: "endpoint \<Rightarrow> service_event list \<Rightarrow> client" where
  "waiting ep es =
     \<lparr>cl_connection = (cl_connection (wired ep))
        \<lparr>rpc_Stop := \<lambda>j. stop_rpc ep j 0 es, rpc_StreamOutput := \<lambda>j. Inr (stream_rpc ep j 0 es)\<rparr>\<rparr>"

lemma waiting_rpcs [simp]:
  "rpc_Stop (cl_connection (waiting ep es)) j = stop_rpc ep j 0 es"
  "rpc_StreamOutput (cl_connection (waiting ep es)) j = Inr (stream_rpc ep j 0 es)"
  by (simp_all add: waiting_def)

lemma job_endpoint_call [simp]: "ep_call job_endpoint = 1" "ep_dur job_endpoint = sample_dur"
  by (simp_all add: job_endpoint_def sample_endpoint_def)

lemma sample_env_encodes: "is_ok (tickJSON (env_json sample_env) t)"
  by (simp add: sample_env_def tickJSON_def json_Compact_def json_next_def)

end
