(* ===== verification/Fair_Endpoint.thy ===== *)
theory Fair_Endpoint
  imports Endpoint Fair_Service
begin

text \<open>
  The calls that wait, in a fair run of the service: a client that stops a job or follows its ticks, in
  front of a service that goes on for ever with whatever else it has to do. Both calls return, and what
  they have returned does not depend on how long one waits to look.
\<close>

section \<open>Calls in a run\<close>

text \<open>At instant \<open>n\<close> of a fair run the endpoint's call, which is new, reaches its handler as event \<open>e\<close>.\<close>

definition calls_at :: "endpoint \<Rightarrow> (nat \<Rightarrow> service) \<Rightarrow> (nat \<Rightarrow> service_event option) \<Rightarrow> nat \<Rightarrow> service_event \<Rightarrow> bool" where
  "calls_at ep \<sigma> ev n e \<longleftrightarrow>
     fair_service (ep_dur ep) \<sigma> ev \<and> (\<exists>lg. \<sigma> 0 = NewService lg) \<and> \<sigma> n = ep_service ep
     \<and> svc_calls (\<sigma> n) (ep_call ep) = None \<and> ev n = Some e"

lemma calls_at_runnable:
  assumes "calls_at ep \<sigma> ev n e"
  shows "runnable ep"
proof -
  have fair: "fair_service (ep_dur ep) \<sigma> ev" using assms by (simp add: calls_at_def)
  from follows_reaches [OF fair_serviceD(1) [OF fair], of n] fair_serviceD(2) [OF fair, of n] assms
  show ?thesis unfolding calls_at_def runnable_def by metis
qed

lemma calls_at_after:
  assumes "calls_at ep \<sigma> ev n e" and "n < m"
  shows "after ep e (taken ev (Suc n) m) = Some (\<sigma> m)"
proof -
  have run: "follows (service_step (ep_dur ep)) \<sigma> ev" using assms(1) fair_serviceD(1) by (auto simp: calls_at_def)
  have "service_step (ep_dur ep) e (ep_service ep) = Some (\<sigma> (Suc n))"
    using follows_step [OF run, of n] assms(1) by (simp add: calls_at_def)
  moreover have "run_events (service_step (ep_dur ep)) (taken ev (Suc n) m) (\<sigma> (Suc n)) = Some (\<sigma> m)"
    by (rule taken_run [OF run]) (use assms(2) in simp)
  ultimately show ?thesis by (simp add: after_def)
qed

text \<open>The call is answered, and from then on for good.\<close>

lemma calls_at_answered:
  assumes "calls_at ep \<sigma> ev n e" and "svc_calls (\<sigma> (Suc n)) (ep_call ep) \<noteq> None"
  shows "\<exists>m>n. \<exists>sent res. \<forall>l\<ge>m. svc_calls (\<sigma> l) (ep_call ep) = Some (Answered sent res)"
proof -
  have fair: "fair_service (ep_dur ep) \<sigma> ev" using assms(1) by (simp add: calls_at_def)
  note run = fair_serviceD(1) [OF fair]
  have "svc_inv (ep_dur ep) (\<sigma> 0)" using assms(1) NewService_inv by (auto simp: calls_at_def)
  then have "svc_inv (ep_dur ep) (\<sigma> (Suc n))" using service.reaches_keeps [OF follows_reaches [OF run]] by blast
  then obtain m sent res where "m \<ge> Suc n" and m: "svc_calls (\<sigma> m) (ep_call ep) = Some (Answered sent res)"
    using call_is_answered [OF fair_service_from [OF fair, of "Suc n"]] assms(2)
    unfolding call_answered_def by (metis add.right_neutral le_add1 not_None_eq)
  have "svc_calls (\<sigma> l) (ep_call ep) = Some (Answered sent res)" if "l \<ge> m" for l
    by (rule follows_stable [OF run that, where P = "\<lambda>w. svc_calls w (ep_call ep) = Some (Answered sent res)"])
       (use m answer_kept in \<open>auto simp: service_step_def split: if_splits\<close>)
  with \<open>m \<ge> Suc n\<close> show ?thesis by (meson Suc_le_eq)
qed

lemma over_later:
  assumes "calls_at ep \<sigma> ev n e" and "n < m" and "m \<le> l"
    and "bd_jobs (abs_service (\<sigma> m)) key = Some (Over st ts)"
  shows "bd_jobs (abs_service (\<sigma> l)) key = Some (Over st ts)"
proof -
  have "follows (service_step (ep_dur ep)) \<sigma> ev" using assms(1) fair_serviceD(1) by (auto simp: calls_at_def)
  then have "reaches (service_step (ep_dur ep)) (\<sigma> m) (\<sigma> l)"
    using taken_run [OF _ assms(3)] reaches_iff_run by metis
  from over_forever [OF this after_inv [OF calls_at_runnable [OF assms(1)] calls_at_after [OF assms(1,2)]] assms(4)]
  show ?thesis .
qed

lemma call_made:
  assumes "call_step dur e w = Some w'" and "e = OnStop k ctx jobID i \<or> e = OnStream k ctx jobID i"
  shows "svc_calls w' k \<noteq> None"
  using assms by (auto simp: answer_def split: if_splits prod.splits sum.splits)

lemma first_step:
  assumes "calls_at ep \<sigma> ev n e"
  shows "call_step (ep_dur ep) e (ep_service ep) = Some (\<sigma> (Suc n))"
  using calls_at_after [OF assms, of "Suc n"] by (auto simp: after_def taken_def service_step_def split: option.splits if_splits)

section \<open>A fair run to look at\<close>

text \<open>The agent of the fair run \<open>answered_at\<close>, whose stream is its event 1 and whose \<open>Stop\<close> its event 14.\<close>

definition ann_endpoint :: "nat \<Rightarrow> nat \<Rightarrow> endpoint" where
  "ann_endpoint k n = sample_endpoint\<lparr>
     ep_interceptor := (ep_interceptor sample_endpoint)\<lparr>ic_authorizer := \<lparr>roles = [(''ann'', RoleUser)]\<rparr>\<rparr>,
     ep_peer := Some (TLSInfo \<lparr>PeerCertificates = [Some (sample_leaf (agent_uri ''ann''))]\<rparr>),
     ep_call := k, ep_service := answered_at n\<rparr>"

lemma ann_endpoint_fields [simp]:
  "ep_dur (ann_endpoint k n) = sample_dur" "ep_call (ann_endpoint k n) = k" "ep_service (ann_endpoint k n) = answered_at n"
  by (simp_all add: ann_endpoint_def sample_endpoint_def)

lemma ann_caller:
  "caller_of (ann_endpoint k n) ActionStop = Some ''ann''"
  "caller_of (ann_endpoint k n) ActionStreamOutput = Some ''ann''"
proof -
  let ?ep = "sample_endpoint\<lparr>
     ep_interceptor := (ep_interceptor sample_endpoint)\<lparr>ic_authorizer := \<lparr>roles = [(''ann'', RoleUser)]\<rparr>\<rparr>,
     ep_peer := Some (TLSInfo \<lparr>PeerCertificates = [Some (sample_leaf (agent_uri ''ann''))]\<rparr>)\<rparr>"
  have "caller_of (ann_endpoint k n) act = caller_of ?ep act" for act
    by (simp add: caller_of_def ann_endpoint_def)
  moreover have "caller_of ?ep ActionStop = Some ''ann''" "caller_of ?ep ActionStreamOutput = Some ''ann''" by code_simp+
  ultimately show "caller_of (ann_endpoint k n) ActionStop = Some ''ann''"
    "caller_of (ann_endpoint k n) ActionStreamOutput = Some ''ann''" by simp_all
qed

lemma ann_calls:
  "calls_at (ann_endpoint 1 1) answered_at answered_event_at 1 (OnStream 1 (Some ''ann'') ''ann/0'' 0)"
  "calls_at (ann_endpoint 2 14) answered_at answered_event_at 14 (OnStop 2 (Some ''ann'') ''ann/0'' 0)"
proof -
  have "answered_at 0 = NewService None" "svc_calls (answered_at 1) 1 = None" "svc_calls (answered_at 14) 2 = None"
    "answered_event_at 1 = Some (OnStream 1 (Some ''ann'') ''ann/0'' 0)"
    "answered_event_at 14 = Some (OnStop 2 (Some ''ann'') ''ann/0'' 0)"
    by (simp_all add: run_then_def events_then_def answered_calls_def sample_calls_def service_evals)
  then show "calls_at (ann_endpoint 1 1) answered_at answered_event_at 1 (OnStream 1 (Some ''ann'') ''ann/0'' 0)"
    "calls_at (ann_endpoint 2 14) answered_at answered_event_at 14 (OnStop 2 (Some ''ann'') ''ann/0'' 0)"
    using answered_is_fair unfolding calls_at_def ann_endpoint_fields by blast+
qed

lemma ann_board:
  "bd_jobs (abs_service (answered_at 1)) (''ann'', ''ann/0'') = Some (Live 1 [])"
  "\<exists>x. bd_jobs (abs_service (answered_at 14)) (''ann'', ''ann/0'') = Some x"
  by (simp_all add: board_found abs_job_def run_then_def answered_calls_def sample_calls_def service_evals)

lemma ann_uncut: "answered_event_at m = Some e \<Longrightarrow> uncut 1 e"
proof -
  have "list_all (uncut 1) answered_calls" by (simp add: answered_calls_def sample_calls_def)
  then show "answered_event_at m = Some e \<Longrightarrow> uncut 1 e"
    by (auto simp: events_then_def list_all_length split: if_splits)
qed

section \<open>Properties\<close>

text \<open>
  C7. A client's \<open>Stop\<close> returns, from one end to the other, in every fair run of the service. Once the
  call of an agent has reached the service, for a job the agent has, there is an instant from which on the
  client has the status the job ended in, which is final on the board; and \<open>fizzle stop\<close> has
  succeeded without a word.
\<close>

theorem fair_client_Stop_returns:
  assumes "calls_at ep \<sigma> ev n (OnStop (ep_call ep) (Some a) jobID i)"
    and "caller_of ep ActionStop = Some a"
    and "bd_jobs (abs_service (ep_service ep)) (a, jobID) = Some x"
  shows "\<exists>m>n. \<exists>st ts. st \<noteq> StatusRunning \<and> spec_step\<^sup>*\<^sup>* x (Over st ts)
    \<and> (\<forall>l\<ge>m. bd_jobs (abs_service (\<sigma> l)) (a, jobID) = Some (Over st ts)
        \<and> (\<forall>c. rpc_Stop (cl_connection c) jobID = stop_rpc ep jobID i (taken ev (Suc n) l) \<longrightarrow>
             client_Stop (env_code_of env) c jobID = Inr st
             \<and> execute_command env c (stopCommand jobID) [] = Some ([], Inr ())))"
proof -
  let ?k = "ep_call ep"
  note run = calls_at_runnable [OF assms(1)] and after = calls_at_after [OF assms(1)]
  have "svc_calls (\<sigma> (Suc n)) ?k \<noteq> None"
    by (rule call_made [OF first_step [OF assms(1)]]) simp
  then obtain m sent res where m: "m > n" "\<And>l. l \<ge> m \<Longrightarrow> svc_calls (\<sigma> l) ?k = Some (Answered sent res)"
    using calls_at_answered [OF assms(1)] by blast
  have "svc_calls (\<sigma> m) ?k = Some (Answered sent res)" by (rule m(2)) simp
  moreover have "stop_course ?k a jobID (\<sigma> m)"
    and moved: "\<exists>y. bd_jobs (abs_service (\<sigma> m)) (a, jobID) = Some y \<and> spec_step\<^sup>*\<^sup>* x y"
    using Stop_comes [OF run after [OF m(1)]] assms(3) by simp_all
  ultimately obtain st ts where st: "sent = []" "res = Inr (Some (StopResponse (wire_of st)))"
    "bd_jobs (abs_service (\<sigma> m)) (a, jobID) = Some (Over st ts)" unfolding stop_course_def by auto
  with moved have moves: "spec_step\<^sup>*\<^sup>* x (Over st ts)" by simp
  have ne: "st \<noteq> StatusRunning" by (rule over_status [OF st(3)])
  have "client_Stop (env_code_of env) c jobID = Inr st \<and> execute_command env c (stopCommand jobID) [] = Some ([], Inr ())"
    if "l \<ge> m" "rpc_Stop (cl_connection c) jobID = stop_rpc ep jobID i (taken ev (Suc n) l)" for c l
  proof -
    have "client_Stop (env_code_of env) c jobID = Inr st"
      by (rule client_Stop_answered [OF assms(2) after _ ne that(2)]) (use that(1) m st(1,2) in auto)
    then show ?thesis by simp
  qed
  with over_later [OF assms(1) m(1) _ st(3)] m(1) moves ne show ?thesis by blast
qed

theorem fair_client_Stop_returns_witness:
  "\<exists>m st. \<forall>c. rpc_Stop (cl_connection c) ''ann/0'' = stop_rpc (ann_endpoint 2 14) ''ann/0'' 0 (taken answered_event_at 15 m)
     \<longrightarrow> client_Stop (env_code_of sample_env) c ''ann/0'' = Inr st"
proof -
  obtain x where "bd_jobs (abs_service (ep_service (ann_endpoint 2 14))) (''ann'', ''ann/0'') = Some x"
    using ann_board(2) by auto
  from fair_client_Stop_returns [of "ann_endpoint 2 14", unfolded ann_endpoint_fields, OF ann_calls(2) ann_caller(1)
    this [unfolded ann_endpoint_fields], of sample_env]
  show ?thesis by fastforce
qed

text \<open>
  C6. \<open>fizzle outputs\<close> returns, from one end to the other, in every fair run of the service in which the
  stream is not cut. Once the call of an agent has reached the service, for a job the agent has, there
  is an instant from which on the command has succeeded, the job is over for good, and stdout is its
  ticks, every one of them in order, each as one line of JSON.
\<close>

theorem fair_outputs_returns:
  assumes "calls_at ep \<sigma> ev n (OnStream (ep_call ep) (Some a) jobID i)"
    and "caller_of ep ActionStreamOutput = Some a"
    and "bd_jobs (abs_service (ep_service ep)) (a, jobID) = Some x"
    and "\<forall>m e. ev m = Some e \<longrightarrow> uncut (ep_call ep) e"
    and "takes_all (env_stdout env)" and "rejects_controls (env_json env)"
    and "\<forall>t. is_ok (tickJSON (env_json env) (sent_tick (ep_dur ep) t))"
  shows "\<exists>m>n. \<exists>st ts. st \<noteq> StatusRunning \<and> spec_step\<^sup>*\<^sup>* x (Over st ts)
    \<and> (\<forall>l\<ge>m. bd_jobs (abs_service (\<sigma> l)) (a, jobID) = Some (Over st ts)
        \<and> (\<forall>c. rpc_StreamOutput (cl_connection c) jobID = Inr (stream_rpc ep jobID i (taken ev (Suc n) l)) \<longrightarrow>
             (\<exists>out. execute_command env c (outputsCommand jobID) [] = Some (out, Inr ())
                \<and> split_on (CHR 0x0A) out =
                    map (\<lambda>t. projr (tickJSON (env_json env) (sent_tick (ep_dur ep) t))) ts @ [[]])))"
proof -
  let ?k = "ep_call ep"
  note run = calls_at_runnable [OF assms(1)] and after = calls_at_after [OF assms(1)]
  have uncut: "list_all (uncut ?k) (taken ev (Suc n) l)" for l using taken_all assms(4) by metis
  have "svc_calls (\<sigma> (Suc n)) ?k \<noteq> None"
    by (rule call_made [OF first_step [OF assms(1)]]) simp
  then obtain m sent res where m: "m > n" "\<And>l. l \<ge> m \<Longrightarrow> svc_calls (\<sigma> l) ?k = Some (Answered sent res)"
    using calls_at_answered [OF assms(1)] by blast
  have "svc_calls (\<sigma> m) ?k = Some (Answered sent res)" by (rule m(2)) simp
  moreover have "stream_course (ep_dur ep) ?k a jobID (\<sigma> m)"
    and moved: "\<exists>y. bd_jobs (abs_service (\<sigma> m)) (a, jobID) = Some y \<and> spec_step\<^sup>*\<^sup>* x y"
    using Stream_comes [OF run after [OF m(1)] uncut] assms(3) by simp_all
  ultimately obtain st ts where st: "sent = map (sent_tick (ep_dur ep)) ts" "res = Inr None"
    "bd_jobs (abs_service (\<sigma> m)) (a, jobID) = Some (Over st ts)" unfolding stream_course_def by auto
  with moved have moves: "spec_step\<^sup>*\<^sup>* x (Over st ts)" by simp
  have ne: "st \<noteq> StatusRunning" by (rule over_status [OF st(3)])
  have "\<exists>out. execute_command env c (outputsCommand jobID) [] = Some (out, Inr ())
      \<and> split_on (CHR 0x0A) out = map (\<lambda>t. projr (tickJSON (env_json env) (sent_tick (ep_dur ep) t))) ts @ [[]]"
    if "l \<ge> m" "rpc_StreamOutput (cl_connection c) jobID = Inr (stream_rpc ep jobID i (taken ev (Suc n) l))" for c l
    by (rule outputs_closed [OF assms(5-7) assms(2) after _ that(2)]) (use that m st in auto)
  with over_later [OF assms(1) m(1) _ st(3)] m(1) moves ne show ?thesis by blast
qed

theorem fair_outputs_returns_witness:
  "\<exists>m. \<forall>c. rpc_StreamOutput (cl_connection c) ''ann/0''
        = Inr (stream_rpc (ann_endpoint 1 1) ''ann/0'' 0 (taken answered_event_at 2 m))
     \<longrightarrow> (\<exists>out. execute_command sample_env c (outputsCommand ''ann/0'') [] = Some (out, Inr ()))"
proof -
  have uncut: "\<forall>m e. answered_event_at m = Some e \<longrightarrow> uncut 1 e" using ann_uncut by blast
  have json: "\<forall>t. is_ok (tickJSON (env_json sample_env) (sent_tick sample_dur t))" using sample_env_encodes by blast
  from fair_outputs_returns [of "ann_endpoint 1 1", unfolded ann_endpoint_fields, OF ann_calls(1) ann_caller(2)
    ann_board(1) uncut sample_env_takes(1) sample_env_json json]
  show ?thesis unfolding numeral_2_eq_2 by (metis One_nat_def le_refl)
qed

end
