(* ===== verification/Deployment.thy ===== *)
theory Deployment
  imports Endpoint Server
begin

text \<open>
  The client command against the daemon over mutual TLS: the configurations the two sides build, what
  each presents to the other's callback, and a connection that carries RPCs when both callbacks admit it.
  The handshake of \<open>crypto/tls\<close> and the transport are outside the repository: what is relied on is \<open>secured\<close>.
\<close>

section \<open>What the sides present and admit\<close>

text \<open>The chain of a configuration, as the other side parses it.\<close>

definition presented :: "externals \<Rightarrow> tls_config \<Rightarrow> chain" where
  "presented x cfg =
     (case Certificates cfg of
        [ders] \<Rightarrow> (case parse_chain x '''' ders of Inr certificates \<Rightarrow> certificates | Inl e \<Rightarrow> [])
      | _ \<Rightarrow> [])"

definition admits :: "tls_config \<Rightarrow> int \<Rightarrow> chain \<Rightarrow> bool" where
  "admits cfg now certificates \<longleftrightarrow>
     (case VerifyConnection cfg of
        None \<Rightarrow> True
      | Some verify \<Rightarrow> is_ok (snd (verify now \<lparr>PeerCertificates = certificates\<rparr>)))"

definition with_peer :: "endpoint \<Rightarrow> chain \<Rightarrow> endpoint" where
  "with_peer ep certificates = ep\<lparr>ep_peer := Some (TLSInfo \<lparr>PeerCertificates = certificates\<rparr>)\<rparr>"

text \<open>
  What \<open>credentials.NewTLS\<close> and \<open>tls.Config\<close> are documented to do: a connection on which the callback of each
  side has admitted the chain the other presents carries its RPCs to the server, whose peer is then the
  TLS state with the client's chain.
\<close>

definition secured :: "externals \<Rightarrow> tls_config \<Rightarrow> endpoint \<Rightarrow> (string \<Rightarrow> tls_config \<Rightarrow> connection result) \<Rightarrow> bool" where
  "secured x server_tls ep dial \<longleftrightarrow>
     (\<forall>address client_tls conn. dial address client_tls = Inr conn
        \<longrightarrow> admits client_tls (ep_now ep) (presented x server_tls)
        \<longrightarrow> admits server_tls (ep_now ep) (presented x client_tls)
        \<longrightarrow> connected (with_peer ep (presented x client_tls)) \<lparr>cl_connection = conn\<rparr>)"

section \<open>The two sides admit each other\<close>

lemma parse_chain_path: "parse_chain x p ders = Inr certificates \<Longrightarrow> parse_chain x q ders = Inr certificates"
  by (induction ders arbitrary: certificates) (auto simp: result_simps split: sum.splits)

lemma identity_presented:
  "loadIdentity x certPath keyPath = Inr (ders, certificates) \<Longrightarrow> Certificates cfg = [ders]
     \<Longrightarrow> presented x cfg = certificates"
  using parse_chain_path [of x certPath ders certificates "''''"]
  by (auto simp: loadIdentity_def presented_def result_simps split: sum.splits)

lemma same_bundle:
  "NewAuthenticator x path lg = Some (l, Inr a) \<Longrightarrow> NewAuthenticator x path lg' = Some (l', Inr a')
     \<Longrightarrow> auth_verifier a = auth_verifier a'"
  by (auto simp: NewAuthenticator_def Let_def split: option.splits sum.splits)

lemma ClientConfig_ok:
  assumes "ClientConfig x now a certPath keyPath = Inr cfg"
  obtains ders certificates l agent where "loadIdentity x certPath keyPath = Inr (ders, certificates)"
    "clientSVID (auth_verify x now a) certificates = Inr (l, agent)"
    "cfg = newClientTLSConfig ders (\<lambda>t. verifyServerPeer x t a)"
  using assms by (auto simp: ClientConfig_def result_simps)

lemma ServerConfig_ok:
  assumes "ServerConfig x now a certPath keyPath = Inr cfg"
  obtains ders certificates l where "loadIdentity x certPath keyPath = Inr (ders, certificates)"
    "serverSVID (auth_verify x now a) certificates = Inr l"
    "cfg = newServerTLSConfig ders (\<lambda>t. verifyClientPeer x t a)"
  using assms by (auto simp: ServerConfig_def result_simps)

lemma New_server_ok:
  assumes "New_server x listen now cfg lg = Some (logged, Inr srv)"
  obtains l a authorizer where "NewAuthenticator x (CAPath cfg) (Some (OrDiscard lg)) = Some (l, Inr a)"
    "ServerConfig x now a (CertPath cfg) (KeyPath cfg) = Inr (tr_creds (srv_grpc srv))"
    "Load x (RolesPath cfg) = Inr authorizer"
    "ic_authenticator (tr_interceptor (srv_grpc srv)) = a" "ic_authorizer (tr_interceptor (srv_grpc srv)) = authorizer"
  using assms
  by (auto simp: New_server_def newTransport_def NewInterceptor_def Let_def result_simps
      split: if_splits option.splits sum.splits)

lemma New_client_ok:
  assumes "New_client x dial now cfg lg = Some (logged, Inr c)"
  obtains l a tls where "NewAuthenticator x (client_CAPath cfg) lg = Some (l, Inr a)"
    "ClientConfig x now a (client_CertPath cfg) (client_KeyPath cfg) = Inr tls"
    "dial (client_Address cfg) tls = Inr (cl_connection c)"
  using assms by (auto simp: New_client_def Let_def split: if_splits option.splits sum.splits)

text \<open>
  A client and a server built at one instant from one trust bundle admit each other, and the server takes
  the client for the agent that its certificate names.
\<close>

lemma mutual_admission:
  assumes srv: "New_server x listen now scfg lg = Some (logged, Inr srv)"
    and cl: "New_client x dial now ccfg clg = Some (clogged, Inr c)"
    and same: "client_CAPath ccfg = CAPath scfg"
  shows "\<exists>tls ders leaf cs agent. dial (client_Address ccfg) tls = Inr (cl_connection c)
    \<and> loadIdentity x (client_CertPath ccfg) (client_KeyPath ccfg) = Inr (ders, Some leaf # map Some cs)
    \<and> presented x tls = Some leaf # map Some cs
    \<and> valid_agent_id agent \<and> cert_uris leaf = [agent_uri agent]
    \<and> admits tls now (presented x (tr_creds (srv_grpc srv)))
    \<and> admits (tr_creds (srv_grpc srv)) now (presented x tls)
    \<and> Authenticate x now (ic_authenticator (tr_interceptor (srv_grpc srv)))
         \<lparr>PeerCertificates = presented x tls\<rparr> = Inr agent"
proof -
  obtain sl sa roles where s: "NewAuthenticator x (CAPath scfg) (Some (OrDiscard lg)) = Some (sl, Inr sa)"
    "ServerConfig x now sa (CertPath scfg) (KeyPath scfg) = Inr (tr_creds (srv_grpc srv))"
    "ic_authenticator (tr_interceptor (srv_grpc srv)) = sa"
    using New_server_ok [OF srv] by metis
  obtain al ca tls where c: "NewAuthenticator x (client_CAPath ccfg) clg = Some (al, Inr ca)"
    "ClientConfig x now ca (client_CertPath ccfg) (client_KeyPath ccfg) = Inr tls"
    "dial (client_Address ccfg) tls = Inr (cl_connection c)"
    using New_client_ok [OF cl] by metis
  have v: "auth_verify x now sa = auth_verify x now ca"
    using same_bundle [OF s(1) c(1) [unfolded same]] by (simp add: auth_verify_def)
  obtain sders schain sleaf where si: "loadIdentity x (CertPath scfg) (KeyPath scfg) = Inr (sders, schain)"
    "serverSVID (auth_verify x now sa) schain = Inr sleaf"
    "tr_creds (srv_grpc srv) = newServerTLSConfig sders (\<lambda>t. verifyClientPeer x t sa)"
    using ServerConfig_ok [OF s(2)] by metis
  obtain ders certs l agent where ci: "loadIdentity x (client_CertPath ccfg) (client_KeyPath ccfg) = Inr (ders, certs)"
    "clientSVID (auth_verify x now ca) certs = Inr (l, agent)"
    "tls = newClientTLSConfig ders (\<lambda>t. verifyServerPeer x t ca)"
    using ClientConfig_ok [OF c(2)] by metis
  have ps: "presented x (tr_creds (srv_grpc srv)) = schain"
    by (rule identity_presented [OF si(1)]) (simp add: si(3) newServerTLSConfig_def baseTLSConfig_def)
  have pc: "presented x tls = certs"
    by (rule identity_presented [OF ci(1)]) (simp add: ci(3) newClientTLSConfig_def baseTLSConfig_def)
  have auth: "Authenticate x now sa \<lparr>PeerCertificates = certs\<rparr> = Inr agent"
    using ci(2) by (simp add: Authenticate_def v)
  then obtain leaf cs where leaf: "certs = Some leaf # map Some cs" "valid_agent_id agent" "cert_uris leaf = [agent_uri agent]"
    unfolding Authenticate_chain by (auto simp: accepted_chain_def)
  have "admits tls now schain"
    using si(2) by (simp add: admits_def ci(3) newClientTLSConfig_def baseTLSConfig_def verifyServerPeer_def v)
  moreover have "admits (tr_creds (srv_grpc srv)) now certs"
    using ci(2) by (simp add: admits_def si(3) newServerTLSConfig_def baseTLSConfig_def verifyClientPeer_def v)
  ultimately show ?thesis using c(3) ci(1) leaf auth by (auto simp: ps pc s(3) intro!: exI [of _ tls])
qed

text \<open>The agent behind a chain the server authenticates may start a job when it has a role.\<close>

lemma caller_with_peer:
  assumes "Authenticate (ep_externals ep) (ep_now ep) (ic_authenticator (ep_interceptor ep))
    \<lparr>PeerCertificates = certificates\<rparr> = Inr agent"
  shows "caller_of (with_peer ep certificates) act =
      (if map_of (roles (ic_authorizer (ep_interceptor ep))) agent = Some RoleUser
         \<and> act \<in> {ActionStart, ActionStop, ActionGetStatus, ActionStreamOutput} then Some agent else None)"
    and "actionFor rpc \<noteq> None \<Longrightarrow> refusal_of (with_peer ep certificates) rpc = ErrPermissionDenied"
  using assms by (simp_all add: caller_of_def caller_def with_peer_def is_ok_conv Authorize_ok
      refusal_of_def refusal_code_def client_class_def)

lemma with_peer_fields [simp]:
  "ep_service (with_peer ep certificates) = ep_service ep" "ep_call (with_peer ep certificates) = ep_call ep"
  "ep_now (with_peer ep certificates) = ep_now ep" "ep_dur (with_peer ep certificates) = ep_dur ep"
  "runnable (with_peer ep certificates) = runnable ep"
  by (simp_all add: with_peer_def runnable_def)

section \<open>The start command\<close>

text \<open>How the process ends that has built its client and starts a job.\<close>

lemma fizzle_start_run:
  assumes "fizzle_parse args = Inr parsed"
    and "newCommand (env_quote env) (inv_name parsed) (inv_argument parsed) = Inr (startCommand count)"
    and "New_client (env_externals env) (env_dial env) (env_now env) (inv_config parsed) None = Some (l, Inr c)"
    and "takes_all (env_stdout env)" and "takes_all (env_stderr env)"
  shows "client_Start (env_code_of env) c count = Inr jobID \<Longrightarrow>
      fizzle_run env args = Some (jobID @ [CHR 0x0A], [], 0)"
    and "rpc_failure (client_Start (env_code_of env) c count) s \<Longrightarrow>
      \<exists>err. fizzle_run env args = Some ([], ''fizzle: '' @ err, if s = ErrInvalidArgument \<or> s = ErrConfig then 2 else 1)"
  using assms
  by (auto simp: fizzle_run_def fizzle_execute_def writeLine_def exit_codes exitCodeFor_def rpc_failure_def
      plain_failure_def diagnostic_def Let_def split: sum.splits)

text \<open>The sample daemon, which serves the sample endpoint, and the sample client's dial to it.\<close>

definition deployed :: "server \<Rightarrow> endpoint" where
  "deployed srv = sample_endpoint\<lparr>ep_interceptor := tr_interceptor (srv_grpc srv)\<rparr>"

definition sample_dial :: "server \<Rightarrow> string \<Rightarrow> tls_config \<Rightarrow> connection result" where
  "sample_dial srv address tls =
     Inr (cl_connection (wired (with_peer (deployed srv) (presented sample_externals tls))))"

lemma sample_secured: "secured sample_externals tls (deployed srv) (sample_dial srv)"
  by (auto simp: secured_def sample_dial_def connected_def wired_def)

definition deployed_env :: "server \<Rightarrow> fizzle_env" where
  "deployed_env srv = sample_env\<lparr>env_dial := sample_dial srv, env_code_of := plain_code\<rparr>"

lemma deployed_env_fields [simp]:
  "env_externals (deployed_env srv) = sample_externals" "env_now (deployed_env srv) = 10"
  "env_code_of (deployed_env srv) = plain_code" "env_dial (deployed_env srv) = sample_dial srv"
  "takes_all (env_stdout (deployed_env srv))" "takes_all (env_stderr (deployed_env srv))"
  "ep_now (deployed srv) = 10" "ep_externals (deployed srv) = sample_externals"
  "ep_interceptor (deployed srv) = tr_interceptor (srv_grpc srv)" "runnable (deployed srv)"
  "abs_service (ep_service (deployed srv)) = empty_board"
  using sample_env_takes sample_endpoint_runnable sample_endpoint_board
  by (simp_all add: deployed_env_def deployed_def sample_env_def sample_endpoint_def runnable_def)

lemma deployed_client:
  "\<exists>c. New_client sample_externals (sample_dial srv) 10 sample_client_config None = Some ([], Inr c)"
proof -
  obtain cfg where "ClientConfig sample_externals 10 (sample_auth discard_logger) ''agent.crt'' ''agent.key'' = Inr cfg"
    using sample_tls_configs by (auto simp: is_ok_conv)
  then show ?thesis
    by (simp add: New_client_def sample_client_config_def sample_authenticator OrDiscard_def sample_dial_def
        audit_discarded discard_logger_def)
qed

lemma deployed_command:
  "fizzle_parse [''start'', ''--server'', ''h:1'', ''--ca'', ''ca.crt'', ''--cert'', ''agent.crt'', ''--key'', ''agent.key'', ''5''] =
     Inr \<lparr>inv_name = ''start'', inv_argument = ''5'', inv_config = sample_client_config\<rparr>"
  "newCommand (env_quote (deployed_env srv)) ''start'' ''5'' = Inr (startCommand 5)"
  by (simp add: parse_evals)
     (simp add: newCommand_def command_names Atoi_def digit_value_def byte_class_defs int_bounds)

lemma deployed_agent:
  assumes "loadIdentity sample_externals ''agent.crt'' ''agent.key'' = Inr (ders, Some leaf # map Some cs)"
    and "cert_uris leaf = [agent_uri agent]" and "Load sample_externals ''roles.json'' = Inr authorizer"
  shows "map_of (roles authorizer) agent = Some RoleUser"
proof -
  have "loadIdentity sample_externals ''agent.crt'' ''agent.key'' =
      Inr ([''agent.crt''], [Some (sample_leaf (agent_uri ''smith''))])" by code_simp
  with assms(1,2) have "agent = ''smith''" by (auto simp: sample_leaf_def agent_uri_def)
  moreover have "ext_read_file sample_externals (Clean ''roles.json'') = Inr ''{}''"
    "ext_json_members sample_externals ''{}'' = Inr [(''smith'', ''USER''), (''jones'', ''USER'')]"
    by code_simp+
  ultimately have "Authorize authorizer agent ActionStart = Inr ()"
    by (simp add: Load_authorizes [OF assms(3)])
  then show ?thesis by (simp add: Authorize_ok)
qed

end
