(* ===== verification/Fizzled.thy ===== *)
theory Fizzled
  imports Server Flags
begin

text \<open>
  \<open>cmd/fizzled\<close>: the daemon. The process is the texts of its two outputs and its exit code; records of
  the log go to stderr as the lines the JSON handler makes of them. \<open>de_serve\<close> is what \<open>Serve\<close> leaves:
  the records logged while it serves and its result, \<open>None\<close> while it is serving.
\<close>

section \<open>The command line\<close>

definition fizzledErrUsage :: go_error where "fizzledErrUsage = Sentinel (SFizzled FizzledErrUsage)"
definition fizzledErrConfig :: go_error where "fizzledErrConfig = Sentinel (SFizzled FizzledErrConfig)"

definition fizzled_exitSuccess :: int where "fizzled_exitSuccess = 0"
definition fizzled_exitFailure :: int where "fizzled_exitFailure = 1"
definition fizzled_exitUsage :: int where "fizzled_exitUsage = 2"

lemmas fizzled_exit_codes = fizzled_exitSuccess_def fizzled_exitFailure_def fizzled_exitUsage_def

definition fizzled_exitCodeFor :: "go_error option \<Rightarrow> int" where
  "fizzled_exitCodeFor err =
     (case err of
        None \<Rightarrow> fizzled_exitSuccess
      | Some e \<Rightarrow>
          if errors_is e (SFizzled FizzledErrUsage) \<or> errors_is e (SFizzled FizzledErrConfig)
          then fizzled_exitUsage else fizzled_exitFailure)"

definition fizzled_defaultAddress :: string where "fizzled_defaultAddress = ''localhost:8443''"
definition fizzled_defaultCAPath :: string where "fizzled_defaultCAPath = ''.secrets/ca.crt''"
definition fizzled_defaultCertPath :: string where "fizzled_defaultCertPath = ''.secrets/server.crt''"
definition fizzled_defaultKeyPath :: string where
  "fizzled_defaultKeyPath = ''.secrets/server-private.key''"
definition fizzled_defaultRolesPath :: string where "fizzled_defaultRolesPath = ''.secrets/roles.json''"

lemmas fizzled_defaults = fizzled_defaultAddress_def fizzled_defaultCAPath_def
  fizzled_defaultCertPath_def fizzled_defaultKeyPath_def fizzled_defaultRolesPath_def

definition fizzled_usage :: string where
  "fizzled_usage = concat (map (\<lambda>line. line @ [CHR 0x0A])
     [''fizzled serves stochastic countdowns over mTLS.'',
      '''',
      ''Usage:'',
      ''  fizzled [flags]'',
      '''',
      ''Flags:'',
      ''  --server <address>   the address to listen on (default '' @ in_quotes ''localhost:8443'' @ '')'',
      ''  --ca <path>          the trust bundle every client is verified against'',
      ''                       (default '' @ in_quotes ''.secrets/ca.crt'' @ '')'',
      ''  --cert <path>        the certificate this server presents'',
      ''                       (default '' @ in_quotes ''.secrets/server.crt'' @ '')'',
      ''  --key <path>         the private key for that certificate'',
      ''                       (default '' @ in_quotes ''.secrets/server-private.key'' @ '')'',
      ''  --roles <path>       the agent-to-role mapping to authorize from'',
      ''                       (default '' @ in_quotes ''.secrets/roles.json'' @ '')'',
      '''',
      ''The defaults are what '' @ in_quotes ''make secrets'' @ '' writes, so a working copy needs no flags.'',
      ''fizzled logs to stderr as JSON, and serves until it is sent SIGINT or SIGTERM.'',
      '''',
      ''Exit codes:'',
      ''  0   the shutdown drained every open stream'',
      ''  1   serving failed, or the shutdown ran out of grace with streams still open'',
      ''  2   the flags or the files could not be used''])"

definition fizzled_flags :: flag_set where
  "fizzled_flags =
     [(''server'', fizzled_defaultAddress), (''ca'', fizzled_defaultCAPath),
      (''cert'', fizzled_defaultCertPath), (''key'', fizzled_defaultKeyPath),
      (''roles'', fizzled_defaultRolesPath)]"

text \<open>The grace has no flag: it stays zero, which stands for the server's default.\<close>

definition fizzled_config :: "flag_set \<Rightarrow> server_config" where
  "fizzled_config fs =
     \<lparr>Address = flag_value fs ''server'', CAPath = flag_value fs ''ca'', CertPath = flag_value fs ''cert'',
      KeyPath = flag_value fs ''key'', RolesPath = flag_value fs ''roles'', ShutdownGrace = 0\<rparr>"

definition fizzled_parse :: "string list \<Rightarrow> server_config result" where
  "fizzled_parse args =
     (case Parse_flags fizzled_flags args of
        Inl err \<Rightarrow>
          if errors_is err (SStd FlagErrHelp) then Inl (Wrap1 ''parse: '' err)
          else Inl (Wrap2 ''parse: '' fizzledErrUsage err)
      | Inr (positional, fs) \<Rightarrow>
          if length positional \<noteq> 0 then
            Inl (Wrap1 (''parse: expected no positional arguments, got ''
                   @ show_int (int (length positional)) @ '': '') fizzledErrUsage)
          else Inr (fizzled_config fs))"

section \<open>The process\<close>

record fizzled_env =
  de_externals :: externals
  de_listen :: "string \<Rightarrow> string result"
  de_now :: int
  de_serve :: "server \<Rightarrow> (log_record list \<times> unit result) option"
  de_status_text :: "grpc_code \<Rightarrow> string \<Rightarrow> string"
  de_json_line :: "log_record \<Rightarrow> string"
  de_stdout :: writer
  de_stderr :: writer

definition serve_logger :: logger where
  "serve_logger = \<lparr>bound_attrs = [], discards = False\<rparr>"

text \<open>The records logged, and the result.\<close>

definition fizzled_serve :: "fizzled_env \<Rightarrow> server_config \<Rightarrow> logger
    \<Rightarrow> (log_record list \<times> unit result) option" where
  "fizzled_serve env cfg lg =
     (case New_server (de_externals env) (de_listen env) (de_now env) cfg (Some lg) of
        None \<Rightarrow> None
      | Some (logged, Inl err) \<Rightarrow> Some (logged, Inl (Wrap2 ''serve: '' fizzledErrConfig err))
      | Some (logged, Inr fizzled) \<Rightarrow>
          (let listening = log_attrs lg LevelInfo ''fizzled is listening'' [(''address'', AStr (Addr fizzled))]
           in case de_serve env fizzled of
                None \<Rightarrow> None
              | Some (served, Inl err) \<Rightarrow> Some (logged @ listening @ served, Inl (Wrap1 ''serve: '' err))
              | Some (served, Inr _) \<Rightarrow> Some (logged @ listening @ served, Inr ())))"

text \<open>A handler drops what its writer returns.\<close>

definition write_log :: "fizzled_env \<Rightarrow> log_record list \<Rightarrow> string \<Rightarrow> string" where
  "write_log env rs text = foldl (\<lambda>t r. fst (de_stderr env t (de_json_line env r))) text rs"

definition fizzled_run :: "fizzled_env \<Rightarrow> string list \<Rightarrow> (string \<times> string \<times> int) option" where
  "fizzled_run env args =
     (case fizzled_parse args of
        Inl err \<Rightarrow>
          if errors_is err (SStd FlagErrHelp)
          then Some (fst (de_stdout env '''' fizzled_usage), '''', fizzled_exitSuccess)
          else
            (let said = fst (de_stderr env '''' fizzled_usage)
             in Some ('''', fst (de_stderr env said
                   (''fizzled: '' @ error_text (de_status_text env) err @ [CHR 0x0A])),
                 fizzled_exitCodeFor (Some err)))
      | Inr cfg \<Rightarrow>
          (case fizzled_serve env cfg serve_logger of
             None \<Rightarrow> None
           | Some (logged, Inl err) \<Rightarrow>
               Some ('''',
                 write_log env (logged @ log_attrs serve_logger LevelError ''fizzled stopped''
                    [(''error'', AErr err)]) '''',
                 fizzled_exitCodeFor (Some err))
           | Some (logged, Inr _) \<Rightarrow>
               Some ('''', write_log env (logged @ log_attrs serve_logger LevelInfo ''fizzled stopped'' []) '''',
                 fizzled_exitSuccess)))"

text \<open>\<open>main\<close>: as the client's; the signals are the end of the context \<open>Serve\<close> is given.\<close>

definition fizzled_main :: "fizzled_env \<Rightarrow> string list \<Rightarrow> (string \<times> string \<times> int) outcome option" where
  "fizzled_main env argv =
     (case argv of
        [] \<Rightarrow> Some (Panicked (PanicErr (Foreign ''slice bounds out of range'')))
      | program # args \<Rightarrow> map_option Returned (fizzled_run env args))"

section \<open>Lemmas\<close>

lemma fizzled_parse_error:
  "fizzled_parse args = Inl e \<Longrightarrow>
     errors_is e (SStd FlagErrHelp) \<noteq> errors_is e (SFizzled FizzledErrUsage)"
  by (auto simp: fizzled_parse_def fizzledErrUsage_def flag_help_def
      dest!: Parse_flags_error split: if_splits sum.splits prod.splits)

text \<open>An error that carries a sentinel of the process, which no error of \<open>src/internal\<close> does.\<close>

definition own_sentinel :: "go_error \<Rightarrow> bool" where
  "own_sentinel e \<longleftrightarrow> errors_is e (SFizzled FizzledErrUsage) \<or> errors_is e (SFizzled FizzledErrConfig)"

text \<open>
  What \<open>de_serve\<close> leaves is what a run of the serving machine leaves: its result once it has returned, and
  among the records those that \<open>Serve\<close> itself logs.
\<close>

definition serves :: "(service \<Rightarrow> bool \<Rightarrow> bool) \<Rightarrow> fizzled_env \<Rightarrow> server \<Rightarrow> serve_event list \<Rightarrow> serving
    \<Rightarrow> log_record list \<Rightarrow> bool" where
  "serves drained env srv es g served \<longleftrightarrow>
     (\<exists>dur. run_events (serve_step dur drained srv) es (Serve srv) = Some g)
     \<and> set (sg_log g) \<subseteq> set served
     \<and> de_serve env srv = (case sg_main g of ServeDone r \<Rightarrow> Some (served, r) | _ \<Rightarrow> None)"

definition json_lines :: "fizzled_env \<Rightarrow> log_record list \<Rightarrow> string" where
  "json_lines env rs = concat (map (de_json_line env) rs)"

text \<open>The last record of the daemon, and how it exits, by the failure of \<open>Serve\<close> when it has one.\<close>

definition stopped_record :: "go_error option \<Rightarrow> log_record" where
  "stopped_record failure =
     (case failure of
        None \<Rightarrow> \<lparr>log_level = LevelInfo, log_msg = ''fizzled stopped'', log_attributes = []\<rparr>
      | Some e \<Rightarrow> \<lparr>log_level = LevelError, log_msg = ''fizzled stopped'', log_attributes = [(''error'', AErr e)]\<rparr>)"

definition listening_record :: "server \<Rightarrow> log_record" where
  "listening_record srv =
     \<lparr>log_level = LevelInfo, log_msg = ''fizzled is listening'', log_attributes = [(''address'', AStr (Addr srv))]\<rparr>"

definition grace_record :: log_record where
  "grace_record =
     \<lparr>log_level = LevelWarn, log_msg = ''shutdown grace elapsed with streams still open'',
      log_attributes = [(''grace'', ADur 5000000000)]\<rparr>"

lemma write_log_all:
  "takes_all (de_stderr env) \<Longrightarrow> write_log env rs t = t @ json_lines env rs"
  unfolding write_log_def json_lines_def by (induction rs arbitrary: t) simp_all

lemma serve_logger_attrs [simp]:
  "log_attrs serve_logger lvl msg as = [\<lparr>log_level = lvl, log_msg = msg, log_attributes = as\<rparr>]"
  by (simp add: log_attrs_def serve_logger_def)

lemma own_sentinel_wrap [simp]: "own_sentinel (Wrap1 p e) = own_sentinel e"
  by (simp add: own_sentinel_def)

lemma exitCodeFor_some:
  "fizzled_exitCodeFor (Some e) = (if own_sentinel e then 2 else 1)"
  by (simp add: fizzled_exitCodeFor_def fizzled_exit_codes own_sentinel_def)

lemma built_server_fields:
  assumes "fizzled_parse args = Inr cfg"
    and "New_server x listen now cfg (Some serve_logger) = Some (logged, Inr srv)"
  shows "grace_line srv = [grace_record]"
proof -
  have "ShutdownGrace cfg = 0"
    using assms(1) by (auto simp: fizzled_parse_def fizzled_config_def split: sum.splits prod.splits if_splits)
  with assms(2) have "srv_logger srv = serve_logger" "srv_shutdownGrace srv = 5000000000"
    by (auto simp: New_server_def Let_def OrDiscard_def defaultShutdownGrace_def result_simps
        split: if_splits option.splits sum.splits)
  then show ?thesis by (simp add: grace_line_def grace_record_def)
qed

text \<open>What the process leaves, by what building the server and serving leave.\<close>

lemma fizzled_run_unbuilt:
  assumes "takes_all (de_stderr env)" and "fizzled_parse args = Inr cfg"
    and "New_server (de_externals env) (de_listen env) (de_now env) cfg (Some serve_logger) = Some (logged, Inl e)"
  shows "fizzled_run env args = Some ([],
    json_lines env (logged @ [stopped_record (Some (Wrap2 ''serve: '' fizzledErrConfig e))]), 2)"
  using assms
  by (simp add: fizzled_run_def fizzled_serve_def write_log_all stopped_record_def exitCodeFor_some
      own_sentinel_def fizzledErrConfig_def)

lemma fizzled_run_serving:
  assumes "takes_all (de_stderr env)" and "fizzled_parse args = Inr cfg"
    and "New_server (de_externals env) (de_listen env) (de_now env) cfg (Some serve_logger) = Some (logged, Inr srv)"
  shows "fizzled_run env args =
    (case de_serve env srv of
       None \<Rightarrow> None
     | Some (served, Inl e) \<Rightarrow>
         Some ([], json_lines env (logged @ listening_record srv # served
                 @ [stopped_record (Some (Wrap1 ''serve: '' e))]), if own_sentinel e then 2 else 1)
     | Some (served, Inr u) \<Rightarrow>
         Some ([], json_lines env (logged @ listening_record srv # served @ [stopped_record None]), 0))"
  using assms
  by (simp add: fizzled_run_def fizzled_serve_def write_log_all stopped_record_def exitCodeFor_some
      listening_record_def fizzled_exitSuccess_def Let_def split: option.split sum.split)

text \<open>The failure of \<open>Serve\<close>: the transport's own, else the grace that ran out.\<close>

definition serve_failure :: "go_error option \<Rightarrow> bool \<Rightarrow> go_error option" where
  "serve_failure served elapsed =
     (if failed_by_itself served then served
      else if elapsed then Some (Sentinel (SServer ErrShutdownGraceElapsed)) else None)"

lemma fizzled_run_served:
  assumes "takes_all (de_stderr env)" and "graceful_stop drained" and "fizzled_parse args = Inr cfg"
    and srv: "New_server (de_externals env) (de_listen env) (de_now env) cfg (Some serve_logger) = Some (logged, Inr srv)"
    and serves: "serves drained env srv es g served" and r: "sg_main g = ServeDone r"
  shows "\<exists>transport. {err. EvServed err \<in> set es} = {transport}
    \<and> fizzled_run env args =
        (case serve_failure transport (EvGraceElapsed \<in> set es) of
           None \<Rightarrow> Some ([], json_lines env (logged @ listening_record srv # served @ [stopped_record None]), 0)
         | Some e \<Rightarrow> Some ([], json_lines env (logged @ listening_record srv # served
                   @ [stopped_record (Some (Wrap1 ''serve: '' (Wrap1 ''serve: '' e)))]),
               if own_sentinel e then 2 else 1))"
proof -
  from serves obtain dur where run: "run_events (serve_step dur drained srv) es (Serve srv) = Some g"
    and left: "de_serve env srv = Some (served, r)" by (auto simp: serves_def r)
  from Serve_end_run [OF assms(2) srv run r] obtain transport where
    "{err. EvServed err \<in> set es} = {transport}"
    and "r = (if failed_by_itself transport then Inl (Wrap1 ''serve: '' (the transport))
          else if EvGraceElapsed \<in> set es then Inl (Wrap1 ''serve: '' (Sentinel (SServer ErrShutdownGraceElapsed)))
          else Inr ())" by blast
  moreover from this(2) have "fizzled_run env args =
      (case serve_failure transport (EvGraceElapsed \<in> set es) of
         None \<Rightarrow> Some ([], json_lines env (logged @ listening_record srv # served @ [stopped_record None]), 0)
       | Some e \<Rightarrow> Some ([], json_lines env (logged @ listening_record srv # served
                 @ [stopped_record (Some (Wrap1 ''serve: '' (Wrap1 ''serve: '' e)))]),
             if own_sentinel e then 2 else 1))"
    unfolding fizzled_run_serving [OF assms(1,3) srv] left serve_failure_def
    by (auto simp: failed_by_itself_def)
  ultimately show ?thesis by blast
qed

lemma fizzled_serve_end:
  assumes "graceful_stop drained" and "fizzled_parse args = Inr cfg"
    and srv: "New_server x listen now cfg (Some serve_logger) = Some (logged, Inr srv)"
    and serves: "serves drained env srv es g served" and r: "sg_main g = ServeDone r"
  shows "(\<forall>p<length (svc_jobs (sg_service g)). Status (js_job (svc_jobs (sg_service g) ! p)) \<noteq> StatusRunning)
    \<and> (if EvGraceElapsed \<in> set es then grace_record \<in> set served
       else \<not> sg_stopCalled g \<and> all_answered (sg_service g))"
proof -
  from serves obtain dur where run: "run_events (serve_step dur drained srv) es (Serve srv) = Some g"
    and log: "set (sg_log g) \<subseteq> set served" by (auto simp: serves_def)
  from Serve_end [OF assms(1) srv reaches_run [OF reaches_start run] r] Serve_end_run [OF assms(1) srv run r]
    built_server_fields [OF assms(2) srv] log show ?thesis by auto
qed

section \<open>Properties\<close>

text \<open>
  C40. What the daemon leaves on its outputs and how it exits, on every path, when the outputs take what
  they are given. A request for help prints the usage on stdout and exits 0; flags that cannot be read
  print the usage and a diagnostic on stderr and exit 2. Otherwise stderr is the records logged, one line
  each. When the server cannot be built, these are the records of building it and the one that says why;
  the exit code is 2. A daemon whose server is built does not exit before \<open>Serve\<close> returns, and every job
  has ended by then. Its records are those of building the server, the address it listens on, those
  logged while it served, and how it stopped. What it stopped with is read off the run: the transport's
  own error when the transport failed by itself, else ErrShutdownGraceElapsed when the grace elapsed, else
  nothing. With an error the exit code is 1 (2 only for a transport error that carries a sentinel of
  the process itself, which gRPC cannot name), without one it is 0. When the grace elapsed, a warning with
  the default grace of five seconds is among the records; when it did not, every RPC was answered
  and none cut off.
\<close>

theorem fizzled_exit_code:
  assumes "takes_all (de_stdout env)" and "takes_all (de_stderr env)" and "graceful_stop drained"
  shows "case fizzled_parse args of
      Inl e \<Rightarrow> fizzled_run env args =
        Some (if errors_is e (SStd FlagErrHelp) then (fizzled_usage, [], 0)
              else ([], fizzled_usage @ ''fizzled: '' @ error_text (de_status_text env) e @ [CHR 0x0A], 2))
    | Inr cfg \<Rightarrow>
        (case New_server (de_externals env) (de_listen env) (de_now env) cfg (Some serve_logger) of
           None \<Rightarrow> fizzled_run env args = None
         | Some (logged, Inl e) \<Rightarrow> fizzled_run env args = Some ([],
             json_lines env (logged @ [stopped_record (Some (Wrap2 ''serve: '' fizzledErrConfig e))]), 2)
         | Some (logged, Inr srv) \<Rightarrow>
             (\<forall>es g served. serves drained env srv es g served \<longrightarrow>
               (case sg_main g of
                  ServeDone r \<Rightarrow>
                    (\<exists>transport. {err. EvServed err \<in> set es} = {transport}
                       \<and> fizzled_run env args =
                           (case (if \<exists>e. transport = Some e \<and> \<not> errors_is e (SStd GrpcErrServerStopped) then transport
                                  else if EvGraceElapsed \<in> set es
                                  then Some (Sentinel (SServer ErrShutdownGraceElapsed)) else None) of
                              None \<Rightarrow> Some ([], json_lines env (logged @ listening_record srv # served
                                        @ [stopped_record None]), 0)
                            | Some e \<Rightarrow> Some ([], json_lines env (logged @ listening_record srv # served
                                        @ [stopped_record (Some (Wrap1 ''serve: '' (Wrap1 ''serve: '' e)))]),
                                  if own_sentinel e then 2 else 1)))
                    \<and> (\<forall>p<length (svc_jobs (sg_service g)).
                          Status (js_job (svc_jobs (sg_service g) ! p)) \<noteq> StatusRunning)
                    \<and> (if EvGraceElapsed \<in> set es then grace_record \<in> set served
                       else \<not> sg_stopCalled g \<and> all_answered (sg_service g))
                | _ \<Rightarrow> fizzled_run env args = None)))"
proof (cases "fizzled_parse args")
  case (Inl e)
  with fizzled_parse_error [OF Inl] assms show ?thesis
    by (auto simp: fizzled_run_def fizzled_exitCodeFor_def fizzled_exit_codes Let_def)
next
  case (Inr cfg)
  note parsed = this
  show ?thesis
  proof (cases "New_server (de_externals env) (de_listen env) (de_now env) cfg (Some serve_logger)")
    case None
    with parsed show ?thesis by (simp add: fizzled_run_def fizzled_serve_def)
  next
    case (Some lr)
    obtain logged res where lr: "lr = (logged, res)" by fastforce
    show ?thesis
    proof (cases res)
      case (Inl e)
      with fizzled_run_unbuilt [OF assms(2) parsed] parsed Some lr show ?thesis by simp
    next
      case (Inr srv)
      note srv = Some [unfolded lr Inr]
      have open_until: "fizzled_run env args = None"
        if "serves drained env srv es g served" "\<forall>r. sg_main g \<noteq> ServeDone r" for es g served
        using fizzled_run_serving [OF assms(2) parsed srv] that
        by (simp add: serves_def split: serve_pc.splits)
      note after = fizzled_run_served [OF assms(2,3) parsed srv, unfolded serve_failure_def failed_by_itself_def]
        fizzled_serve_end [OF assms(3) parsed srv]
      show ?thesis
        unfolding parsed srv sum.case option.case prod.case
      proof (intro allI impI, goal_cases)
        case (1 es g served)
        show ?case
        proof (cases "sg_main g")
          case (ServeDone r)
          show ?thesis
            unfolding ServeDone serve_pc.case
            by (rule conjI [OF after(1) [OF 1 ServeDone] after(2) [OF 1 ServeDone]])
        qed (simp_all add: open_until [OF 1])
      qed
    qed
  qed
qed

text \<open>A daemon on the sample parameters whose serving machine runs to the end, for the witness.\<close>

definition sample_daemon :: fizzled_env where
  "sample_daemon =
     \<lparr>de_externals = sample_externals, de_listen = Inr, de_now = 10, de_serve = (\<lambda>srv. Some ([], Inr ())),
      de_status_text = (\<lambda>c m. m), de_json_line = log_msg,
      de_stdout = (\<lambda>out s. (out @ s, None)), de_stderr = (\<lambda>out s. (out @ s, None))\<rparr>"

lemma sample_daemon_parse:
  "fizzled_parse [''--ca'', ''ca.crt'', ''--cert'', ''server.crt'', ''--key'', ''server.key'',
     ''--roles'', ''roles.json''] = Inr sample_config"
  by (simp add: fizzled_parse_def fizzled_flags_def fizzled_defaults is_flag_def flag_name_def bad_flag_def
      split_value_def fizzled_config_def flag_value_def sample_config_def Let_def)

theorem fizzled_exit_code_witness:
  "(\<exists>logged srv. fizzled_run sample_daemon [''--ca'', ''ca.crt'', ''--cert'', ''server.crt'', ''--key'', ''server.key'',
     ''--roles'', ''roles.json''] =
       Some ([], json_lines sample_daemon (logged @ [listening_record srv, stopped_record None]), 0))
   \<and> (\<exists>err. fizzled_run sample_daemon [''now''] = Some ([], fizzled_usage @ err, 2))"
proof
  let ?args = "[''--ca'', ''ca.crt'', ''--cert'', ''server.crt'', ''--key'', ''server.key'',
     ''--roles'', ''roles.json'']"
  have takes: "takes_all (de_stdout sample_daemon)" "takes_all (de_stderr sample_daemon)"
    by (simp_all add: sample_daemon_def takes_all_def)
  have stop: "graceful_stop cut_or_answered" by (simp add: graceful_stop_def cut_or_answered_def)
  obtain srv logged where srv: "New_server (de_externals sample_daemon) (de_listen sample_daemon)
      (de_now sample_daemon) sample_config (Some serve_logger) = Some (logged, Inr srv)"
    using sample_server_exists [of "Some serve_logger"] by (auto simp: sample_daemon_def)
  obtain lg where lg: "srv_service srv = NewService lg" using New_server_service [OF srv] by blast
  obtain g where g: "run_events (serve_step (\<lambda>d. \<lparr>wire_seconds = 0, wire_nanos = d\<rparr>) cut_or_answered srv)
      sample_serve (Serve srv) = Some g" "sg_main g = ServeDone (Inr ())"
    using sample_serve_run [OF lg] by blast
  have "EvGraceElapsed \<notin> set sample_serve" by (simp add: sample_serve_def)
  with Serve_end_run [OF stop srv g] have "sg_log g = []" by simp
  with g have run: "serves cut_or_answered sample_daemon srv sample_serve g []"
    by (auto simp: serves_def sample_daemon_def)
  note ends = fizzled_exit_code [OF takes stop, of ?args, unfolded sample_daemon_parse srv sum.case option.case prod.case]
  from ends [rule_format, OF run, unfolded g(2) serve_pc.case]
  show "\<exists>logged srv. fizzled_run sample_daemon ?args =
      Some ([], json_lines sample_daemon (logged @ [listening_record srv, stopped_record None]), 0)"
    by (auto simp: sample_serve_def)
  have bad: "fizzled_parse [''now''] = Inl (Wrap1 ''parse: expected no positional arguments, got 1: '' fizzledErrUsage)"
    by (simp add: fizzled_parse_def is_flag_def show_int_base_def show_base.simps digit_char_values)
  from fizzled_exit_code [OF takes stop, of "[''now'']"]
  show "\<exists>err. fizzled_run sample_daemon [''now''] = Some ([], fizzled_usage @ err, 2)"
    by (auto simp: bad fizzledErrUsage_def)
qed

end
