(* ===== verification/Bundle_Text.thy ===== *)
theory Bundle_Text
  imports Authenticator
begin

text \<open>
  Trust bundles as they are written: the text of one certificate after the other, as \<open>pem.Encode\<close>
  writes it, with any number of blank lines between. What \<open>authn/trustbundle.go\<close> makes of such a file
  is settled in both directions: which files load, and with which roots an authenticator is then
  anchored.
\<close>

section \<open>Texts of certificates\<close>

abbreviation newline :: char where "newline \<equiv> CHR 0x0A"

text \<open>
  The text of a certificate without the newline at its end. It opens with the begin marker, ends on
  the dashes of the end marker, and has no begin marker at the head of a later line; \<open>pem.Decode\<close>
  reads it back, at the end of the input or before the end of a line, and returns what follows that
  line untouched.
\<close>

definition certificate_text :: "externals \<Rightarrow> string \<Rightarrow> certificate \<Rightarrow> bool" where
  "certificate_text x t c \<longleftrightarrow>
     has_prefix pemBeginMarker t \<and> last t = CHR ''-'' \<and> count_sep (newline # pemBeginMarker) t = 0
     \<and> (\<exists>b. pem_type b = certificatePEMType \<and> pem_headers b = []
          \<and> ext_parse_certificate x (pem_bytes b) = Inr c
          \<and> ext_pem_decode x t = Some (b, [])
          \<and> (\<forall>rest. ext_pem_decode x (t @ newline # rest) = Some (b, rest)))"

text \<open>A file of such texts, each with the number of blank lines after it.\<close>

fun pem_file :: "(string \<times> nat) list \<Rightarrow> string" where
  "pem_file [] = []"
| "pem_file ((t, n) # ts) = t @ replicate (Suc n) newline @ pem_file ts"

text \<open>The file without the newlines at its end.\<close>

fun pem_body :: "(string \<times> nat) list \<Rightarrow> string" where
  "pem_body [] = []"
| "pem_body [(t, n)] = t"
| "pem_body ((t, n) # u # ts) = t @ replicate (Suc n) newline @ pem_body (u # ts)"

definition framed :: "string \<Rightarrow> bool" where
  "framed s \<longleftrightarrow> s \<noteq> [] \<and> hd s = CHR ''-'' \<and> last s = CHR ''-''"

lemma certificate_text_framed: "certificate_text x t c \<Longrightarrow> framed t"
  by (auto simp: certificate_text_def framed_def has_prefix_conv pemBeginMarker_def)

lemma pem_file_body: "ts \<noteq> [] \<Longrightarrow> \<exists>k. pem_file ts = pem_body ts @ replicate k newline"
  by (induction ts rule: pem_body.induct) (auto intro: exI [of _ "Suc n" for n])

lemma pem_body_framed:
  assumes "ts \<noteq> []" and "list_all (framed \<circ> fst) ts"
  shows "framed (pem_body ts)"
  using assms by (induction ts rule: pem_body.induct) (auto simp: framed_def)

section \<open>Trimming\<close>

lemma strip_left_newline:
  "strip_left space_runes (newline # s) = strip_left space_runes s"
  "strip_left (map rev space_runes) (newline # s) = strip_left (map rev space_runes) s"
  by (subst strip_left.simps, simp add: space_runes_def has_prefix_def)+

lemma strip_left_dash:
  "strip_left space_runes (CHR ''-'' # s) = CHR ''-'' # s"
  "strip_left (map rev space_runes) (CHR ''-'' # s) = CHR ''-'' # s"
  by (subst strip_left.simps, simp add: space_runes_def has_prefix_def)+

lemma strip_left_newlines:
  "strip_left space_runes (replicate k newline @ s) = strip_left space_runes s"
  "strip_left (map rev space_runes) (replicate k newline @ s) = strip_left (map rev space_runes) s"
  by (induction k) (simp_all add: strip_left_newline)

lemma TrimSpace_framed:
  assumes "framed s"
  shows "TrimSpace (replicate j newline @ s @ replicate k newline) = s"
proof -
  obtain u where u: "s = CHR ''-'' # u" using assms by (cases s) (auto simp: framed_def)
  obtain v where v: "rev s = CHR ''-'' # v"
    using assms by (cases s rule: rev_cases) (auto simp: framed_def)
  have l: "strip_left space_runes (replicate j newline @ s @ replicate k newline) = s @ replicate k newline"
    by (simp add: strip_left_newlines u strip_left_dash)
  have "rev (s @ replicate k newline) = replicate k newline @ CHR ''-'' # v" by (simp add: v)
  then have "TrimSpace (replicate j newline @ s @ replicate k newline) = rev (CHR ''-'' # v)"
    unfolding TrimSpace_def l by (simp only: strip_left_newlines strip_left_dash)
  then show ?thesis using v [symmetric] by simp
qed

lemma TrimSpace_pem:
  assumes "ts \<noteq> []" and "list_all (framed \<circ> fst) ts"
  shows "TrimSpace (pem_file ts) = pem_body ts"
    and "TrimSpace (replicate n newline @ pem_body ts) = pem_body ts"
proof -
  obtain k where k: "pem_file ts = pem_body ts @ replicate k newline"
    using pem_file_body [OF assms(1)] by blast
  show "TrimSpace (pem_file ts) = pem_body ts"
    using TrimSpace_framed [OF pem_body_framed [OF assms], of 0 k] k by simp
  show "TrimSpace (replicate n newline @ pem_body ts) = pem_body ts"
    using TrimSpace_framed [OF pem_body_framed [OF assms], of n 0] by simp
qed

section \<open>Counting begin markers\<close>

text \<open>A separator that begins a line, and holds no other line break, is found within a line or not at all.\<close>

lemma has_prefix_line:
  assumes "c \<notin> set m" and "t \<noteq> []"
  shows "has_prefix (c # m) (t @ c # u) \<longleftrightarrow> has_prefix (c # m) t"
proof
  assume "has_prefix (c # m) (t @ c # u)"
  then obtain v where v: "t @ c # u = (c # m) @ v" by (auto simp: has_prefix_conv)
  obtain d ds where t: "t = d # ds" using assms(2) by (cases t) auto
  have "length (c # m) \<le> length t"
  proof (rule ccontr)
    assume short: "\<not> length (c # m) \<le> length t"
    then have "(c # m) ! length t = ((c # m) @ v) ! length t" by (simp only: nth_append not_le if_True)
    also have "\<dots> = c" by (simp only: v [symmetric] nth_append_length)
    finally have "m ! length ds = c \<and> length ds < length m" using t short by simp
    with assms(1) nth_mem show False by metis
  qed
  with v have "t = (c # m) @ drop (length (c # m)) t"
    by (metis append_eq_append_conv_if append_take_drop_id)
  then show "has_prefix (c # m) t" by (auto simp: has_prefix_conv)
qed (auto simp: has_prefix_conv)

lemma count_sep_line:
  assumes "c \<notin> set m"
  shows "count_sep (c # m) (t @ c # u) = count_sep (c # m) t + count_sep (c # m) (c # u)"
proof (induction "c # m" t rule: count_sep.induct)
  case (1 t)
  show ?case
  proof (cases t)
    case Nil
    then show ?thesis by (simp add: count_sep.simps [of _ "[]"])
  next
    case (Cons d ds)
    note unfold = count_sep.simps [of _ "d # ds"] count_sep.simps [of _ "d # ds @ c # u"]
    have pre: "has_prefix (c # m) (t @ c # u) \<longleftrightarrow> has_prefix (c # m) t"
      using has_prefix_line [OF assms] Cons by blast
    show ?thesis
    proof (cases "has_prefix (c # m) t")
      case True
      then have "length (c # m) \<le> length t" by (auto simp: has_prefix_conv)
      then have "drop (length (c # m)) (t @ c # u) = drop (length (c # m)) t @ c # u" by simp
      with "1"(1) True pre Cons show ?thesis by (simp add: unfold)
    next
      case False
      with "1"(2) pre Cons show ?thesis by (simp add: unfold)
    qed
  qed
qed

lemma count_sep_skip:
  assumes "c \<notin> set w"
  shows "count_sep (c # m) (w @ v) = count_sep (c # m) v"
  using assms by (induction w) (auto simp: count_sep.simps [of _ "_ # _"] has_prefix_def)

lemma newline_marker: "newline \<notin> set pemBeginMarker" "pemBeginMarker \<noteq> []"
  by (simp_all add: pemBeginMarker_def)

lemma count_sep_newlines:
  "count_sep (newline # pemBeginMarker) (replicate (Suc n) newline @ s) =
     (if has_prefix pemBeginMarker s then Suc else id) (count_sep (newline # pemBeginMarker) s)"
proof (induction n)
  case 0
  show ?case
  proof (cases "has_prefix pemBeginMarker s")
    case True
    then obtain v where "s = pemBeginMarker @ v" by (auto simp: has_prefix_conv)
    then show ?thesis
      by (simp add: count_sep.simps [of _ "newline # _"] has_prefix_def count_sep_skip [OF newline_marker(1)])
  next
    case False
    then show ?thesis by (simp add: count_sep.simps [of _ "newline # _"] has_prefix_def)
  qed
next
  case (Suc n)
  have "\<not> has_prefix pemBeginMarker (newline # replicate n newline @ s)"
    by (simp add: has_prefix_def pemBeginMarker_def)
  with Suc show ?case
    by (simp add: count_sep.simps [of _ "newline # newline # _"] has_prefix_def)
qed

lemma beginMarkers_body:
  assumes "ts \<noteq> []" and "list_all2 (certificate_text x) (map fst ts) cs"
  shows "beginMarkers (pem_body ts) = length ts \<and> has_prefix pemBeginMarker (pem_body ts)"
  using assms
proof (induction ts arbitrary: cs rule: pem_body.induct)
  case (2 t n)
  then show ?case by (auto simp: list_all2_Cons1 certificate_text_def beginMarkers_def)
next
  case (3 t n u ts)
  from "3.prems"(2) obtain c cs' where c: "certificate_text x t c"
    and rest: "list_all2 (certificate_text x) (map fst (u # ts)) cs'" by (auto simp: list_all2_Cons1)
  have IH: "beginMarkers (pem_body (u # ts)) = length (u # ts)" "has_prefix pemBeginMarker (pem_body (u # ts))"
    using "3.IH" [OF _ rest] by simp_all
  have "has_prefix pemBeginMarker (pem_body ((t, n) # u # ts))"
    using c by (auto simp: certificate_text_def has_prefix_conv)
  moreover have "count_sep (newline # pemBeginMarker) (pem_body ((t, n) # u # ts)) =
      Suc (count_sep (newline # pemBeginMarker) (pem_body (u # ts)))"
    using c IH(2) count_sep_line [OF newline_marker(1), of t "replicate n newline @ pem_body (u # ts)"]
      count_sep_newlines [of n "pem_body (u # ts)"]
    by (simp add: certificate_text_def)
  ultimately show ?case using IH by (simp add: beginMarkers_def)
qed simp

section \<open>Reading such a file\<close>

text \<open>A block is accepted if and only if its certificate is one a bundle admits.\<close>

lemma decodeBlock_text:
  assumes "certificate_text x t c"
    and "rest = t \<and> remainder = [] \<or> rest = t @ newline # remainder"
  shows "if admissible_root c then decodeBlock x rest n = Inr (c, remainder)
    else \<exists>e. decodeBlock x rest n = Inl e"
proof -
  obtain b where b: "pem_type b = certificatePEMType" "pem_headers b = []"
    "ext_parse_certificate x (pem_bytes b) = Inr c" "ext_pem_decode x rest = Some (b, remainder)"
    and pre: "has_prefix pemBeginMarker rest"
    using assms by (fastforce simp: certificate_text_def has_prefix_conv)
  have "bundleCertificate x b = Inr c' \<longleftrightarrow> c' = c \<and> admissible_root c" for c'
    using b by (auto simp: bundleCertificate_ok)
  then show ?thesis
    using b(4) pre by (cases "bundleCertificate x b") (auto simp: decodeBlock_def)
qed

lemma pem_body_Cons:
  "pem_body ((t, n) # ts) = t \<and> ts = [] \<or>
   pem_body ((t, n) # ts) = t @ newline # (replicate n newline @ pem_body ts) \<and> ts \<noteq> []"
  by (cases ts) auto

lemma TrimSpace_Nil: "TrimSpace [] = []"
  using length_TrimSpace [of "[]"] by simp

lemma parseBlocks_body:
  assumes "list_all2 (certificate_text x) (map fst ts) cs" and "ps_rest st = pem_body ts"
  shows "if distinct (map cert_raw cs) \<and> cert_raw ` set cs \<inter> set (ps_seen st) = {} \<and> list_all admissible_root cs
    then \<exists>st'. parseBlocks x st = Some (Inr st') \<and> ps_roots st' = ps_roots st @ cs
    else \<exists>e. parseBlocks x st = Some (Inl e)"
  using assms
proof (induction ts arbitrary: cs st)
  case Nil
  then show ?case by (subst parseBlocks.simps) simp
next
  case (Cons u ts)
  obtain t n where u: "u = (t, n)" by fastforce
  from Cons.prems(1) u obtain c cs' where cs: "cs = c # cs'" and c: "certificate_text x t c"
    and rest: "list_all2 (certificate_text x) (map fst ts) cs'" by (auto simp: list_all2_Cons1)
  define r where "r = (if ts = [] then [] else replicate n newline @ pem_body ts)"
  have "ps_rest st = t \<and> r = [] \<or> ps_rest st = t @ newline # r"
    using pem_body_Cons [of t n ts] Cons.prems(2) u by (auto simp: r_def)
  note dec = decodeBlock_text [OF c this, of "length (ps_roots st) + 1"]
  have ne: "ps_rest st \<noteq> []"
    using certificate_text_framed [OF c] \<open>ps_rest st = t \<and> r = [] \<or> ps_rest st = t @ newline # r\<close>
    by (auto simp: framed_def)
  have "list_all (framed \<circ> fst) ts"
    using rest certificate_text_framed by (induction ts arbitrary: cs') (auto simp: list_all2_Cons1)
  then have trim: "TrimSpace r = pem_body ts"
    using TrimSpace_pem(2) by (simp add: r_def TrimSpace_Nil)
  show ?case
  proof (cases "admissible_root c \<and> cert_raw c \<notin> set (ps_seen st)")
    case True
    then have "parseBlocks x st = parseBlocks x (next_state st c r)"
      using dec ne by (subst parseBlocks.simps) simp
    moreover have "ps_rest (next_state st c r) = pem_body ts"
      "ps_roots (next_state st c r) = ps_roots st @ [c]"
      "ps_seen (next_state st c r) = cert_raw c # ps_seen st" by (simp_all add: next_state_def trim)
    ultimately show ?thesis
      using Cons.IH [OF rest, of "next_state st c r"] True cs by (auto split: if_splits)
  next
    case False
    then have "\<exists>e. parseBlocks x st = Some (Inl e)"
      using dec ne by (subst parseBlocks.simps) (auto split: if_splits)
    with False cs show ?thesis by auto
  qed
qed

lemma parseTrustBundle_file:
  assumes "list_all2 (certificate_text x) (map fst ts) cs"
  shows "if cs \<noteq> [] \<and> distinct (map cert_raw cs) \<and> list_all admissible_root cs
    then parseTrustBundle x (pem_file ts) = Some (Inr \<lparr>bundle_roots = cs, bundle_earliestExpiry = expiry_of zero_time cs\<rparr>)
    else \<exists>e. parseTrustBundle x (pem_file ts) = Some (Inl e)"
proof -
  let ?st = "\<lparr>ps_rest = pem_body ts, ps_roots = [], ps_earliestExpiry = zero_time, ps_seen = []\<rparr>"
  have len: "length ts = length cs" using assms by (auto dest: list_all2_lengthD)
  have "list_all (framed \<circ> fst) ts"
    using assms certificate_text_framed by (induction ts arbitrary: cs) (auto simp: list_all2_Cons1)
  then have trim: "TrimSpace (pem_file ts) = pem_body ts"
    using TrimSpace_pem(1) by (cases "ts = []") (simp_all add: TrimSpace_Nil)
  note blocks = parseBlocks_body [OF assms, of ?st]
  show ?thesis
  proof (cases "distinct (map cert_raw cs) \<and> list_all admissible_root cs")
    case True
    then obtain st where st: "parseBlocks x ?st = Some (Inr st)" "ps_roots st = cs" using blocks by auto
    have "bundle_inv ?st" by (simp add: bundle_inv_def)
    with parseBlocks_inv [OF st(1)] have "ps_earliestExpiry st = expiry_of zero_time cs"
      by (simp add: bundle_inv_def st(2))
    moreover have "cs \<noteq> [] \<Longrightarrow> beginMarkers (pem_body ts) = length cs"
      using beginMarkers_body [OF _ assms] len by fastforce
    ultimately show ?thesis using st True by (auto simp: parseTrustBundle_def Let_def trim)
  next
    case False
    with blocks show ?thesis by (auto simp: parseTrustBundle_def Let_def trim)
  qed
qed

lemma foldl_AddCert_distinct:
  assumes "distinct (map cert_raw (pool @ cs))"
  shows "foldl AddCert pool cs = pool @ cs"
  using assms by (induction cs arbitrary: pool) (auto simp: AddCert_def)

lemma pool_of_distinct: "distinct (map cert_raw cs) \<Longrightarrow> pool_of cs = cs"
  using foldl_AddCert_distinct [of "[]" cs] by (simp add: pool_of_def)

section \<open>A concrete instance\<close>

text \<open>A block is its begin marker, one byte that names a certificate, and a dash, on a line of its own.\<close>

definition framed_pem_decode :: "string \<Rightarrow> (pem_block \<times> string) option" where
  "framed_pem_decode s =
     (if has_prefix pemBeginMarker s \<and> 13 \<le> length s
      then Some (\<lparr>pem_type = ''CERTIFICATE'', pem_headers = [], pem_bytes = [s ! 11]\<rparr>,
                 (case drop 13 s of [] \<Rightarrow> [] | c # rest \<Rightarrow> if c = newline then rest else c # rest))
      else None)"

definition framed_text :: "char \<Rightarrow> string" where
  "framed_text c = pemBeginMarker @ [c, CHR ''-'']"

definition framed_externals :: externals where
  "framed_externals = sample_externals\<lparr>
     ext_read_file := (\<lambda>p. Inr (pem_file [(framed_text (CHR ''A''), 2), (framed_text (CHR ''B''), 0)])),
     ext_pem_decode := framed_pem_decode\<rparr>"

lemma framed_externals_text:
  assumes "c \<noteq> newline"
  shows "certificate_text framed_externals (framed_text c) (sample_root [c])"
proof -
  have "count_sep (newline # pemBeginMarker) (framed_text c) = 0"
    using count_sep_skip [of newline "framed_text c" pemBeginMarker "[]"] assms newline_marker(1)
    by (simp add: framed_text_def count_sep.simps [of _ "[]"])
  then show ?thesis
    by (simp add: certificate_text_def framed_externals_def sample_externals_def framed_pem_decode_def
        framed_text_def certificatePEMType_def has_prefix_def pemBeginMarker_def exI [of _
          "\<lparr>pem_type = ''CERTIFICATE'', pem_headers = [], pem_bytes = [c]\<rparr>"])
qed

section \<open>Properties\<close>

text \<open>
  C33. Round trip of a trust bundle. A file that holds the texts of some certificates, one after the other
  with any blank lines between, yields an authenticator exactly when it names a root, no root twice, and
  only certificates that may sign in this trust domain. The authenticator then trusts those certificates,
  all of them and in the order of the file, with the tolerance of two minutes, and its one log line
  gives their number and the earliest of their expiries.
\<close>

theorem bundle_file_anchors:
  assumes "list_all2 (certificate_text x) (map fst ts) cs"
    and "ext_read_file x (Clean path) = Inr (pem_file ts)"
    and "list_all (\<lambda>c. cert_notAfter c \<noteq> zero_time) cs"
  shows "NewAuthenticator x path lg = Some (lines, Inr au) \<longleftrightarrow>
      cs \<noteq> [] \<and> distinct (map cert_raw cs) \<and> list_all admissible_root cs
      \<and> auth_verifier au = \<lparr>verifier_bundle = Some cs, verifier_skew = 120000000000\<rparr>
      \<and> auth_logger au = OrDiscard lg
      \<and> lines = log_attrs (OrDiscard lg) LevelInfo ''trust bundle loaded''
          [(''path'', AStr path), (''roots'', AInt (int (length cs))),
           (''expires'', ATime (Min (cert_notAfter ` set cs)))]"
proof (cases "cs \<noteq> [] \<and> distinct (map cert_raw cs) \<and> list_all admissible_root cs")
  case True
  with parseTrustBundle_file [OF assms(1)]
  have "loadTrustBundle x path = Some (Inr \<lparr>bundle_roots = cs, bundle_earliestExpiry = expiry_of zero_time cs\<rparr>)"
    by (simp add: loadTrustBundle_def assms(2))
  moreover have "expiry_of zero_time cs = Min (cert_notAfter ` set cs)"
    using expiry_of_Min True assms(3) by (simp add: list_all_iff)
  ultimately show ?thesis
    using True by (cases au) (auto simp: NewAuthenticator_from_bundle pool_of_distinct)
next
  case False
  with parseTrustBundle_file [OF assms(1)] obtain e where "parseTrustBundle x (pem_file ts) = Some (Inl e)"
    by auto
  then show ?thesis using False by (auto simp: NewAuthenticator_from_bundle loadTrustBundle_def assms(2))
qed

theorem bundle_file_anchors_witness:
  "\<exists>lines au. NewAuthenticator framed_externals ''ca.crt'' None = Some (lines, Inr au)
     \<and> verifier_bundle (auth_verifier au) = Some [sample_root ''A'', sample_root ''B'']"
proof -
  define ts where "ts = [(framed_text (CHR ''A''), 2), (framed_text (CHR ''B''), 0 :: nat)]"
  define cs where "cs = [sample_root ''A'', sample_root ''B'']"
  have texts: "list_all2 (certificate_text framed_externals) (map fst ts) cs"
    by (simp add: framed_externals_text ts_def cs_def)
  have read: "ext_read_file framed_externals (Clean ''ca.crt'') = Inr (pem_file ts)"
    by (simp add: framed_externals_def ts_def)
  have after: "list_all (\<lambda>c. cert_notAfter c \<noteq> zero_time) cs"
    by (simp add: sample_root_def zero_time_def cs_def)
  have "list_all admissible_root cs"
    by (simp add: cs_def admissible_root_def [abs_def] signer_in_domain_def conformant_signer_def sample_root_def
        KeyUsageCertSign_def KeyUsageCRLSign_def)
  moreover have "cs \<noteq> []" "distinct (map cert_raw cs)" by (simp_all add: cs_def sample_root_def)
  ultimately have "\<exists>lines au. NewAuthenticator framed_externals ''ca.crt'' None = Some (lines, Inr au)
      \<and> verifier_bundle (auth_verifier au) = Some cs"
    unfolding bundle_file_anchors [OF texts read after]
    by (auto intro!: exI [of _ "\<lparr>auth_verifier = \<lparr>verifier_bundle = Some cs, verifier_skew = 120000000000\<rparr>,
      auth_logger = OrDiscard None\<rparr>"])
  then show ?thesis by (simp add: cs_def)
qed

end
