(* ===== verification/Test_Pki.thy ===== *)
theory Test_Pki
  imports Bundle_Text Authz
begin

text \<open>
  \<open>internal/testpki\<close>: the certificates, keys and roles files the tests are written against. A
  constructor threads what it changes: how much of the random source and how many temporary directories
  it has used, and the files it has written. It fails the test instead of returning an error, with the
  message and the error it reports. The cryptography, the encodings and the operating system are the
  parameter \<open>lib\<close>, whose type of private keys is open.
\<close>

section \<open>What the standard library is asked for\<close>

text \<open>\<open>pkix.Name\<close> and \<open>x509.Certificate\<close> as a template: every field the code sets.\<close>

record name =
  nm_Country :: "string list"
  nm_Organization :: "string list"
  nm_OrganizationalUnit :: "string list"
  nm_Locality :: "string list"
  nm_Province :: "string list"
  nm_StreetAddress :: "string list"
  nm_PostalCode :: "string list"
  nm_SerialNumber :: string
  nm_CommonName :: string
  nm_Names :: "(nat list \<times> string) list"
  nm_ExtraNames :: "(nat list \<times> string) list"

text \<open>Identities, signatures and names of the template.\<close>

record template_head =
  t_SerialNumber :: int
  t_Raw :: string
  t_RawTBSCertificate :: string
  t_RawSubjectPublicKeyInfo :: string
  t_RawSubject :: string
  t_RawIssuer :: string
  t_Signature :: string
  t_SignatureAlgorithm :: nat
  t_PublicKeyAlgorithm :: nat
  t_PublicKey :: "public_key option"
  t_Version :: int
  t_Issuer :: name
  t_Subject :: name

text \<open>Validity, usages and basic constraints.\<close>

record template_usage = template_head +
  t_NotBefore :: int
  t_NotAfter :: int
  t_KeyUsage :: "64 word"
  t_Extensions :: "(nat list \<times> bool \<times> string) list"
  t_ExtraExtensions :: "(nat list \<times> bool \<times> string) list"
  t_UnhandledCriticalExtensions :: "nat list list"
  t_ExtKeyUsage :: "ext_key_usage list"
  t_UnknownExtKeyUsage :: "nat list list"
  t_BasicConstraintsValid :: bool
  t_IsCA :: bool
  t_MaxPathLen :: int
  t_MaxPathLenZero :: bool
  t_SubjectKeyId :: string
  t_AuthorityKeyId :: string

text \<open>Locations, alternative names, name constraints and policies.\<close>

record template = template_usage +
  t_OCSPServer :: "string list"
  t_IssuingCertificateURL :: "string list"
  t_DNSNames :: "string list"
  t_EmailAddresses :: "string list"
  t_IPAddresses :: "string list"
  t_URIs :: "string list"
  t_PermittedDNSDomainsCritical :: bool
  t_PermittedDNSDomains :: "string list"
  t_ExcludedDNSDomains :: "string list"
  t_PermittedIPRanges :: "string list"
  t_ExcludedIPRanges :: "string list"
  t_PermittedEmailAddresses :: "string list"
  t_ExcludedEmailAddresses :: "string list"
  t_PermittedURIDomains :: "string list"
  t_ExcludedURIDomains :: "string list"
  t_CRLDistributionPoints :: "string list"
  t_PolicyIdentifiers :: "nat list list"
  t_Policies :: "nat list list"
  t_InhibitAnyPolicy :: int
  t_InhibitAnyPolicyZero :: bool
  t_InhibitPolicyMapping :: int
  t_InhibitPolicyMappingZero :: bool
  t_RequireExplicitPolicy :: int
  t_RequireExplicitPolicyZero :: bool
  t_PolicyMappings :: "(nat list \<times> nat list) list"

text \<open>The certificate a new one is signed by: the template itself, or one that exists.\<close>

datatype issuer = Itself | SignedBy certificate

record 'k pki_lib =
  lib_random_int :: "nat \<Rightarrow> int \<Rightarrow> int result"   \<comment> \<open>\<open>rand.Int\<close>, below a bound, at a point of the random source\<close>
  lib_ecdsa_key :: "nat \<Rightarrow> curve \<Rightarrow> 'k result"     \<comment> \<open>\<open>ecdsa.GenerateKey\<close>\<close>
  lib_rsa_key :: "nat \<Rightarrow> nat \<Rightarrow> 'k result"         \<comment> \<open>\<open>rsa.GenerateKey\<close>\<close>
  lib_public :: "'k \<Rightarrow> public_key"
  lib_create :: "nat \<Rightarrow> template \<Rightarrow> issuer \<Rightarrow> public_key \<Rightarrow> 'k \<Rightarrow> string result"
                                                     \<comment> \<open>\<open>x509.CreateCertificate\<close>\<close>
  lib_parse_certificate :: "string \<Rightarrow> certificate result"
  lib_parse_url :: "string \<Rightarrow> string result"         \<comment> \<open>\<open>url.Parse\<close>, and \<open>String\<close> of what it returns\<close>
  lib_marshal_key :: "'k \<Rightarrow> string result"           \<comment> \<open>\<open>x509.MarshalPKCS8PrivateKey\<close>\<close>
  lib_pem_encode :: "pem_block \<Rightarrow> string"
  lib_marshal_json :: "(string \<times> string) list \<Rightarrow> string result"
  lib_temp_dir :: "nat \<Rightarrow> string"
  lib_write_file :: "string \<Rightarrow> string \<Rightarrow> nat \<Rightarrow> go_error option"   \<comment> \<open>\<open>os.WriteFile\<close>: path, data, mode\<close>

section \<open>Constructors that may fail the test\<close>

record pki_state =
  pk_draws :: nat
  pk_dirs :: nat
  pk_files :: "string \<Rightarrow> string option"

datatype fatal = Fatal string go_error

type_synonym 'a test = "pki_state \<Rightarrow> fatal + 'a \<times> pki_state"

definition return :: "'a \<Rightarrow> 'a test" where
  "return a s = Inr (a, s)"

definition and_then :: "'a test \<Rightarrow> ('a \<Rightarrow> 'b test) \<Rightarrow> 'b test" where
  "and_then m f s = (case m s of Inl e \<Rightarrow> Inl e | Inr (a, s') \<Rightarrow> f a s')"

definition must :: "string \<Rightarrow> 'a result \<Rightarrow> 'a test" where
  "must msg r s = (case r of Inl e \<Rightarrow> Inl (Fatal msg e) | Inr a \<Rightarrow> Inr (a, s))"

text \<open>A result that reads the random source, and moves it on.\<close>

definition drawn :: "(nat \<Rightarrow> 'a result) \<Rightarrow> string \<Rightarrow> 'a test" where
  "drawn f msg s = must msg (f (pk_draws s)) (s\<lparr>pk_draws := Suc (pk_draws s)\<rparr>)"

definition TempDir :: "'k pki_lib \<Rightarrow> string test" where
  "TempDir lib s = Inr (lib_temp_dir lib (pk_dirs s), s\<lparr>pk_dirs := Suc (pk_dirs s)\<rparr>)"

lemma and_then_ok: "and_then m f s = Inr r \<longleftrightarrow> (\<exists>a t. m s = Inr (a, t) \<and> f a t = Inr r)"
  by (auto simp: and_then_def split: sum.splits prod.splits)

lemma must_ok: "must msg r s = Inr (a, t) \<longleftrightarrow> r = Inr a \<and> t = s"
  by (auto simp: must_def split: sum.splits)

lemma drawn_ok: "drawn f msg s = Inr (a, t) \<longleftrightarrow> f (pk_draws s) = Inr a \<and> t = s\<lparr>pk_draws := Suc (pk_draws s)\<rparr>"
  by (auto simp: drawn_def must_ok)

lemmas test_ok = and_then_ok must_ok drawn_ok return_def

section \<open>Options\<close>

definition pki_certificatePEMType :: string where "pki_certificatePEMType = ''CERTIFICATE''"
definition privateKeyPEMType :: string where "privateKeyPEMType = ''PRIVATE KEY''"
definition keyFileMode :: nat where "keyFileMode = 6 * 64"
definition rsaBits :: nat where "rsaBits = 2048"
definition serialNumberBits :: nat where "serialNumberBits = 128"
definition authorityValidity :: int where "authorityValidity = 24 * 3600 * 1000000000"
definition leafValidity :: int where "leafValidity = 3600 * 1000000000"

record 'k authority =
  au_Certificate :: certificate
  au_Key :: 'k

record authority_options =
  ao_URIs :: "string list"
  ao_IsCA :: bool
  ao_KeyUsage :: "64 word"
  ao_NotBefore :: int
  ao_NotAfter :: int

text \<open>The clock is read twice, once for each end of the validity.\<close>

definition NewAuthorityOptions :: "int \<Rightarrow> int \<Rightarrow> authority_options" where
  "NewAuthorityOptions now now' =
     \<lparr>ao_URIs = [], ao_IsCA = True, ao_KeyUsage = KeyUsageCertSign OR KeyUsageCRLSign,
      ao_NotBefore = now + (- authorityValidity), ao_NotAfter = now' + authorityValidity\<rparr>"

record leaf_options =
  lo_URIs :: "string list"
  lo_IsCA :: bool
  lo_KeyUsage :: "64 word"
  lo_ExtKeyUsage :: "ext_key_usage list"
  lo_Curve :: curve
  lo_UseRSA :: bool
  lo_NotBefore :: int
  lo_NotAfter :: int

definition NewLeafOptions :: "int \<Rightarrow> int \<Rightarrow> string list \<Rightarrow> leaf_options" where
  "NewLeafOptions now now' uris =
     \<lparr>lo_URIs = uris, lo_IsCA = False, lo_KeyUsage = KeyUsageDigitalSignature,
      lo_ExtKeyUsage = [ExtKeyUsageServerAuth, ExtKeyUsageClientAuth], lo_Curve = P256, lo_UseRSA = False,
      lo_NotBefore = now + (- leafValidity), lo_NotAfter = now' + leafValidity\<rparr>"

section \<open>Keys, templates and signing\<close>

definition ecdsaPrivateKey :: "'k pki_lib \<Rightarrow> curve \<Rightarrow> 'k test" where
  "ecdsaPrivateKey lib crv = drawn (\<lambda>n. lib_ecdsa_key lib n crv) ''testpki: ecdsa generate key: ''"

definition rsaPrivateKey :: "'k pki_lib \<Rightarrow> 'k test" where
  "rsaPrivateKey lib = drawn (\<lambda>n. lib_rsa_key lib n rsaBits) ''testpki: rsa generate key: ''"

fun parseURIs :: "'k pki_lib \<Rightarrow> string list \<Rightarrow> string list test" where
  "parseURIs lib [] = return []"
| "parseURIs lib (each # raw) =
     and_then (must (''testpki: parse uri ['' @ each @ '']: '') (lib_parse_url lib each)) (\<lambda>uri.
     and_then (parseURIs lib raw) (\<lambda>uris. return (uri # uris)))"

definition randomSerialNumber :: "'k pki_lib \<Rightarrow> int test" where
  "randomSerialNumber lib =
     drawn (\<lambda>n. lib_random_int lib n (2 ^ serialNumberBits)) ''testpki: random serial number: ''"

definition newName :: name where
  "newName =
     \<lparr>nm_Country = [], nm_Organization = [], nm_OrganizationalUnit = [], nm_Locality = [],
      nm_Province = [], nm_StreetAddress = [], nm_PostalCode = [], nm_SerialNumber = '''',
      nm_CommonName = '''', nm_Names = [], nm_ExtraNames = []\<rparr>"

definition newTemplate :: "'k pki_lib \<Rightarrow> template test" where
  "newTemplate lib =
     and_then (randomSerialNumber lib) (\<lambda>serial. return
       \<lparr>t_SerialNumber = serial, t_Raw = [], t_RawTBSCertificate = [], t_RawSubjectPublicKeyInfo = [],
        t_RawSubject = [], t_RawIssuer = [], t_Signature = [], t_SignatureAlgorithm = 0,
        t_PublicKeyAlgorithm = 0, t_PublicKey = None, t_Version = 0, t_Issuer = newName,
        t_Subject = newName, t_NotBefore = zero_time, t_NotAfter = zero_time, t_KeyUsage = 0,
        t_Extensions = [], t_ExtraExtensions = [], t_UnhandledCriticalExtensions = [],
        t_ExtKeyUsage = [], t_UnknownExtKeyUsage = [], t_BasicConstraintsValid = False, t_IsCA = False,
        t_MaxPathLen = 0, t_MaxPathLenZero = False, t_SubjectKeyId = [], t_AuthorityKeyId = [],
        t_OCSPServer = [], t_IssuingCertificateURL = [], t_DNSNames = [], t_EmailAddresses = [],
        t_IPAddresses = [], t_URIs = [], t_PermittedDNSDomainsCritical = False,
        t_PermittedDNSDomains = [], t_ExcludedDNSDomains = [], t_PermittedIPRanges = [],
        t_ExcludedIPRanges = [], t_PermittedEmailAddresses = [], t_ExcludedEmailAddresses = [],
        t_PermittedURIDomains = [], t_ExcludedURIDomains = [], t_CRLDistributionPoints = [],
        t_PolicyIdentifiers = [], t_Policies = [], t_InhibitAnyPolicy = 0, t_InhibitAnyPolicyZero = False,
        t_InhibitPolicyMapping = 0, t_InhibitPolicyMappingZero = False, t_RequireExplicitPolicy = 0,
        t_RequireExplicitPolicyZero = False, t_PolicyMappings = []\<rparr>)"

definition sign :: "'k pki_lib \<Rightarrow> template \<Rightarrow> issuer \<Rightarrow> public_key \<Rightarrow> 'k \<Rightarrow> certificate test" where
  "sign lib template parent publicKey signerKey =
     and_then (drawn (\<lambda>n. lib_create lib n template parent publicKey signerKey)
                 ''testpki: create certificate: '') (\<lambda>der.
     must ''testpki: parse certificate: '' (lib_parse_certificate lib der))"

section \<open>Issuing\<close>

text \<open>An authority is signed by its parent, or by itself when it has none.\<close>

definition signAuthority :: "'k pki_lib \<Rightarrow> 'k authority option \<Rightarrow> authority_options \<Rightarrow> 'k authority test" where
  "signAuthority lib parent opts =
     and_then (ecdsaPrivateKey lib P256) (\<lambda>key.
     and_then (newTemplate lib) (\<lambda>blank.
     and_then (parseURIs lib (ao_URIs opts)) (\<lambda>uris.
       let template = blank\<lparr>t_Subject := (t_Subject blank)\<lparr>nm_CommonName := ''test authority''\<rparr>,
             t_NotBefore := ao_NotBefore opts, t_NotAfter := ao_NotAfter opts, t_IsCA := ao_IsCA opts,
             t_BasicConstraintsValid := True, t_KeyUsage := ao_KeyUsage opts, t_URIs := uris\<rparr>;
           (signerCertificate, signerKey) =
             (case parent of
                None \<Rightarrow> (Itself, key)
              | Some p \<Rightarrow> (SignedBy (au_Certificate p), au_Key p))
       in and_then (sign lib template signerCertificate (lib_public lib key) signerKey) (\<lambda>c.
          return \<lparr>au_Certificate = c, au_Key = key\<rparr>))))"

definition NewAuthority :: "'k pki_lib \<Rightarrow> authority_options \<Rightarrow> 'k authority test" where
  "NewAuthority lib opts = signAuthority lib None opts"

definition NewIntermediate :: "'k pki_lib \<Rightarrow> 'k authority \<Rightarrow> authority_options \<Rightarrow> 'k authority test" where
  "NewIntermediate lib parent opts = signAuthority lib (Some parent) opts"

definition NewLeaf :: "'k pki_lib \<Rightarrow> 'k authority \<Rightarrow> leaf_options \<Rightarrow> (certificate \<times> 'k) test" where
  "NewLeaf lib parent opts =
     and_then (newTemplate lib) (\<lambda>blank.
     and_then (parseURIs lib (lo_URIs opts)) (\<lambda>uris.
       let template = blank\<lparr>t_NotBefore := lo_NotBefore opts, t_NotAfter := lo_NotAfter opts,
             t_IsCA := lo_IsCA opts, t_BasicConstraintsValid := True, t_KeyUsage := lo_KeyUsage opts,
             t_ExtKeyUsage := lo_ExtKeyUsage opts, t_URIs := uris\<rparr>
       in and_then (if lo_UseRSA opts then rsaPrivateKey lib else ecdsaPrivateKey lib (lo_Curve opts)) (\<lambda>key.
          and_then (sign lib template (SignedBy (au_Certificate parent)) (lib_public lib key) (au_Key parent)) (\<lambda>c.
          return (c, key)))))"

section \<open>Files\<close>

text \<open>\<open>filepath.Join\<close> of two elements: an empty one is left out, and what is joined is cleaned.\<close>

definition Join :: "string \<Rightarrow> string \<Rightarrow> string" where
  "Join dir file =
     (if dir = '''' then (if file = '''' then '''' else Clean file) else Clean (dir @ ''/'' @ file))"

definition WriteFile :: "'k pki_lib \<Rightarrow> string \<Rightarrow> string \<Rightarrow> string \<Rightarrow> string test" where
  "WriteFile lib dir file data s =
     (let path = Join dir file
      in case lib_write_file lib path data keyFileMode of
           Some err \<Rightarrow> Inl (Fatal (''testpki: write file ['' @ path @ '']: '') err)
         | None \<Rightarrow> Inr (path, s\<lparr>pk_files := (pk_files s)(path \<mapsto> data)\<rparr>))"

definition CertificatePEM :: "'k pki_lib \<Rightarrow> certificate \<Rightarrow> string" where
  "CertificatePEM lib c =
     lib_pem_encode lib \<lparr>pem_type = pki_certificatePEMType, pem_headers = [], pem_bytes = cert_raw c\<rparr>"

definition WriteCertificate :: "'k pki_lib \<Rightarrow> string \<Rightarrow> string \<Rightarrow> certificate \<Rightarrow> string test" where
  "WriteCertificate lib dir file c = WriteFile lib dir file (CertificatePEM lib c)"

definition WriteKey :: "'k pki_lib \<Rightarrow> string \<Rightarrow> string \<Rightarrow> 'k \<Rightarrow> string test" where
  "WriteKey lib dir file key =
     and_then (must ''testpki: marshal key: '' (lib_marshal_key lib key)) (\<lambda>der.
     WriteFile lib dir file
       (lib_pem_encode lib \<lparr>pem_type = privateKeyPEMType, pem_headers = [], pem_bytes = der\<rparr>))"

definition NewLeafFiles :: "'k pki_lib \<Rightarrow> 'k authority \<Rightarrow> leaf_options \<Rightarrow> (string \<times> string) test" where
  "NewLeafFiles lib parent opts =
     and_then (TempDir lib) (\<lambda>dir.
     and_then (NewLeaf lib parent opts) (\<lambda>(c, key).
     and_then (WriteCertificate lib dir ''certificate.crt'' c) (\<lambda>certPath.
     and_then (WriteKey lib dir ''private-key.key'' key) (\<lambda>keyPath.
     return (certPath, keyPath)))))"

text \<open>The roles of the agents as a map: an agent given twice is in it once.\<close>

definition WriteRoles :: "'k pki_lib \<Rightarrow> agent_id list \<Rightarrow> string test" where
  "WriteRoles lib agents =
     and_then (must ''marshal roles: '' (lib_marshal_json lib
       (foldl (\<lambda>m agent. AList.update agent RoleUser m) [] agents))) (\<lambda>encoded.
     and_then (TempDir lib) (\<lambda>dir.
     WriteFile lib dir ''roles.json'' encoded))"

section \<open>What is issued\<close>

text \<open>
  The documented behaviour of the library: \<open>CreateCertificate\<close> takes these fields from the template and
  the key it is given, times to the second, and \<open>ParseCertificate\<close> reads them back; a generated key is
  on the curve asked for. A SPIFFE ID that \<open>url.Parse\<close> accepts is reassembled byte by byte.
\<close>

definition to_second :: "int \<Rightarrow> int" where
  "to_second t = t div 1000000000 * 1000000000"

lemma to_second_bounds: "to_second t \<le> t" "t - 1000000000 < to_second t"
proof -
  have "to_second t = t - t mod 1000000000" by (simp add: to_second_def minus_mod_eq_div_mult)
  then show "to_second t \<le> t" "t - 1000000000 < to_second t"
    using pos_mod_sign [of 1000000000 t] pos_mod_bound [of 1000000000 t] by linarith+
qed

definition as_asked :: "template \<Rightarrow> public_key \<Rightarrow> certificate \<Rightarrow> bool" where
  "as_asked t pk c \<longleftrightarrow> cert_serial c = t_SerialNumber t
     \<and> cert_isCA c = (t_BasicConstraintsValid t \<and> t_IsCA t)
     \<and> (t_KeyUsage t < 512 \<longrightarrow> cert_keyUsage c = t_KeyUsage t)
     \<and> cert_extKeyUsage c = t_ExtKeyUsage t \<and> cert_uris c = t_URIs t
     \<and> cert_notBefore c = to_second (t_NotBefore t) \<and> cert_notAfter c = to_second (t_NotAfter t)
     \<and> cert_publicKey c = pk"

definition issues :: "'k pki_lib \<Rightarrow> bool" where
  "issues lib \<longleftrightarrow>
     (\<forall>n t i pk k der c. lib_create lib n t i pk k = Inr der \<longrightarrow> lib_parse_certificate lib der = Inr c
        \<longrightarrow> as_asked t pk c)
     \<and> (\<forall>n crv k. lib_ecdsa_key lib n crv = Inr k \<longrightarrow> lib_public lib k = ECDSAKey crv)"

definition reassembles :: "'k pki_lib \<Rightarrow> bool" where
  "reassembles lib \<longleftrightarrow> (\<forall>uri i u. Parse uri = Inr i \<longrightarrow> lib_parse_url lib uri = Inr u \<longrightarrow> u = uri)"

lemma parseURIs_ok:
  "parseURIs lib raw s = Inr (uris, t) \<longleftrightarrow> t = s \<and> list_all2 (\<lambda>r u. lib_parse_url lib r = Inr u) raw uris"
  by (induction raw arbitrary: uris) (auto simp: test_ok list_all2_Cons1)

lemma parseURIs_agent:
  assumes "reassembles lib" and "Parse uri = Inr i" and "parseURIs lib [uri] s = Inr (uris, t)"
  shows "uris = [uri]"
  using assms by (auto simp: parseURIs_ok list_all2_Cons1 reassembles_def simp del: parseURIs.simps)

lemma sign_ok:
  assumes "issues lib" and "sign lib template parent pk k s = Inr (c, t)"
  shows "as_asked template pk c"
  using assms by (auto simp: sign_def test_ok issues_def)

lemma usages_small:
  "KeyUsageDigitalSignature < 512" "KeyUsageCertSign OR KeyUsageCRLSign < 512"
  by (simp_all add: KeyUsageDigitalSignature_def KeyUsageCertSign_def KeyUsageCRLSign_def)

lemma NewLeaf_as_asked:
  assumes "issues lib" and "NewLeaf lib parent opts s = Inr ((c, key), s')"
  shows "cert_isCA c = lo_IsCA opts \<and> (lo_KeyUsage opts < 512 \<longrightarrow> cert_keyUsage c = lo_KeyUsage opts)
    \<and> cert_extKeyUsage c = lo_ExtKeyUsage opts
    \<and> (\<exists>t t'. parseURIs lib (lo_URIs opts) t = Inr (cert_uris c, t'))
    \<and> cert_notBefore c = to_second (lo_NotBefore opts) \<and> cert_notAfter c = to_second (lo_NotAfter opts)
    \<and> (\<not> lo_UseRSA opts \<longrightarrow> cert_publicKey c = ECDSAKey (lo_Curve opts))"
proof -
  from assms(2) obtain blank uris k s1 s2 s3 where
    u: "parseURIs lib (lo_URIs opts) s1 = Inr (uris, s2)"
    and k: "(if lo_UseRSA opts then rsaPrivateKey lib else ecdsaPrivateKey lib (lo_Curve opts)) s2 = Inr (k, s3)"
    and c: "sign lib (blank\<lparr>t_NotBefore := lo_NotBefore opts, t_NotAfter := lo_NotAfter opts,
             t_IsCA := lo_IsCA opts, t_BasicConstraintsValid := True, t_KeyUsage := lo_KeyUsage opts,
             t_ExtKeyUsage := lo_ExtKeyUsage opts, t_URIs := uris\<rparr>)
           (SignedBy (au_Certificate parent)) (lib_public lib k) (au_Key parent) s3 = Inr (c, s')"
    by (auto simp: NewLeaf_def test_ok Let_def simp del: parseURIs.simps)
  have "\<not> lo_UseRSA opts \<longrightarrow> lib_public lib k = ECDSAKey (lo_Curve opts)"
    using k assms(1) by (auto simp: ecdsaPrivateKey_def test_ok issues_def)
  with sign_ok [OF assms(1) c] u show ?thesis by (auto simp: as_asked_def)
qed

lemma signAuthority_as_asked:
  assumes "issues lib" and "signAuthority lib parent opts s = Inr (A, s')"
  shows "cert_isCA (au_Certificate A) = ao_IsCA opts
    \<and> (ao_KeyUsage opts < 512 \<longrightarrow> cert_keyUsage (au_Certificate A) = ao_KeyUsage opts)
    \<and> (\<exists>t t'. parseURIs lib (ao_URIs opts) t = Inr (cert_uris (au_Certificate A), t'))"
proof -
  from assms(2) obtain blank uris k s1 s2 s3 c issuer k' where
    u: "parseURIs lib (ao_URIs opts) s1 = Inr (uris, s2)" and A: "au_Certificate A = c"
    and c: "sign lib (blank\<lparr>t_Subject := (t_Subject blank)\<lparr>nm_CommonName := ''test authority''\<rparr>,
             t_NotBefore := ao_NotBefore opts, t_NotAfter := ao_NotAfter opts, t_IsCA := ao_IsCA opts,
             t_BasicConstraintsValid := True, t_KeyUsage := ao_KeyUsage opts, t_URIs := uris\<rparr>)
           issuer (lib_public lib k) k' s3 = Inr (c, s')"
    by (auto simp: signAuthority_def test_ok Let_def simp del: parseURIs.simps split: option.splits)
  from sign_ok [OF assms(1) c] u show ?thesis by (auto simp: as_asked_def A)
qed

text \<open>A certificate issued with the options an authority has by default.\<close>

definition made_by_default :: "'k pki_lib \<Rightarrow> certificate \<Rightarrow> bool" where
  "made_by_default lib c \<longleftrightarrow>
     (\<exists>now now' s A s'. (NewAuthority lib (NewAuthorityOptions now now') s = Inr (A, s')
          \<or> (\<exists>parent. NewIntermediate lib parent (NewAuthorityOptions now now') s = Inr (A, s')))
        \<and> c = au_Certificate A)"

lemma authority_signs:
  assumes "issues lib" and "made_by_default lib c"
  shows "signer_in_domain td c"
proof -
  obtain parent now now' s A s' where "signAuthority lib parent (NewAuthorityOptions now now') s = Inr (A, s')"
    "c = au_Certificate A"
    using assms(2) unfolding made_by_default_def NewAuthority_def NewIntermediate_def by blast
  from signAuthority_as_asked [OF assms(1) this(1)] this(2) usages_small(2)
  show ?thesis
    by (auto simp: NewAuthorityOptions_def return_def signer_in_domain_def conformant_signer_def
        KeyUsageCertSign_def KeyUsageCRLSign_def bit_simps)
qed

lemma default_leaf:
  assumes "issues lib" and "reassembles lib" and "valid_agent_id a"
    and "NewLeaf lib parent (NewLeafOptions now now' [agent_uri a]) s = Inr ((c, key), s')"
  shows "conformant_leaf c \<and> issued_by_policy c \<and> cert_uris c = [agent_uri a]"
proof -
  obtain i where "Parse (agent_uri a) = Inr i" using agent_uri_parses [OF assms(3)] by blast
  with NewLeaf_as_asked [OF assms(1,4)] parseURIs_agent [OF assms(2)] usages_small(1)
  show ?thesis
    by (auto simp: NewLeafOptions_def conformant_leaf_def issued_by_policy_def KeyUsageDigitalSignature_def
        simp del: parseURIs.simps)
qed

section \<open>Roles\<close>

text \<open>A file written is there, and nothing else has changed.\<close>

lemma WriteFile_ok:
  "WriteFile lib dir file data s = Inr (path, s') \<longleftrightarrow>
     path = Join dir file \<and> lib_write_file lib path data keyFileMode = None \<and> s' = s\<lparr>pk_files := (pk_files s)(path \<mapsto> data)\<rparr>"
  by (auto simp: WriteFile_def Let_def split: option.splits)

text \<open>
  The certificate of an authority issued by default, written to a file that the operating system and
  \<open>pem.Decode\<close> read back, is a trust bundle: the authenticator built from it anchors to that authority
  alone.
\<close>

lemma WriteCertificate_anchors:
  assumes "issues lib" and "made_by_default lib c" and "cert_notAfter c \<noteq> zero_time"
    and "WriteCertificate lib dir file c s = Inr (path, s')"
    and "ext_read_file x (Clean path) = (case pk_files s' path of Some d \<Rightarrow> Inr d | None \<Rightarrow> Inl (Foreign ''no file''))"
    and "CertificatePEM lib c = t @ [newline]" and "certificate_text x t c"
  shows "\<exists>lines au. NewAuthenticator x path lg = Some (lines, Inr au)
    \<and> auth_verifier au = \<lparr>verifier_bundle = Some [c], verifier_skew = 120000000000\<rparr>"
proof -
  have "ext_read_file x (Clean path) = Inr (pem_file [(t, 0)])"
    using assms(4-6) by (auto simp: WriteCertificate_def WriteFile_ok)
  moreover have "list_all2 (certificate_text x) (map fst [(t, 0 :: nat)]) [c]" using assms(7) by simp
  ultimately have "loadTrustBundle x path = Some (Inr \<lparr>bundle_roots = [c], bundle_earliestExpiry = cert_notAfter c\<rparr>)"
    using parseTrustBundle_file [of x "[(t, 0)]" "[c]"] authority_signs [OF assms(1,2)] assms(3)
    by (simp add: loadTrustBundle_def admissible_root_def)
  then show ?thesis by (simp add: NewAuthenticator_from_bundle pool_of_distinct)
qed

lemma map_of_user_map:
  "map_of (foldl (\<lambda>m agent. AList.update agent RoleUser m) [] agents) a =
     (if a \<in> set agents then Some RoleUser else None)"
  by (simp add: map_of_foldl_user)

text \<open>
  The roles file of some valid agents, read back as the JSON of that map, is loaded and authorizes
  exactly them, for the actions of a user.
\<close>

lemma WriteRoles_authorizes:
  assumes "WriteRoles lib agents s = Inr (path, s')" and "agents \<noteq> []" and "list_all valid_agent_id agents"
    and "ext_read_file x (Clean path) = (case pk_files s' path of Some d \<Rightarrow> Inr d | None \<Rightarrow> Inl (Foreign ''no file''))"
    and json: "\<And>m d. lib_marshal_json lib m = Inr d \<Longrightarrow>
      \<exists>members. ext_json_members x d = Inr members \<and> map fst members = map fst m
        \<and> (\<forall>a raw. (a, raw) \<in> set members \<longrightarrow> map_of m a \<noteq> None \<longrightarrow> ext_json_string x raw = Inr (the (map_of m a)))"
  shows "\<exists>r. Load x path = Inr r \<and> (\<forall>a act. Authorize r a act = Inr () \<longleftrightarrow> a \<in> set agents
    \<and> act \<in> {ActionStart, ActionStop, ActionGetStatus, ActionStreamOutput})"
proof -
  let ?m = "foldl (\<lambda>m agent. AList.update agent RoleUser m) [] agents"
  obtain enc where enc: "lib_marshal_json lib ?m = Inr enc" and f: "pk_files s' path = Some enc"
    using assms(1) by (auto simp: WriteRoles_def test_ok WriteFile_ok TempDir_def)
  obtain members where mem: "ext_json_members x enc = Inr members" "map fst members = map fst ?m"
    "\<And>a raw. (a, raw) \<in> set members \<Longrightarrow> map_of ?m a \<noteq> None \<Longrightarrow> ext_json_string x raw = Inr (the (map_of ?m a))"
    using json [OF enc] by blast
  have keys: "fst ` set members = set agents"
  proof -
    have "fst ` set members = dom (map_of ?m)"
      using arg_cong [OF mem(2), of set] by (simp add: dom_map_of_conv_image_fst)
    also have "\<dots> = set agents" by (auto simp: map_of_user_map split: if_splits)
    finally show ?thesis .
  qed
  have "admits x (decode_map members) a" if "a \<in> set agents" for a
  proof -
    have "a \<in> dom (map_of (rev members))" using that keys by (simp only: dom_map_of_rev)
    then obtain raw where raw: "map_of (rev members) a = Some raw" by blast
    then have "(a, raw) \<in> set members" using map_of_SomeD [OF raw] by simp
    with mem(3) that have "ext_json_string x raw = Inr RoleUser" by (simp add: map_of_user_map)
    with raw that assms(3) show ?thesis by (simp add: admits_def map_of_decode_map list_all_iff)
  qed
  moreover have "members \<noteq> []" using keys assms(2) by auto
  moreover have "ext_read_file x (Clean path) = Inr enc" using assms(4) f by simp
  ultimately obtain r where r: "Load x path = Inr r" using mem(1) keys unfolding Load_ok by blast
  from Load_authorizes [OF r \<open>ext_read_file x (Clean path) = Inr enc\<close> mem(1)] r keys show ?thesis
    by (intro exI [of _ r]) simp
qed

section \<open>A library to look at\<close>

text \<open>A key is its public key, and only the certificate of the sample agent is ever created.\<close>

definition sample_lib :: "public_key pki_lib" where
  "sample_lib =
     \<lparr>lib_random_int = (\<lambda>n bound. Inr 26), lib_ecdsa_key = (\<lambda>n crv. Inr (ECDSAKey crv)),
      lib_rsa_key = (\<lambda>n bits. Inr (OtherKey ''rsa'')), lib_public = id,
      lib_create = (\<lambda>n t i pk k.
        if as_asked t pk (sample_leaf (agent_uri ''smith'')\<lparr>cert_notAfter := 7200 * 1000000000\<rparr>) then Inr ''leaf''
        else Inl (Foreign ''not this one'')),
      lib_parse_certificate =
        (\<lambda>der. Inr (sample_leaf (agent_uri ''smith'')\<lparr>cert_notAfter := 7200 * 1000000000\<rparr>)),
      lib_parse_url = Inr, lib_marshal_key = (\<lambda>k. Inr ''key''), lib_pem_encode = pem_bytes,
      lib_marshal_json = (\<lambda>m. Inr ''{}''), lib_temp_dir = (\<lambda>n. ''/tmp''), lib_write_file = (\<lambda>p d mode. None)\<rparr>"

lemma sample_lib_laws: "issues sample_lib" "reassembles sample_lib"
  by (auto simp: issues_def reassembles_def sample_lib_def split: if_splits)

definition sample_pki :: pki_state where
  "sample_pki = \<lparr>pk_draws = 0, pk_dirs = 0, pk_files = Map.empty\<rparr>"

lemma sample_leaf_issued:
  "\<exists>c key s'. NewLeaf sample_lib \<lparr>au_Certificate = sample_root ''A'', au_Key = ECDSAKey P256\<rparr>
     (NewLeafOptions leafValidity leafValidity [agent_uri ''smith'']) sample_pki = Inr ((c, key), s')"
  by (simp add: NewLeaf_def newTemplate_def randomSerialNumber_def ecdsaPrivateKey_def sign_def
      and_then_def must_def drawn_def return_def Let_def NewLeafOptions_def sample_lib_def sample_pki_def
      as_asked_def sample_leaf_def KeyUsageDigitalSignature_def to_second_def leafValidity_def)

section \<open>Properties\<close>

text \<open>
  C29. What the test authority issues is what the verifiers ask for. A leaf issued by default for the URI
  of a valid agent, presented with any intermediates issued by default, authenticates as that agent
  exactly when the chain anchors to the trust bundle, and is valid from before the time it was issued
  to after it; an authority issued by default may be in a trust bundle.
\<close>

theorem issued_chain_authenticates:
  assumes "issues lib" and "reassembles lib" and "valid_agent_id a"
    and "NewLeaf lib parent (NewLeafOptions now now' [agent_uri a]) s = Inr ((c, key), s')"
    and "list_all (made_by_default lib) cs"
  shows "(Authenticate x present au \<lparr>PeerCertificates = Some c # map Some cs\<rparr> = Inr a
      \<longleftrightarrow> anchors (ext_x509_verify x) present (auth_verifier au) c cs)
    \<and> cert_notBefore c \<le> now \<and> now' \<le> cert_notAfter c
    \<and> list_all admissible_root cs"
proof -
  note leaf = default_leaf [OF assms(1-4)]
  have signers: "list_all (signer_in_domain td) cs" for td
    using assms(5) authority_signs [OF assms(1)] by (simp add: list_all_iff)
  have "map Some ds = map Some cs \<longleftrightarrow> ds = cs" for ds :: "certificate list"
    by (simp add: inj_map_eq_map)
  then have "Authenticate x present au \<lparr>PeerCertificates = Some c # map Some cs\<rparr> = Inr a
      \<longleftrightarrow> accepted_chain x present au (agent_uri a) c cs"
    using assms(3) by (auto simp: Authenticate_chain)
  moreover have "cert_notBefore c = to_second (now + - leafValidity)" "cert_notAfter c = to_second (now' + leafValidity)"
    using NewLeaf_as_asked [OF assms(1,4)] by (simp_all add: NewLeafOptions_def)
  then have "cert_notBefore c \<le> now \<and> now' \<le> cert_notAfter c"
    using to_second_bounds [of "now + - leafValidity"] to_second_bounds [of "now' + leafValidity"]
    by (simp add: leafValidity_def)
  ultimately show ?thesis using leaf signers by (simp add: accepted_chain_def admissible_root_def [abs_def])
qed

theorem issued_chain_authenticates_witness:
  "\<exists>c key s'. NewLeaf sample_lib \<lparr>au_Certificate = sample_root ''A'', au_Key = ECDSAKey P256\<rparr>
     (NewLeafOptions leafValidity leafValidity [agent_uri ''smith'']) sample_pki = Inr ((c, key), s')
   \<and> cert_notBefore c \<le> leafValidity \<and> leafValidity \<le> cert_notAfter c"
proof -
  obtain c key s' where c: "NewLeaf sample_lib \<lparr>au_Certificate = sample_root ''A'', au_Key = ECDSAKey P256\<rparr>
     (NewLeafOptions leafValidity leafValidity [agent_uri ''smith'']) sample_pki = Inr ((c, key), s')"
    using sample_leaf_issued by blast
  have "valid_agent_id ''smith''" by code_simp
  from issued_chain_authenticates [OF sample_lib_laws this c, of "[]"] c show ?thesis by auto
qed

end
