(* ===== verification/Spec2Isabelle.thy ===== *)
theory Spec2Isabelle
  imports Fair_Serve Fair_Endpoint Deployment Fizzled Test_Pki
begin

text \<open>
  fizzled runs countdown jobs for agents that it knows by their SPIFFE certificates. An agent calls the
  daemon \<open>fizzled\<close> over mutual TLS, normally with the command \<open>fizzle\<close>: \<open>Start\<close> makes a job that counts down
  from a number, about one tick a second, \<open>GetStatus\<close> and \<open>Stop\<close> ask for its state and end it, and
  \<open>StreamOutput\<close> replays its ticks from the first and follows it to its end. This development models the
  Go code of the daemon, of the client and of both commands. It covers everything of the repository that
  is neither generated nor a test.

  \<^bold>\<open>How the parts interact.\<close> A connection is admitted by the TLS callbacks of \<open>internal/authn\<close>: the chain is
  verified against the trust bundle (\<open>authn/x509svid\<close>), its URI is parsed (\<open>authn/spiffeid\<close>) and the
  identity is that of an agent or of the server. On each RPC the interceptor of \<open>internal/server\<close>
  authenticates the peer again, asks \<open>internal/authz\<close> whether the agent's role permits the action and hands
  the agent id to the handler. The handler works on \<open>internal/registry\<close>, which holds the jobs of each agent
  under ids of the form agent/number, and on the jobs of \<open>internal/worker\<close>: each has a countdown goroutine
  that appends ticks and any number of readers and of callers of \<open>Stop\<close>. When its context ends, the server
  closes the registry, stops every job and drains the transport within its grace. \<open>internal/client\<close> turns
  gRPC statuses into its own errors, \<open>cmd/fizzle\<close> turns those into output and an exit code.

  \<^bold>\<open>Theories.\<close>
  \<^item> \<open>Go_Prelude\<close>: strings, decimal numbers, \<open>int32\<close>, trimming and splitting; the collections of hints.
  \<^item> \<open>Go_Errors\<close>: every sentinel of every \<open>errors.go\<close>, wrapping, \<open>errors.Is\<close> (\<open>errors_is\<close>), \<open>internal/logging\<close>.
  \<^item> \<open>Transition\<close>: machines that move by events, and four interfaces of them: one that keeps an invariant
    (\<open>invariant_steps\<close>), one whose states only move forward along a preorder (\<open>evolving_steps\<close>), one that
    implements an abstract relation (\<open>refining_steps\<close>) and one that is part of another (\<open>embedded_steps\<close>):
    a job of the registry, the registry of the service, the service of the server.
  \<^item> \<open>Spiffe_ID\<close>, \<open>X509_Svid\<close>, \<open>Externals\<close>, \<open>Agent_Identity\<close>, \<open>Trust_Bundle\<close>, \<open>Authenticator\<close>: \<open>internal/authn\<close> and
    its packages. \<open>Bundle_Text\<close>: trust bundles as they are written, and that they load as such. \<open>Authz\<close>: \<open>internal/authz\<close>.
  \<^item> \<open>Worker_Job\<close>, \<open>Worker_Inv\<close>, \<open>Worker_Props\<close>: \<open>internal/worker\<close>, as the machine \<open>job_step\<close> over a job, its
    countdown, its readers and its \<open>Stop\<close> calls.
  \<^item> \<open>Registry\<close>: \<open>internal/registry\<close>, its critical sections as functions on a \<open>store\<close>; \<open>Registry_Shutdown\<close>: the
    machine \<open>shop_step\<close> in which its jobs run, \<open>Create\<close> adds to them and \<open>Shutdown\<close> calls wait for them.
  \<^item> \<open>Wire\<close>: what requests and answers carry. \<open>Interceptor\<close>, \<open>Service\<close>, \<open>Service_Inv\<close>, \<open>Service_Props\<close>, \<open>Server\<close>:
    the files of \<open>internal/server\<close>. The machine \<open>service_step\<close> is the registry's with a table of RPCs, and
    \<open>serve_step\<close> is that with the body of \<open>Serve\<close>, its goroutines and the transport.
  \<^item> \<open>Drain\<close>: the way down: that every pending RPC is answered and that \<open>Serve\<close> returns.
  \<^item> \<open>Fairness\<close>: infinite runs, what a fair scheduler owes them, and the interface \<open>fair_steps\<close> of a machine that
    gets to a goal in every fair run. \<open>Fair_Job\<close>, \<open>Fair_Service\<close>, \<open>Fair_Serve\<close>: the fair
    runs of a job, of the service and of the server, each seen as runs of the one before.
  \<^item> \<open>Board\<close>: what the service is without goroutines, locks, channels or calls, and the proof that it is that.
  \<^item> \<open>Client\<close>: \<open>internal/client\<close>. \<open>Flags\<close>: what the commands use of the package \<open>flag\<close>. \<open>Fizzle\<close>, \<open>Fizzled\<close>: the two
    commands, from the command line to the exit code.
  \<^item> \<open>Test_Pki\<close>: \<open>internal/testpki\<close>, the authority that issues certificates for the tests.
  \<^item> \<open>Call_Course\<close>: what one RPC comes to among all the others, with its job seen on the board. \<open>Endpoint\<close>: a client
    whose RPCs, streams included, go through the interceptor to the service; \<open>Fair_Endpoint\<close>: its calls that wait,
    in a fair run of the service. \<open>Deployment\<close>: the client
    command against the daemon, over the TLS configurations that both have built.
  \<^item> this theory: the properties from one end to the other.

  \<^bold>\<open>State and steps.\<close> A struct is a record, an enumeration a datatype (the actions and roles of
  \<open>internal/authz\<close>, open string types, are strings), an error a tree of wrapped sentinels, and a fallible function returns an error or a value. What goroutines share moves by a step function
  \<open>event \<Rightarrow> state \<Rightarrow> state option\<close>: a step runs from one point at which another goroutine may come in to the
  next, that is from lock to unlock or up to a channel operation, and \<open>None\<close> means that the event cannot
  happen there. An event names the goroutine that moves and carries what the environment decides, such as
  the time, the random sample, which ready case of a \<open>select\<close> is taken and whether foreign code panics. A
  panic unwinds through the deferred calls as in Go, and one that leaves its goroutine ends the process:
  the state \<open>CCrashed\<close>, after which nothing moves. Events range over every interleaving, so a property of
  reachable states holds under every schedule.

  \<^bold>\<open>Groups of lemmas.\<close>
  \<^item> \<^emph>\<open>Identity.\<close> What \<open>Parse\<close>, \<open>Verify\<close>, \<open>parseTrustBundle\<close>, \<open>Authenticate\<close> and the TLS callbacks accept, as
    equivalences; printing and parsing again, for identifiers and for trust bundles; that client and server decide alike; the audit lines.
    What the test authority issues by default is accepted (\<open>Test_Pki\<close>).
  \<^item> \<^emph>\<open>Access.\<close> A handler runs for the agent the certificate names and only when its role permits the action;
    nobody reaches another agent's job.
  \<^item> \<^emph>\<open>Jobs.\<close> \<open>sys_inv\<close> is the invariant of a job at every program counter. From it follow the shape of the
    ticks, that each reader is given every tick once and in order, that no wakeup is missed, that a lock
    or a channel never panics and that a terminal state is final.
  \<^item> \<^emph>\<open>Progress.\<close> \<open>work_left\<close> is a measure that every step of a job's own goroutines lowers and that is at most
    \<open>3 * count + 8\<close> for a new job: from it, \<open>Stop\<close>, the iterator, \<open>Shutdown\<close>, every
    pending RPC and \<open>Serve\<close> come to their end (\<open>comes_to\<close>) by the goroutines that are there already: no
    panic, no cancellation from outside, no further call (\<open>own_event\<close>, \<open>shop_goes_on\<close>, \<open>service_goes_on\<close>,
    \<open>serve_goes_on\<close>).
  \<^item> \<^emph>\<open>Fairness.\<close> The same under a scheduler: in every infinite run in which the clock passes every instant and
    no goroutine that stays ready is passed over for ever (\<open>fair_run\<close>, \<open>fair_service\<close>, \<open>fair_serve\<close>), with
    panics, cancellations and calls at any time, every job ends, every \<open>Stop\<close> and every stream is answered,
    a shutdown returns, and so does \<open>Serve\<close>; and at the other end of the wire the client's \<open>Stop\<close> and the
    commands \<open>stop\<close> and \<open>outputs\<close> return.
  \<^item> \<^emph>\<open>Registry, service, server.\<close> The invariants \<open>store_inv\<close>, \<open>shop_inv\<close>, \<open>svc_inv\<close> and \<open>serving_inv\<close>, each built
    on the one before; what each RPC answers; that \<open>Serve\<close> does not return before every job is over, and
    what it returns, read off the events of its run (\<open>seen_run\<close>).
  \<^item> \<^emph>\<open>Refinement.\<close> A job implements \<open>spec_step\<close> and the service \<open>board_step\<close>, and what an RPC answers is read
    off the board.
  \<^item> \<^emph>\<open>Client and commands.\<close> Statuses and streams arrive as they were sent; exit codes and output, the daemon's from
    the run of its \<open>Serve\<close> (\<open>serves\<close>).
  \<^item> \<^emph>\<open>From one end to the other.\<close> What the commands \<open>start\<close>, \<open>status\<close> and \<open>outputs\<close> and the client's \<open>Stop\<close> come to,
    through the interceptors to the board and back, whatever else runs in the service
    (\<open>stop_course\<close>, \<open>stream_course\<close>), and that a client and a daemon built from one trust bundle admit each
    other (\<open>mutual_admission\<close>).

  \<^bold>\<open>Bounds and fuel.\<close> No definition carries fuel. Loops over a list recur on it, the loop over the trust bundle
  terminates because what \<open>pem.Decode\<close> leaves is shorter (its documented behaviour, a hypothesis where
  it is used), and the loops of goroutines are steps of the machines. \<open>count\<close> is an \<open>int32\<close> where it crosses the
  wire and the conversions wrap; durations, sums of nanoseconds since the start of a job, and the
  counters of ids are unbounded integers.

  \<^bold>\<open>Parameters.\<close> Code outside the repository is an argument, with its documented behaviour as a named
  hypothesis where a property needs any: file access, PEM, X.509 chain building and key pairs
  (\<open>externals\<close>), the text that PEM gives a certificate (\<open>certificate_text\<close>), JSON validity, the code of a gRPC status (\<open>status_codes\<close>), an output that takes what it is
  given (\<open>takes_all\<close>) and the transport's graceful stop (\<open>graceful_stop\<close>, \<open>stop_returns\<close>), which returns once the calls are
  answered or cut, its return once it is stopped (in \<open>fair_serve\<close>), and a connection that carries RPCs once both callbacks of the handshake have admitted
  it (\<open>secured\<close>).

  \<^bold>\<open>Not modelled.\<close> The generated gRPC and protobuf code, but for the values that travel; how signals
  end a context, of which only the end is an event; the handshake of \<open>crypto/tls\<close> around the
  callbacks, so the parameters a transport is built with are recorded, not acted on;
  the layout of JSON log lines.

  \<^bold>\<open>What modelling showed.\<close> When authentication fails at an RPC, after a handshake that succeeded, its reason
  is logged nowhere, although a comment in \<open>interceptor.go\<close> says it is. \<open>fizzled\<close> prints its usage on
  stderr after a bad flag, and a comment says stdout. The text of \<open>ErrInvalidCount\<close> excludes the maximum
  that the code accepts. A count that only the server rejects makes \<open>fizzle\<close> exit with 2, and its usage says 1.
\<close>

section \<open>Properties\<close>

text \<open>
  A client starts a job, from one end to the other. For any count a client may be given, the call
  fails with ErrInvalidArgument when the wire cannot carry the count; else, when the server does not take
  the caller for an agent with a role, with the class of that refusal; else with ErrUnavailable once the
  server shuts down, with ErrInvalidArgument unless the count is between 1 and 100, and otherwise it
  returns the id under which the caller, and nobody else, then has a live job of that count.
\<close>

lemma client_starts_job:
  assumes "runnable ep" and "connected ep c" and "status_codes code_of"
  shows "let r = client_Start code_of c count; w = ep_service ep in
    if count < min_int32 \<or> max_int32 < count then fails_with r (SClient ErrInvalidArgument)
    else case caller_of ep ActionStart of
      None \<Rightarrow> fails_with r (SClient (refusal_of ep FizzledService_Start_FullMethodName))
    | Some a \<Rightarrow>
        if \<not> bd_open (abs_service w) then fails_with r (SClient ErrUnavailable)
        else if count < 1 \<or> 100 < count then fails_with r (SClient ErrInvalidArgument)
        else (\<exists>jobID w'. r = Inr jobID
               \<and> service_step (ep_dur ep) (OnStart (ep_call ep) (Some a) (ep_now ep) (to_int32 count)) w = Some w'
               \<and> (\<forall>b. bd_jobs (abs_service w') (b, jobID) = (if b = a then Some (Live count []) else None)))"
  using client_Start_outcome [OF assms, of count]
  by (auto simp: Let_def split: option.splits if_splits dest: rpc_failure_fails)

text \<open>
  C23. The \<open>status\<close> command prints what is on the board, from one end to the other. When the server takes
  the caller for an agent with a role and that agent has a job under the id, stdout is the status of that
  job on a line and the command succeeds; when it has none, it fails as not found, and when the caller is
  refused, with the class of the refusal, and prints nothing.
\<close>

theorem status_prints_board:
  assumes "runnable ep" and "connected ep c" and "status_codes (env_code_of env)" and "takes_all (env_stdout env)"
  shows "\<exists>out r. execute_command env c (statusCommand jobID) [] = Some (out, r)
    \<and> (case caller_of ep ActionGetStatus of
         None \<Rightarrow> out = [] \<and> fails_with r (SClient (refusal_of ep FizzledService_GetStatus_FullMethodName))
       | Some a \<Rightarrow>
           (case bd_jobs (abs_service (ep_service ep)) (a, jobID) of
              None \<Rightarrow> out = [] \<and> fails_with r (SClient ErrNotFound)
            | Some x \<Rightarrow> out = status_text (spec_status x) @ [CHR 0x0A] \<and> r = Inr ()))"
proof -
  let ?w = "ep_service ep" and ?m = FizzledService_GetStatus_FullMethodName
  let ?rpc = "rpc_answer ep ?m (GetStatusRequest jobID) (\<lambda>a. OnGetStatus (ep_call ep) (Some a) jobID) []"
  have rpc: "rpc_GetStatus (cl_connection c) jobID =
      map_sum id (\<lambda>r. case r of GetStatusResponse ws \<Rightarrow> ws | _ \<Rightarrow> STATUS_UNSPECIFIED) ?rpc"
    using assms(2) by (simp add: connected_def)
  show ?thesis
  proof (cases "caller_of ep ActionGetStatus")
    case None
    then have "Option.bind (actionFor ?m) (caller_of ep) = None" by (simp add: unary_actions)
    from rpc_answer_refused [OF this, of "GetStatusRequest jobID" "\<lambda>a. OnGetStatus (ep_call ep) (Some a) jobID" "[]"]
    obtain m where "?rpc = Inl (StatusErr (refusal_code (ep_externals ep) (ep_now ep) (ep_interceptor ep)
        (ep_peer ep) ?m) m)" by blast
    with None assms(3) show ?thesis
      by (auto simp: client_GetStatus_def rpc status_codes_def refusal_of_def Let_def)
  next
    case (Some a)
    obtain w' where w': "service_step (ep_dur ep) (OnGetStatus (ep_call ep) (Some a) jobID) ?w = Some w'"
      using runnable_GetStatus [OF assms(1)] by blast
    have "Option.bind (actionFor ?m) (caller_of ep) = Some a" using Some by (simp add: unary_actions)
    from rpc_answer_handled [OF this, where event = "\<lambda>a. OnGetStatus (ep_call ep) (Some a) jobID" and es = "[]"] w'
    have "?rpc = answer_of w' (ep_call ep)" by simp
    then have ans: "?rpc = map_sum id GetStatusResponse (status_answer ?w a jobID)"
      using GetStatus_reads_board(2) [OF w'] by (cases "status_answer ?w a jobID") (simp_all add: answer_of_def)
    have same: "statusFrom (snd (protoStatus lg (status_text st))) = Inr st" for lg st
      by (cases st) (simp_all add: protoStatus_def statusFrom_def)
    show ?thesis
      using Some assms(3,4)
      by (cases "bd_jobs (abs_service ?w) (a, jobID)")
         (auto simp: client_GetStatus_def rpc ans status_answer_def status_codes_def client_class_def Let_def same writeLine_def)
  qed
qed

theorem status_prints_board_witness:
  "\<exists>out r. execute_command (sample_env\<lparr>env_code_of := plain_code\<rparr>) (wired sample_endpoint)
      (statusCommand ''smith/0'') [] = Some (out, r) \<and> out = [] \<and> fails_with r (SClient ErrNotFound)"
proof -
  have env: "status_codes (env_code_of (sample_env\<lparr>env_code_of := plain_code\<rparr>))"
    "takes_all (env_stdout (sample_env\<lparr>env_code_of := plain_code\<rparr>))"
    using plain_code_ok sample_env_takes by simp_all
  from status_prints_board [OF sample_endpoint_runnable wired_connected env, of "''smith/0''"]
  show ?thesis
    by (simp add: sample_endpoint_caller sample_endpoint_board empty_board_def del: execute_command.simps)
qed

text \<open>
  C4. A client stops a job, from one end to the other, whatever else goes on in the service before the
  answer: other calls, the countdowns, shutdowns. A caller the server refuses gets the class of the
  refusal and one without a job under the id a not found; otherwise the client returns the status the
  caller's job has ended in, by steps of its specification, which is then on the board for good.
\<close>

theorem client_stops_job:
  assumes "runnable ep" and "status_codes code_of" and "rpc_Stop (cl_connection c) jobID = stop_rpc ep jobID i es"
    and "\<forall>a. caller_of ep ActionStop = Some a \<longrightarrow>
      (\<exists>w' res. after ep (OnStop (ep_call ep) (Some a) jobID i) es = Some w'
         \<and> svc_calls w' (ep_call ep) = Some (Answered [] res))"
  shows "let r = client_Stop code_of c jobID in
    case caller_of ep ActionStop of
      None \<Rightarrow> fails_with r (SClient (refusal_of ep FizzledService_Stop_FullMethodName))
    | Some a \<Rightarrow>
        (case bd_jobs (abs_service (ep_service ep)) (a, jobID) of
           None \<Rightarrow> fails_with r (SClient ErrNotFound)
         | Some x \<Rightarrow>
             (\<exists>w' st ts. after ep (OnStop (ep_call ep) (Some a) jobID i) es = Some w'
                \<and> r = Inr st \<and> st \<noteq> StatusRunning \<and> spec_step\<^sup>*\<^sup>* x (Over st ts)
                \<and> (\<forall>w''. reaches (service_step (ep_dur ep)) w' w'' \<longrightarrow>
                     bd_jobs (abs_service w'') (a, jobID) = Some (Over st ts))))"
proof (cases "caller_of ep ActionStop")
  case None
  then have "Option.bind (actionFor FizzledService_Stop_FullMethodName) (caller_of ep) = None"
    by (simp add: waiting_actions)
  from rpc_answer_refused [OF this, of "StopRequest jobID" "\<lambda>a. OnStop (ep_call ep) (Some a) jobID i" es]
  obtain m where "stop_rpc ep jobID i es = Inl (StatusErr (refusal_code (ep_externals ep) (ep_now ep)
      (ep_interceptor ep) (ep_peer ep) FizzledService_Stop_FullMethodName) m)" by (auto simp: stop_rpc_def)
  with None assms(2,3) show ?thesis by (auto simp: client_Stop_def status_codes_def refusal_of_def Let_def)
next
  case (Some a)
  from assms(4) Some obtain w' res where
    w': "after ep (OnStop (ep_call ep) (Some a) jobID i) es = Some w'"
    "svc_calls w' (ep_call ep) = Some (Answered [] res)" by blast
  have "Option.bind (actionFor FizzledService_Stop_FullMethodName) (caller_of ep) = Some a"
    using Some by (simp add: waiting_actions)
  from rpc_answer_handled [OF this, where event = "\<lambda>a. OnStop (ep_call ep) (Some a) jobID i" and es = es] w'(1)
  have rpc: "rpc_Stop (cl_connection c) jobID = map_sum id
      (\<lambda>r. case r of StopResponse ws \<Rightarrow> ws | _ \<Rightarrow> STATUS_UNSPECIFIED) (answer_of w' (ep_call ep))"
    by (simp add: assms(3) stop_rpc_def after_def del: run_events.simps)
  note comes = Stop_comes [OF assms(1) w'(1)]
  show ?thesis
  proof (cases "bd_jobs (abs_service (ep_service ep)) (a, jobID)")
    case None
    with comes Some rpc assms(2) show ?thesis
      by (auto simp: client_Stop_def answer_of_def status_codes_def client_class_def Let_def)
  next
    case job: (Some x)
    with comes w'(2) obtain st ts where st: "res = Inr (Some (StopResponse (wire_of st)))"
      "bd_jobs (abs_service w') (a, jobID) = Some (Over st ts)" "spec_step\<^sup>*\<^sup>* x (Over st ts)"
      by (auto simp: stop_course_def)
    have inv: "svc_inv (ep_dur ep) w'" by (rule after_inv [OF assms(1) w'(1)])
    from over_status [OF st(2)] have "st \<noteq> StatusRunning" .
    with Some w' st(1) assms(3) have "client_Stop code_of c jobID = Inr st"
      using client_Stop_answered [of ep a jobID i es w' st c code_of] comes job by (auto simp: stop_course_def)
    with Some job w'(1) st over_forever [OF _ inv st(2)] \<open>st \<noteq> StatusRunning\<close> show ?thesis
      by (auto simp: Let_def)
  qed
qed

theorem client_stops_job_witness:
  "\<exists>st. client_Stop plain_code (waiting job_endpoint sample_stop) ''smith/0'' = Inr st \<and> st \<noteq> StatusRunning"
proof -
  have run: "\<forall>a. caller_of job_endpoint ActionStop = Some a \<longrightarrow>
      (\<exists>w' res. after job_endpoint (OnStop (ep_call job_endpoint) (Some a) ''smith/0'' 0) sample_stop = Some w'
         \<and> svc_calls w' (ep_call job_endpoint) = Some (Answered [] res))"
    using job_endpoint_runs(2) by (auto simp: job_endpoint_caller)
  from client_stops_job [OF job_endpoint_runnable plain_code_ok waiting_rpcs(1) run] show ?thesis
    by (auto simp: job_endpoint_caller job_endpoint_board Let_def)
qed

text \<open>
  C5. The \<open>outputs\<close> command prints the job, from one end to the other, whatever goes on in the service
  meanwhile, as long as the stream is not cut. A caller the server refuses and one without a job under
  the id get an error and nothing on stdout. Otherwise the command does not return while the stream is
  open, and when it returns it succeeds, the caller's job is over, and stdout is its ticks, every one
  of them from the first to the last and in order, each as one line of JSON.
\<close>

theorem outputs_prints_board:
  assumes "runnable ep" and "status_codes (env_code_of env)" and "takes_all (env_stdout env)"
    and "rejects_controls (env_json env)" and "\<forall>t. is_ok (tickJSON (env_json env) (sent_tick (ep_dur ep) t))"
    and "rpc_StreamOutput (cl_connection c) jobID = Inr (stream_rpc ep jobID i es)"
    and "\<forall>a. caller_of ep ActionStreamOutput = Some a \<longrightarrow>
      after ep (OnStream (ep_call ep) (Some a) jobID i) es \<noteq> None"
    and "list_all (uncut (ep_call ep)) es"
  shows "case (caller_of ep ActionStreamOutput, execute_command env c (outputsCommand jobID) []) of
      (None, ended) \<Rightarrow>
        (\<exists>r. ended = Some ([], r) \<and> fails_with r (SClient (refusal_of ep FizzledService_StreamOutput_FullMethodName)))
    | (Some a, ended) \<Rightarrow>
        (case bd_jobs (abs_service (ep_service ep)) (a, jobID) of
           None \<Rightarrow> \<exists>r. ended = Some ([], r) \<and> fails_with r (SClient ErrNotFound)
         | Some x \<Rightarrow>
             \<exists>w'. after ep (OnStream (ep_call ep) (Some a) jobID i) es = Some w'
               \<and> (case ended of
                    None \<Rightarrow> \<exists>p r sent. svc_calls w' (ep_call ep) = Some (Streaming a p r sent)
                  | Some (out, r) \<Rightarrow>
                      r = Inr () \<and> (\<exists>st ts. bd_jobs (abs_service w') (a, jobID) = Some (Over st ts)
                        \<and> spec_step\<^sup>*\<^sup>* x (Over st ts)
                        \<and> split_on (CHR 0x0A) out =
                            map (\<lambda>t. projr (tickJSON (env_json env) (sent_tick (ep_dur ep) t))) ts @ [[]])))"
proof (cases "caller_of ep ActionStreamOutput")
  case None
  from stream_rpc_refused [OF assms(1) this, of jobID i es] obtain m where
    "rpc_StreamOutput (cl_connection c) jobID = Inr (map Inr [] @ [Inl (StatusErr (refusal_code (ep_externals ep)
      (ep_now ep) (ep_interceptor ep) (ep_peer ep) FizzledService_StreamOutput_FullMethodName) m)])"
    using assms(6) by auto
  from outputs_of_stream(2) [OF assms(3) _ this] None assms(2) show ?thesis
    by (simp add: status_codes_def refusal_of_def del: execute_command.simps)
next
  case (Some a)
  let ?k = "ep_call ep" and ?json = "env_json env" and ?run = "execute_command env c (outputsCommand jobID) []"
  from assms(7) Some obtain w' where w': "after ep (OnStream ?k (Some a) jobID i) es = Some w'" by blast
  note rpc = stream_rpc_handled [OF Some w']
  note comes = Stream_comes [OF assms(1) w' assms(8)]
  show ?thesis
  proof (cases "bd_jobs (abs_service (ep_service ep)) (a, jobID)")
    case None
    with comes rpc assms(6) have "rpc_StreamOutput (cl_connection c) jobID =
        Inr (map Inr [] @ [Inl (StatusErr CodeNotFound ''job not found'')])" by simp
    from outputs_of_stream(2) [OF assms(3) _ this] None Some assms(2) show ?thesis
      by (simp add: status_codes_def client_class_def del: execute_command.simps)
  next
    case job: (Some x)
    with comes have course: "stream_course (ep_dur ep) ?k a jobID w'"
      and moved: "\<exists>y. bd_jobs (abs_service w') (a, jobID) = Some y \<and> spec_step\<^sup>*\<^sup>* x y" by auto
    from course show ?thesis unfolding stream_course_def
    proof (elim disjE exE conjE)
      fix p r sent rd
      assume c: "svc_calls w' ?k = Some (Streaming a p r sent)" and "js_readers (svc_jobs w' ! p) r = Some rd"
      then obtain ts where ts: "sent = map (sent_tick (ep_dur ep)) ts"
        using stream_reader [OF after_inv [OF assms(1) w'] c] by blast
      have "rpc_StreamOutput (cl_connection c) jobID = Inr (map Inr sent @ [])" using assms(6) rpc c by simp
      from outputs_of_stream(1) [OF assms(3) _ this] ts assms(5) have "?run = None" by auto
      with Some job w' c show ?thesis by (simp del: execute_command.simps)
    next
      fix st ts
      assume c: "svc_calls w' ?k = Some (Answered (map (sent_tick (ep_dur ep)) ts) (Inr None))"
        and over: "bd_jobs (abs_service w') (a, jobID) = Some (Over st ts)"
      from outputs_closed [OF assms(3-5) Some w' c assms(6)] Some job w' over moved
      show ?thesis by (auto simp del: execute_command.simps split_on.simps)
    qed
  qed
qed

theorem outputs_prints_board_witness:
  "\<exists>out. execute_command (sample_env\<lparr>env_code_of := plain_code\<rparr>) (waiting job_endpoint sample_stream)
      (outputsCommand ''smith/0'') [] = Some (out, Inr ())"
proof -
  let ?env = "sample_env\<lparr>env_code_of := plain_code\<rparr>"
  have env: "status_codes (env_code_of ?env)" "takes_all (env_stdout ?env)" "rejects_controls (env_json ?env)"
    "\<forall>t. is_ok (tickJSON (env_json ?env) (sent_tick (ep_dur job_endpoint) t))"
    using plain_code_ok sample_env_takes sample_env_json sample_env_encodes by simp_all
  obtain w sent where w: "after job_endpoint (OnStream 1 (Some ''smith'') ''smith/0'' 0) sample_stream = Some w"
    "svc_calls w 1 = Some (Answered sent (Inr None))" using job_endpoint_runs(1) by blast
  then have run: "\<forall>a. caller_of job_endpoint ActionStreamOutput = Some a \<longrightarrow>
      after job_endpoint (OnStream (ep_call job_endpoint) (Some a) ''smith/0'' 0) sample_stream \<noteq> None"
    by (simp add: job_endpoint_caller)
  have uncut: "list_all (uncut (ep_call job_endpoint)) sample_stream" by (simp add: sample_stream_def)
  from outputs_prints_board [OF job_endpoint_runnable env waiting_rpcs(2) run uncut] w show ?thesis
    by (auto simp: job_endpoint_caller job_endpoint_board simp del: execute_command.simps split: option.splits)
qed

text \<open>
  C3. \<open>fizzle start\<close> against \<open>fizzled\<close>, from the command line to the job, when both are built at one
  instant from one trust bundle and every handshake their callbacks admit is carried out. The daemon takes
  the command for the agent its certificate names. If the roles file gives that agent a role, the daemon is
  not shutting down and the count is 1 to 100, stdout is the id of a job that is then live on the board
  under that agent and no other, and the command exits 0; in any other case stdout is empty, a diagnostic
  says so, and it exits 2 for a count the client or the daemon calls invalid and 1 otherwise.
\<close>

theorem fizzle_starts_job:
  assumes "New_server x listen now scfg lg = Some (logged, Inr srv)"
    and "runnable ep" and "ep_externals ep = x" and "ep_now ep = now"
    and "ep_interceptor ep = tr_interceptor (srv_grpc srv)"
    and "secured x (tr_creds (srv_grpc srv)) ep (env_dial env)"
    and "env_externals env = x" and "env_now env = now" and "status_codes (env_code_of env)"
    and "takes_all (env_stdout env)" and "takes_all (env_stderr env)"
    and "fizzle_parse args = Inr parsed"
    and "newCommand (env_quote env) (inv_name parsed) (inv_argument parsed) = Inr (startCommand count)"
    and "New_client x (env_dial env) now (inv_config parsed) None = Some (clogged, Inr c)"
    and "client_CAPath (inv_config parsed) = CAPath scfg"
  shows "\<exists>ders leaf cs agent authorizer.
      loadIdentity x (client_CertPath (inv_config parsed)) (client_KeyPath (inv_config parsed))
        = Inr (ders, Some leaf # map Some cs)
      \<and> valid_agent_id agent \<and> cert_uris leaf = [agent_uri agent] \<and> Load x (RolesPath scfg) = Inr authorizer
      \<and> (if map_of (roles authorizer) agent = Some RoleUser \<and> bd_open (abs_service (ep_service ep))
            \<and> 1 \<le> count \<and> count \<le> 100
         then \<exists>jobID w'. fizzle_run env args = Some (jobID @ [CHR 0x0A], [], 0)
           \<and> service_step (ep_dur ep) (OnStart (ep_call ep) (Some agent) now (to_int32 count)) (ep_service ep) = Some w'
           \<and> (\<forall>b. bd_jobs (abs_service w') (b, jobID) = (if b = agent then Some (Live count []) else None))
         else \<exists>err. fizzle_run env args = Some ([], ''fizzle: '' @ err,
           if count < min_int32 \<or> max_int32 < count
              \<or> map_of (roles authorizer) agent = Some RoleUser \<and> bd_open (abs_service (ep_service ep))
           then 2 else 1))"
proof -
  let ?cfg = "inv_config parsed"
  obtain a authorizer where srv: "Load x (RolesPath scfg) = Inr authorizer"
    "ic_authorizer (tr_interceptor (srv_grpc srv)) = authorizer"
    using New_server_ok [OF assms(1)] by metis
  from mutual_admission [OF assms(1,14,15)] obtain tls ders leaf cs agent where m:
    "env_dial env (client_Address ?cfg) tls = Inr (cl_connection c)"
    "loadIdentity x (client_CertPath ?cfg) (client_KeyPath ?cfg) = Inr (ders, Some leaf # map Some cs)"
    "valid_agent_id agent" "cert_uris leaf = [agent_uri agent]"
    "admits tls now (presented x (tr_creds (srv_grpc srv)))"
    "admits (tr_creds (srv_grpc srv)) now (presented x tls)"
    "Authenticate x now (ic_authenticator (tr_interceptor (srv_grpc srv))) \<lparr>PeerCertificates = presented x tls\<rparr> = Inr agent"
    by blast
  let ?ep = "with_peer ep (presented x tls)"
  have "connected ?ep \<lparr>cl_connection = cl_connection c\<rparr>"
    using assms(4,6) m(1,5,6) unfolding secured_def by blast
  then have con: "connected ?ep c" by (cases c) simp
  have "runnable ?ep" using assms(2) by simp
  note outcome = client_Start_outcome [OF this con assms(9), of count]
  have auth: "Authenticate (ep_externals ep) (ep_now ep) (ic_authenticator (ep_interceptor ep))
      \<lparr>PeerCertificates = presented x tls\<rparr> = Inr agent" using m(7) assms(3-5) by simp
  note caller = caller_with_peer [OF auth, unfolded assms(5) srv(2)]
  note run = fizzle_start_run [OF assms(12,13) _ assms(10,11), unfolded assms(7,8), OF assms(14)]
  have refused: "refusal_of ?ep FizzledService_Start_FullMethodName = ErrPermissionDenied"
    by (rule caller(2)) (simp add: unary_actions)
  show ?thesis
  proof (intro exI conjI)
    show "if map_of (roles authorizer) agent = Some RoleUser \<and> bd_open (abs_service (ep_service ep))
            \<and> 1 \<le> count \<and> count \<le> 100
         then \<exists>jobID w'. fizzle_run env args = Some (jobID @ [CHR 0x0A], [], 0)
           \<and> service_step (ep_dur ep) (OnStart (ep_call ep) (Some agent) now (to_int32 count)) (ep_service ep) = Some w'
           \<and> (\<forall>b. bd_jobs (abs_service w') (b, jobID) = (if b = agent then Some (Live count []) else None))
         else \<exists>err. fizzle_run env args = Some ([], ''fizzle: '' @ err,
           if count < min_int32 \<or> max_int32 < count
              \<or> map_of (roles authorizer) agent = Some RoleUser \<and> bd_open (abs_service (ep_service ep))
           then 2 else 1)"
    proof (cases "count < min_int32 \<or> max_int32 < count")
      case True
      with outcome run(2) [of ErrInvalidArgument] show ?thesis by (auto simp: int_bounds Let_def)
    next
      case False
      with outcome run(2) [of ErrPermissionDenied] run(2) [of ErrUnavailable] run(2) [of ErrInvalidArgument] run(1)
      show ?thesis
        by (cases "map_of (roles authorizer) agent = Some RoleUser"; cases "bd_open (abs_service (ep_service ep))")
           (auto simp: caller(1) refused assms(4) Let_def not_le)
    qed
  qed (use m srv(1) in blast)+
qed

theorem fizzle_starts_job_witness:
  "\<exists>srv jobID. fizzle_run (deployed_env srv) [''start'', ''--server'', ''h:1'', ''--ca'', ''ca.crt'', ''--cert'', ''agent.crt'',
     ''--key'', ''agent.key'', ''5''] = Some (jobID @ [CHR 0x0A], [], 0)"
proof -
  obtain srv l where srv: "New_server sample_externals Inr 10 sample_config None = Some (l, Inr srv)"
    using sample_server_exists by blast
  obtain c where c: "New_client sample_externals (env_dial (deployed_env srv)) 10
      (inv_config \<lparr>inv_name = ''start'', inv_argument = ''5'', inv_config = sample_client_config\<rparr>) None = Some ([], Inr c)"
    using deployed_client [of srv] by auto
  have "client_CAPath (inv_config \<lparr>inv_name = ''start'', inv_argument = ''5'', inv_config = sample_client_config\<rparr>)
      = CAPath sample_config" by (simp add: sample_client_config_def sample_config_def)
  note fizzle_starts_job [OF srv deployed_env_fields(10,8,7,9) _ deployed_env_fields(1,2) _ deployed_env_fields(5,6)
      deployed_command(1) _ c this]
  from this [unfolded deployed_env_fields(3,4), OF sample_secured plain_code_ok] deployed_command(2) [of srv]
  show ?thesis
    by (fastforce simp: sample_client_config_def sample_config_def empty_board_def dest: deployed_agent)
qed

end
